(* ===== verification/Prelude.thy ===== *)
theory Prelude
  imports Complex_Main "HOL-Library.Word"
begin

text \<open>
  The prelude of the development: the names the components share. It holds the byte type,
  the collections of simplification facts, and the generic lemmas on lists that the
  container and protocol models use.
\<close>

unbundle bit_operations_syntax

type_synonym byte = "8 word"
type_synonym uint64 = "64 word"

named_theorems double_simps "facts that reduce comparisons of doubles to comparisons of integer keys"
named_theorems range_simps "facts that reduce a range loop to the list of its contents"

section \<open>Lists\<close>

lemma nth_drop_Cons: "i < length xs \<Longrightarrow> drop i xs = xs ! i # drop (Suc i) xs"
  by (simp add: Cons_nth_drop_Suc)

lemma takeWhile_append_drop:
  "drop (length (takeWhile P xs)) xs = dropWhile P xs"
  by (simp add: dropWhile_eq_drop)

lemma filter_dropWhile:
  "(\<And>x. P x \<Longrightarrow> \<not> Q x) \<Longrightarrow> filter Q (dropWhile P xs) = filter Q xs"
  by (induction xs) auto

lemma sorted_wrt_dropWhile: "sorted_wrt R xs \<Longrightarrow> sorted_wrt R (dropWhile P xs)"
  by (metis sorted_wrt_drop dropWhile_eq_drop)

lemma filter_takeWhile_dropWhile:
  "filter Q (takeWhile P xs) @ filter Q (dropWhile P xs) = filter Q xs"
  by (simp flip: filter_append)

text \<open>On a list where \<open>P\<close> never holds again once it failed, \<open>takeWhile\<close> is \<open>filter\<close>.\<close>

lemma takeWhile_eq_filter_mono:
  "sorted_wrt (\<lambda>x y. P y \<longrightarrow> P x) xs \<Longrightarrow> takeWhile P xs = filter P xs"
  by (induction xs) (auto simp: filter_empty_conv)

lemma dropWhile_eq_filter_mono:
  "sorted_wrt (\<lambda>x y. P y \<longrightarrow> P x) xs \<Longrightarrow> dropWhile P xs = filter (\<lambda>x. \<not> P x) xs"
  by (induction xs) (auto intro!: filter_True[symmetric])

section \<open>Strict weak orders\<close>

text \<open>
  What the ordered containers of the standard library ask of the comparison they are given,
  on the keys that satisfy \<open>ok\<close>; in a strict total order equivalent keys are equal.
\<close>

locale weak_order =
  fixes lt :: "'k \<Rightarrow> 'k \<Rightarrow> bool" and ok :: "'k \<Rightarrow> bool"
  assumes irrefl: "ok x \<Longrightarrow> \<not> lt x x"
    and trans: "ok x \<Longrightarrow> ok y \<Longrightarrow> ok z \<Longrightarrow> lt x y \<Longrightarrow> lt y z \<Longrightarrow> lt x z"
    and neg_trans: "ok x \<Longrightarrow> ok y \<Longrightarrow> ok z \<Longrightarrow> lt x z \<Longrightarrow> lt x y \<or> lt y z"
begin

lemma asym: "ok x \<Longrightarrow> ok y \<Longrightarrow> lt x y \<Longrightarrow> \<not> lt y x"
  using irrefl trans by blast

end

locale total_order = weak_order +
  assumes total: "ok x \<Longrightarrow> ok y \<Longrightarrow> \<not> lt x y \<Longrightarrow> \<not> lt y x \<Longrightarrow> x = y"

end
