(* ===== verification/Exceptions.thy ===== *)
theory Exceptions
  imports Prelude
begin

text \<open>
  The exception classes of \<open>src/exceptions/Exception.hpp\<close> and of the components that
  declare their own: the inheritance graph with the access of each base, the text an
  exception carries, and which handler catches which exception. A handler for a class
  type catches an object whose class is that type or has it as an unambiguous public base.
\<close>

datatype exn_class = StdException | Exception | KeyException | FileException
  | NetworkException | DBException | DBDuplicateException | DBKeyException
  | UpscaleDBException | TCPClientError | TCPConnectionClosedException
  | WebSocketClientException

text \<open>
  The direct bases of a class, each with \<open>True\<close> when the inheritance is public.
  \<open>class Exception : std::exception\<close> names no access, so its base is private.
\<close>

fun bases :: "exn_class \<Rightarrow> (exn_class \<times> bool) list" where
  "bases StdException = []"
| "bases Exception = [(StdException, False)]"
| "bases KeyException = [(Exception, True)]"
| "bases FileException = [(Exception, True)]"
| "bases NetworkException = [(Exception, True)]"
| "bases DBException = [(Exception, True)]"
| "bases DBDuplicateException = [(DBException, True)]"
| "bases DBKeyException = [(DBException, True), (KeyException, True)]"
| "bases UpscaleDBException = [(DBException, True)]"
| "bases TCPClientError = [(NetworkException, True)]"
| "bases TCPConnectionClosedException = [(NetworkException, True)]"
| "bases WebSocketClientException = [(NetworkException, True)]"

fun depth :: "exn_class \<Rightarrow> nat" where
  "depth StdException = 0"
| "depth Exception = 1"
| "depth KeyException = 2"
| "depth FileException = 2"
| "depth NetworkException = 2"
| "depth DBException = 2"
| "depth _ = 3"

lemma bases_depth: "(b, p) \<in> set (bases c) \<Longrightarrow> depth b < depth c"
  by (cases c) auto

text \<open>Every path from a class up to a base subobject, with \<open>True\<close> for an all-public path.\<close>

function paths_to :: "exn_class \<Rightarrow> exn_class \<Rightarrow> bool list" where
  "paths_to h c = (if c = h then [True] else
     concat (map (\<lambda>(b, p). map (\<lambda>q. p \<and> q) (paths_to h b)) (bases c)))"
  by pat_completeness auto
termination
  by (relation "measure (\<lambda>(h, c). depth c)") (auto dest: bases_depth)

declare paths_to.simps [simp del]

definition catches :: "exn_class \<Rightarrow> exn_class \<Rightarrow> bool" where
  "catches handler thrown = (paths_to handler thrown = [True])"

text \<open>
  The text of an exception: its arguments, already written to a stream, joined by the
  recursive \<open>concatenate\<close>.
\<close>

fun concatenate :: "string list \<Rightarrow> string" where
  "concatenate [] = ''''"
| "concatenate [t] = t"
| "concatenate (first # args) = concatenate [first] @ '', '' @ concatenate args"

record exn =
  exn_class :: exn_class
  exn_what :: string

definition mk_exn :: "exn_class \<Rightarrow> string list \<Rightarrow> exn" where
  "mk_exn c args = \<lparr>exn_class = c, exn_what = concatenate args\<rparr>"

definition what :: "exn \<Rightarrow> string" where
  "what e = exn_what e"

lemma concatenate_Cons: "args \<noteq> [] \<Longrightarrow> concatenate (t # args) = t @ '', '' @ concatenate args"
  by (cases args) auto

lemma catches_refl: "catches c c"
  by (simp add: catches_def paths_to.simps)

lemmas catches_eval = catches_def paths_to.simps

text \<open>
  which handlers catch which exceptions. A handler for the base class Exception catches
  every exception of the program except DBKeyException, which has two Exception subobjects,
  and a handler for std::exception catches none of them, because Exception inherits from it
  privately.
\<close>

theorem handler_matching:
  "(c \<noteq> StdException \<longrightarrow> \<not> catches StdException c) \<and>
   (catches Exception c \<longleftrightarrow> c \<notin> {StdException, DBKeyException})"
  by (cases c) (simp_all add: catches_eval)

theorem handler_matching_witness:
  "\<not> catches StdException FileException \<and> catches Exception FileException"
  using handler_matching[of FileException] by simp

end
