(* ===== verification/Ranges.thy ===== *)
theory Ranges
  imports Prelude "HOL-Library.Monad_Syntax" "HOL-Library.Multiset"
begin

text \<open>
  The ranges of \<open>src/range\<close>: the interface \<open>RangeData\<close> with its two virtual methods, the
  \<open>Iterator\<close> that drives one, the range-for loop over a \<open>Range\<close>, the forward range over
  a container and the filtered range. The interface is the locale \<open>range_contract\<close>: a
  provider says which list of items a loop over its range visits, and the loop lemma is
  proved once against it.

  The state of a range data object is passed explicitly, since copies of a range share it.
  A method returns \<open>None\<close> where the code has undefined behaviour (a dereferenced invalid
  iterator or pointer) or does not return.
\<close>

section \<open>The interface RangeData\<close>

text \<open>
  \<open>init\<close> and \<open>next\<close> take the state and the caller's item pointer (\<open>None\<close> while it points
  nowhere), and return whether there is an item, the pointer and the state.
\<close>

record ('s, 'v) range_data =
  rd_init :: "'s \<Rightarrow> 'v option \<Rightarrow> (bool \<times> 'v option \<times> 's) option"
  rd_next :: "'s \<Rightarrow> 'v option \<Rightarrow> (bool \<times> 'v option \<times> 's) option"

section \<open>Iterators and the range-for loop\<close>

record 'v iterator =
  it_finished :: bool
  it_has_data :: bool
  it_value :: "'v option"

definition end_iterator :: "'v iterator" where
  "end_iterator = \<lparr>it_finished = True, it_has_data = False, it_value = None\<rparr>"

definition mk_iterator :: "('s, 'v) range_data \<Rightarrow> 's \<Rightarrow> ('v iterator \<times> 's) option" where
  "mk_iterator rd s = (case rd_init rd s None of
     None \<Rightarrow> None
   | Some (ok, v, s') \<Rightarrow> Some (\<lparr>it_finished = (\<not> ok), it_has_data = True, it_value = v\<rparr>, s'))"

definition iterator_incr ::
  "('s, 'v) range_data \<Rightarrow> 'v iterator \<Rightarrow> 's \<Rightarrow> ('v iterator \<times> 's) option" where
  "iterator_incr rd it s =
     (if \<not> it_finished it \<and> it_has_data it
      then (case rd_next rd s (it_value it) of
              None \<Rightarrow> None
            | Some (ok, v, s') \<Rightarrow> Some (it\<lparr>it_finished := \<not> ok, it_value := v\<rparr>, s'))
      else Some (it, s))"

definition iterator_ne :: "'v iterator \<Rightarrow> 'v iterator \<Rightarrow> bool" where
  "iterator_ne a b = (it_finished a \<noteq> it_finished b)"

text \<open>
  A \<open>Range\<close> is a shared pointer to range data, possibly null; \<open>begin()\<close> of a null range is
  the end iterator.
\<close>

type_synonym ('s, 'v) range = "('s, 'v) range_data option"

definition range_begin :: "('s, 'v) range \<Rightarrow> 's \<Rightarrow> ('v iterator \<times> 's) option" where
  "range_begin r s = (case r of None \<Rightarrow> Some (end_iterator, s) | Some rd \<Rightarrow> mk_iterator rd s)"

text \<open>
  \<open>for (const T& item : range)\<close>: the items the body sees, in order. The loop need not end,
  hence the option.
\<close>

partial_function (option) loop_items ::
  "('s, 'v) range_data \<Rightarrow> 'v iterator \<Rightarrow> 's \<Rightarrow> ('v list \<times> 's) option" where
  "loop_items rd it s =
     (if iterator_ne it end_iterator
      then Option.bind (it_value it) (\<lambda>v.
           Option.bind (iterator_incr rd it s) (\<lambda>(it', s').
           Option.bind (loop_items rd it' s') (\<lambda>(vs, s''). Some (v # vs, s''))))
      else Some ([], s))"

definition range_items :: "('s, 'v) range \<Rightarrow> 's \<Rightarrow> ('v list \<times> 's) option" where
  "range_items r s = (case r of
     None \<Rightarrow> Some ([], s)
   | Some rd \<Rightarrow> Option.bind (mk_iterator rd s) (\<lambda>(it, s'). loop_items rd it s'))"

lemma range_items_begin:
  "range_items (Some rd) s = Option.bind (range_begin (Some rd) s) (\<lambda>(it, s'). loop_items rd it s')"
  by (simp add: range_items_def range_begin_def)

section \<open>The contract of a range\<close>

text \<open>
  While the range is on an item, \<open>rest s\<close> is the list of the items after it; \<open>next\<close> walks
  over them and keeps the invariant and \<open>kept s\<close>.
\<close>

locale range_step =
  fixes rd :: "('s, 'v) range_data"
    and inv :: "'s \<Rightarrow> bool"
    and kept :: "'s \<Rightarrow> 'c"
    and rest :: "'s \<Rightarrow> 'v list option"
  assumes next_end: "inv s \<Longrightarrow> rest s = Some [] \<Longrightarrow>
      \<exists>w s'. rd_next rd s v = Some (False, w, s') \<and> inv s' \<and> kept s' = kept s"
    and next_item: "inv s \<Longrightarrow> rest s = Some (x # xs) \<Longrightarrow>
      \<exists>s'. rd_next rd s v = Some (True, Some x, s') \<and> inv s' \<and> kept s' = kept s \<and> rest s' = Some xs"
begin

lemma loop_from_item:
  assumes "inv s" "rest s = Some xs"
  shows "\<exists>s'. loop_items rd \<lparr>it_finished = False, it_has_data = True, it_value = Some x\<rparr> s = Some (x # xs, s')
    \<and> inv s' \<and> kept s' = kept s"
  using assms
proof (induction xs arbitrary: s x)
  case Nil
  then obtain w s' where "rd_next rd s (Some x) = Some (False, w, s')" "inv s'" "kept s' = kept s"
    using next_end by blast
  then show ?case
    by (simp add: loop_items.simps iterator_ne_def end_iterator_def iterator_incr_def)
next
  case (Cons y ys)
  then obtain s1 where s1: "rd_next rd s (Some x) = Some (True, Some y, s1)" "inv s1"
      "kept s1 = kept s" "rest s1 = Some ys"
    using next_item by blast
  then obtain s2 where "loop_items rd \<lparr>it_finished = False, it_has_data = True, it_value = Some y\<rparr> s1 =
      Some (y # ys, s2)" "inv s2" "kept s2 = kept s1"
    using Cons.IH by blast
  then show ?case using s1
    by (subst loop_items.simps) (simp add: iterator_ne_def end_iterator_def iterator_incr_def)
qed

lemma items_from_init:
  assumes "rd_init rd s None = Some (True, Some x, s1)" "inv s1" "kept s1 = kept s" "rest s1 = Some xs"
  shows "\<exists>s'. range_items (Some rd) s = Some (x # xs, s') \<and> inv s' \<and> kept s' = kept s"
  using loop_from_item[OF assms(2,4), of x] assms(1,3) by (simp add: range_items_def mk_iterator_def)

lemma no_items_from_init:
  assumes "rd_init rd s None = Some (False, w, s1)"
  shows "range_items (Some rd) s = Some ([], s1)"
  using assms by (simp add: range_items_def mk_iterator_def loop_items.simps iterator_ne_def end_iterator_def)

end

text \<open>
  The contract of a range that can be looped over again: \<open>contents s\<close> is the list of items that
  a loop started in state \<open>s\<close> visits.
\<close>

locale range_contract = range_step rd inv contents rest
  for rd :: "('s, 'v) range_data"
    and inv :: "'s \<Rightarrow> bool"
    and contents :: "'s \<Rightarrow> 'v list"
    and rest :: "'s \<Rightarrow> 'v list option" +
  assumes init_empty: "inv s \<Longrightarrow> contents s = [] \<Longrightarrow>
      \<exists>w s'. rd_init rd s v = Some (False, w, s') \<and> inv s' \<and> contents s' = contents s"
    and init_item: "inv s \<Longrightarrow> contents s = x # xs \<Longrightarrow>
      \<exists>s'. rd_init rd s v = Some (True, Some x, s') \<and> inv s' \<and> contents s' = contents s \<and> rest s' = Some xs"
begin

lemma items:
  assumes "inv s"
  shows "\<exists>s'. range_items (Some rd) s = Some (contents s, s') \<and> inv s' \<and> contents s' = contents s"
proof (cases "contents s")
  case Nil
  then obtain w s' where "rd_init rd s None = Some (False, w, s')" "inv s'" "contents s' = contents s"
    using init_empty assms by blast
  then show ?thesis using Nil no_items_from_init by auto
next
  case (Cons x xs)
  then obtain s1 where "rd_init rd s None = Some (True, Some x, s1)" "inv s1"
      "contents s1 = contents s" "rest s1 = Some xs"
    using init_item assms by blast
  then show ?thesis using items_from_init Cons by fastforce
qed

lemma items_fst:
  "inv s \<Longrightarrow> map_option fst (range_items (Some rd) s) = Some (contents s)"
  using items by fastforce

end

section \<open>Filtered ranges\<close>

text \<open>The loop that \<open>FilterRangeData::init\<close> and \<open>next\<close> share: skip until the filter accepts.\<close>

partial_function (option) filter_skip ::
  "('s, 'v) range_data \<Rightarrow> ('v \<Rightarrow> bool) \<Rightarrow> bool \<times> 'v option \<times> 's \<Rightarrow> (bool \<times> 'v option \<times> 's) option" where
  "filter_skip rd f r = (case r of (result, value, s) \<Rightarrow>
     if result
     then Option.bind value (\<lambda>v.
            if f v then Some (True, value, s)
            else Option.bind (rd_next rd s value) (\<lambda>r'. filter_skip rd f r'))
     else Some (False, value, s))"

definition filter_range_data :: "('s, 'v) range_data \<Rightarrow> ('v \<Rightarrow> bool) \<Rightarrow> ('s, 'v) range_data" where
  "filter_range_data rd f = \<lparr>
     rd_init = (\<lambda>s value. Option.bind (rd_init rd s value) (filter_skip rd f)),
     rd_next = (\<lambda>s value. Option.bind (rd_next rd s value) (filter_skip rd f))\<rparr>"

definition range_filter :: "('s, 'v) range_data \<Rightarrow> ('v \<Rightarrow> bool) \<Rightarrow> ('s, 'v) range" where
  "range_filter rd f = Some (filter_range_data rd f)"

locale filtered_range = range_contract rd inv contents rest
  for rd :: "('s, 'v) range_data" and inv and contents and rest +
  fixes f :: "'v \<Rightarrow> bool"
begin

lemma skip:
  assumes "inv s" "rest s = Some xs"
  shows "case filter f (x # xs) of
      [] \<Rightarrow> \<exists>w s'. filter_skip rd f (True, Some x, s) = Some (False, w, s') \<and> inv s' \<and> contents s' = contents s
    | y # ys \<Rightarrow> \<exists>s' zs. filter_skip rd f (True, Some x, s) = Some (True, Some y, s') \<and> inv s' \<and>
        contents s' = contents s \<and> rest s' = Some zs \<and> filter f zs = ys"
  using assms
proof (induction xs arbitrary: s x)
  case Nil
  then obtain w s' where "rd_next rd s (Some x) = Some (False, w, s')" "inv s'" "contents s' = contents s"
    using next_end by blast
  then show ?case using Nil by (simp add: filter_skip.simps)
next
  case (Cons y ys)
  show ?case
  proof (cases "f x")
    case True
    then show ?thesis using Cons.prems by (auto simp: filter_skip.simps)
  next
    case False
    obtain s1 where s1: "rd_next rd s (Some x) = Some (True, Some y, s1)" "inv s1"
      "contents s1 = contents s" "rest s1 = Some ys"
      using Cons.prems next_item by blast
    have "filter_skip rd f (True, Some x, s) = filter_skip rd f (True, Some y, s1)"
      using False s1(1) by (subst filter_skip.simps) simp
    moreover have "filter f (x # y # ys) = filter f (y # ys)" using False by simp
    ultimately show ?thesis using Cons.IH[OF s1(2,4), of y] by (simp only: s1(3))
  qed
qed

end

sublocale filtered_range \<subseteq> filtered: range_contract
  "filter_range_data rd f" inv "\<lambda>s. filter f (contents s)" "\<lambda>s. map_option (filter f) (rest s)"
proof
  fix s v
  assume s: "inv s" and e: "filter f (contents s) = []"
  show "\<exists>w s'. rd_init (filter_range_data rd f) s v = Some (False, w, s') \<and> inv s' \<and>
      filter f (contents s') = filter f (contents s)"
  proof (cases "contents s")
    case Nil
    then show ?thesis using init_empty[OF s, of v] e
      by (auto simp: filter_range_data_def filter_skip.simps)
  next
    case (Cons x xs)
    then obtain s1 where s1: "rd_init rd s v = Some (True, Some x, s1)" "inv s1"
      "contents s1 = contents s" "rest s1 = Some xs"
      using init_item s by blast
    then show ?thesis using skip[OF s1(2,4), of x] e Cons
      by (auto simp: filter_range_data_def split: if_splits)
  qed
next
  fix s v x xs
  assume s: "inv s" and e: "filter f (contents s) = x # xs"
  then obtain y ys where c: "contents s = y # ys" by (cases "contents s") auto
  then obtain s1 where s1: "rd_init rd s v = Some (True, Some y, s1)" "inv s1"
      "contents s1 = contents s" "rest s1 = Some ys"
    using init_item s by blast
  then show "\<exists>s'. rd_init (filter_range_data rd f) s v = Some (True, Some x, s') \<and> inv s' \<and>
      filter f (contents s') = filter f (contents s) \<and> map_option (filter f) (rest s') = Some xs"
    using skip[OF s1(2,4), of y] e c by (auto simp: filter_range_data_def)
next
  fix s v
  assume s: "inv s" and e: "map_option (filter f) (rest s) = Some []"
  then obtain ys where r: "rest s = Some ys" "filter f ys = []" by auto
  show "\<exists>w s'. rd_next (filter_range_data rd f) s v = Some (False, w, s') \<and> inv s' \<and>
      filter f (contents s') = filter f (contents s)"
  proof (cases ys)
    case Nil
    then show ?thesis using next_end[OF s, of v] r
      by (auto simp: filter_range_data_def filter_skip.simps)
  next
    case (Cons z zs)
    then obtain s1 where s1: "rd_next rd s v = Some (True, Some z, s1)" "inv s1"
      "contents s1 = contents s" "rest s1 = Some zs"
      using next_item s r by blast
    then show ?thesis using skip[OF s1(2,4), of z] r Cons
      by (auto simp: filter_range_data_def split: if_splits)
  qed
next
  fix s v x xs
  assume s: "inv s" and e: "map_option (filter f) (rest s) = Some (x # xs)"
  then obtain y ys where c: "rest s = Some (y # ys)" "filter f (y # ys) = x # xs"
    by (metis filter.simps(1) list.exhaust map_option_eq_Some list.distinct(1))
  then obtain s1 where s1: "rd_next rd s v = Some (True, Some y, s1)" "inv s1"
      "contents s1 = contents s" "rest s1 = Some ys"
    using next_item s by blast
  then show "\<exists>s'. rd_next (filter_range_data rd f) s v = Some (True, Some x, s') \<and> inv s' \<and>
      filter f (contents s') = filter f (contents s) \<and> map_option (filter f) (rest s') = Some xs"
    using skip[OF s1(2,4), of y] c by (auto simp: filter_range_data_def)
qed

section \<open>Forward ranges\<close>

text \<open>
  The container is a sequence; the iterator is an index, equal to the length at \<open>end()\<close>.
  Incrementing the end iterator is undefined.
\<close>

record 'v forward_state =
  fwd_container :: "'v list"
  fwd_iterator :: nat

definition forward_init ::
  "'v forward_state \<Rightarrow> 'v option \<Rightarrow> (bool \<times> 'v option \<times> 'v forward_state) option" where
  "forward_init s value =
     (let s' = s\<lparr>fwd_iterator := 0\<rparr>
      in if fwd_iterator s' \<noteq> length (fwd_container s')
         then Some (True, Some (fwd_container s' ! fwd_iterator s'), s')
         else Some (False, value, s'))"

definition forward_next ::
  "'v forward_state \<Rightarrow> 'v option \<Rightarrow> (bool \<times> 'v option \<times> 'v forward_state) option" where
  "forward_next s value =
     (if length (fwd_container s) \<le> fwd_iterator s then None
      else let s' = s\<lparr>fwd_iterator := fwd_iterator s + 1\<rparr>
           in if fwd_iterator s' \<noteq> length (fwd_container s')
              then Some (True, Some (fwd_container s' ! fwd_iterator s'), s')
              else Some (False, value, s'))"

definition forward_range_data :: "('v forward_state, 'v) range_data" where
  "forward_range_data = \<lparr>rd_init = forward_init, rd_next = forward_next\<rparr>"

definition forward_range :: "'v list \<Rightarrow> ('v forward_state, 'v) range \<times> 'v forward_state" where
  "forward_range container = (Some forward_range_data, \<lparr>fwd_container = container, fwd_iterator = 0\<rparr>)"

definition forward_rest :: "'v forward_state \<Rightarrow> 'v list option" where
  "forward_rest s = (if fwd_iterator s < length (fwd_container s)
     then Some (drop (Suc (fwd_iterator s)) (fwd_container s)) else None)"

interpretation fwd: range_contract forward_range_data "\<lambda>s. True" fwd_container forward_rest
proof
  fix s :: "'v forward_state" and v :: "'v option" and x :: 'v and xs
  assume "forward_rest s = Some (x # xs)"
  then have "Suc (fwd_iterator s) < length (fwd_container s)"
      "fwd_container s ! Suc (fwd_iterator s) = x" "drop (Suc (Suc (fwd_iterator s))) (fwd_container s) = xs"
    by (auto simp: forward_rest_def split: if_splits)
      (metis drop_eq_Nil list.distinct(1) not_less, metis hd_drop_conv_nth drop_eq_Nil list.distinct(1) list.sel(1) not_less,
        metis drop_Suc drop_drop list.sel(3) plus_1_eq_Suc tl_drop)
  then show "\<exists>s'. rd_next forward_range_data s v = Some (True, Some x, s') \<and> True \<and>
      fwd_container s' = fwd_container s \<and> forward_rest s' = Some xs"
    by (auto simp: forward_range_data_def forward_next_def forward_rest_def)
qed (auto simp: forward_range_data_def forward_init_def forward_next_def forward_rest_def split: if_splits)

interpretation fwd_filter: filtered_range forward_range_data "\<lambda>s. True" fwd_container forward_rest f for f
  by unfold_locales

end
