(* ===== verification/Containers.thy ===== *)
theory Containers
  imports Ranges
begin

text \<open>
  The ordered containers of the standard library that the program uses, as sorted lists:
  \<open>std::multimap\<close> (equivalent keys in insertion order) and \<open>std::set\<close>, both over the
  comparison the code gives them. The standard asks that the comparison be a strict weak
  order on the keys in use: this is the locale \<open>weak_order\<close> of the prelude, in which the
  container lemmas are proved. The sorted range of \<open>src/range/SortedRange.hpp\<close> iterates over a multimap.
\<close>

section \<open>std::multimap\<close>

type_synonym ('k, 'v) multimap = "('k \<times> 'v) list"

definition mm_insert :: "('k \<Rightarrow> 'k \<Rightarrow> bool) \<Rightarrow> 'k \<Rightarrow> 'v \<Rightarrow> ('k, 'v) multimap \<Rightarrow> ('k, 'v) multimap" where
  "mm_insert lt k v m =
     takeWhile (\<lambda>e. \<not> lt k (fst e)) m @ (k, v) # dropWhile (\<lambda>e. \<not> lt k (fst e)) m"

definition mm_lower_bound :: "('k \<Rightarrow> 'k \<Rightarrow> bool) \<Rightarrow> ('k, 'v) multimap \<Rightarrow> 'k \<Rightarrow> nat" where
  "mm_lower_bound lt m k = length (takeWhile (\<lambda>e. lt (fst e) k) m)"

definition mm_upper_bound :: "('k \<Rightarrow> 'k \<Rightarrow> bool) \<Rightarrow> ('k, 'v) multimap \<Rightarrow> 'k \<Rightarrow> nat" where
  "mm_upper_bound lt m k = length (takeWhile (\<lambda>e. \<not> lt k (fst e)) m)"

definition mm_sorted :: "('k \<Rightarrow> 'k \<Rightarrow> bool) \<Rightarrow> ('k, 'v) multimap \<Rightarrow> bool" where
  "mm_sorted lt m = sorted_wrt (\<lambda>a b. \<not> lt (fst b) (fst a)) m"

definition mm_ok :: "('k \<Rightarrow> bool) \<Rightarrow> ('k, 'v) multimap \<Rightarrow> bool" where
  "mm_ok ok m = (\<forall>e \<in> set m. ok (fst e))"

text \<open>The multimap after inserting the elements of a list, from left to right, into an empty one.\<close>

definition mm_of :: "('k \<Rightarrow> 'k \<Rightarrow> bool) \<Rightarrow> ('v \<Rightarrow> 'k) \<Rightarrow> 'v list \<Rightarrow> ('k, 'v) multimap" where
  "mm_of lt key xs = foldl (\<lambda>m v. mm_insert lt (key v) v m) [] xs"

lemma mset_mm_insert: "mset (mm_insert lt k v m) = add_mset (k, v) (mset m)"
  by (simp add: mm_insert_def) (metis mset_append takeWhile_dropWhile_id)

lemma set_mm_insert: "set (mm_insert lt k v m) = insert (k, v) (set m)"
  using mset_mm_insert[of lt k v m] by (metis set_mset_add_mset_insert set_mset_mset)

lemma mm_of_snoc: "mm_of lt key (xs @ [v]) = mm_insert lt (key v) v (mm_of lt key xs)"
  by (simp add: mm_of_def)

lemma mset_mm_of: "mset (mm_of lt key xs) = mset (map (\<lambda>v. (key v, v)) xs)"
  by (induction xs rule: rev_induct) (simp_all add: mm_of_snoc mset_mm_insert, simp add: mm_of_def)

lemma set_mm_of: "set (mm_of lt key xs) = (\<lambda>v. (key v, v)) ` set xs"
  using mset_mm_of[of lt key xs] by (metis image_set set_mset_mset)

context weak_order
begin

lemma upper_part:
  assumes "mm_sorted lt m" "mm_ok ok m" "ok k" "e \<in> set (dropWhile (\<lambda>e. \<not> lt k (fst e)) m)"
  shows "lt k (fst e)" and "ok (fst e)"
proof -
  let ?P = "\<lambda>e. \<not> lt k (fst e)"
  obtain d ds where d: "dropWhile ?P m = d # ds" using assms(4) by (cases "dropWhile ?P m") auto
  then have kd: "lt k (fst d)" using hd_dropWhile[of ?P m] by simp
  have "sorted_wrt (\<lambda>a b. \<not> lt (fst b) (fst a)) (d # ds)"
    using sorted_wrt_dropWhile[of "\<lambda>a b. \<not> lt (fst b) (fst a)" m ?P] assms(1)
    unfolding d mm_sorted_def by simp
  then have "e = d \<or> \<not> lt (fst e) (fst d)" using assms(4) d by auto
  moreover have okd: "ok (fst x)" if "x \<in> set (dropWhile ?P m)" for x
    using that assms(2) set_dropWhileD unfolding mm_ok_def by metis
  moreover have "ok (fst d)" using okd[of d] d by simp
  ultimately show "lt k (fst e)"
    using kd neg_trans[OF assms(3) okd[OF assms(4)]] by blast
  show "ok (fst e)" by (rule okd[OF assms(4)])
qed

lemma mm_sorted_insert:
  assumes "mm_sorted lt m" "mm_ok ok m" "ok k"
  shows "mm_sorted lt (mm_insert lt k v m)" and "mm_ok ok (mm_insert lt k v m)"
proof -
  let ?P = "\<lambda>e. \<not> lt k (fst e)"
  have left: "\<forall>e \<in> set (takeWhile ?P m). \<not> lt k (fst e)"
    using set_takeWhileD by fastforce
  have s: "sorted_wrt (\<lambda>a b. \<not> lt (fst b) (fst a)) (takeWhile ?P m @ dropWhile ?P m)"
    using assms(1) by (simp add: mm_sorted_def)
  have "\<forall>e \<in> set (dropWhile ?P m). \<not> lt (fst e) k"
    using upper_part[OF assms] asym[OF assms(3)] by blast
  then show "mm_sorted lt (mm_insert lt k v m)"
    using s[unfolded sorted_wrt_append] left by (simp add: mm_sorted_def mm_insert_def sorted_wrt_append)
  show "mm_ok ok (mm_insert lt k v m)"
    using assms by (auto simp: mm_ok_def set_mm_insert)
qed

lemma mm_sorted_of:
  "\<forall>v \<in> set xs. ok (key v) \<Longrightarrow> mm_sorted lt (mm_of lt key xs) \<and> mm_ok ok (mm_of lt key xs)"
proof (induction xs rule: rev_induct)
  case Nil
  then show ?case by (simp add: mm_of_def mm_sorted_def mm_ok_def)
next
  case (snoc v xs)
  then have "mm_sorted lt (mm_of lt key xs)" "mm_ok ok (mm_of lt key xs)" "ok (key v)" by auto
  then show ?case by (simp add: mm_of_snoc mm_sorted_insert)
qed

text \<open>A new element stands after every element with an equivalent key: insertion is stable.\<close>

lemma mm_insert_stable:
  assumes "mm_sorted lt m" "mm_ok ok m" "ok k" "ok q"
  shows "filter (\<lambda>e. \<not> lt (fst e) q \<and> \<not> lt q (fst e)) (mm_insert lt k v m) =
    filter (\<lambda>e. \<not> lt (fst e) q \<and> \<not> lt q (fst e)) m @
      (if lt k q \<or> lt q k then [] else [(k, v)])"
proof (cases "lt k q \<or> lt q k")
  case True
  then show ?thesis
    by (auto simp: mm_insert_def filter_takeWhile_dropWhile)
next
  case False
  let ?P = "\<lambda>e. \<not> lt k (fst e)" and ?Q = "\<lambda>e. \<not> lt (fst e) q \<and> \<not> lt q (fst e)"
  have "\<not> ?Q e" if "e \<in> set (dropWhile ?P m)" for e
    using False neg_trans[OF assms(3,4) upper_part(2,1)[OF assms(1-3) that]] by blast
  then have "filter ?Q (dropWhile ?P m) = []" by (simp add: filter_empty_conv)
  then show ?thesis
    using False filter_takeWhile_dropWhile[of ?Q ?P m] by (simp add: mm_insert_def)
qed

lemma mm_of_stable:
  assumes "\<forall>v \<in> set xs. ok (key v)" "ok q"
  shows "map snd (filter (\<lambda>e. \<not> lt (fst e) q \<and> \<not> lt q (fst e)) (mm_of lt key xs)) =
    filter (\<lambda>v. \<not> lt (key v) q \<and> \<not> lt q (key v)) xs"
  using assms(1)
proof (induction xs rule: rev_induct)
  case Nil
  then show ?case by (simp add: mm_of_def)
next
  case (snoc v xs)
  then have "mm_sorted lt (mm_of lt key xs)" "mm_ok ok (mm_of lt key xs)" "ok (key v)"
    using mm_sorted_of by auto
  then show ?case using snoc assms(2) by (simp add: mm_of_snoc mm_insert_stable)
qed

text \<open>A sorted map splits at a key into its filtered halves.\<close>

lemma mm_split:
  assumes "mm_sorted lt m" "mm_ok ok m" "ok k"
  shows "takeWhile (\<lambda>e. \<not> lt k (fst e)) m = filter (\<lambda>e. \<not> lt k (fst e)) m"
    and "dropWhile (\<lambda>e. \<not> lt k (fst e)) m = filter (\<lambda>e. lt k (fst e)) m"
    and "takeWhile (\<lambda>e. lt (fst e) k) m = filter (\<lambda>e. lt (fst e) k) m"
    and "dropWhile (\<lambda>e. lt (fst e) k) m = filter (\<lambda>e. \<not> lt (fst e) k) m"
proof -
  have "sorted_wrt (\<lambda>x y. \<not> lt k (fst y) \<longrightarrow> \<not> lt k (fst x)) m"
    using assms(1) unfolding mm_sorted_def
    by (rule sorted_wrt_mono_rel[rotated]) (metis assms(2,3) mm_ok_def neg_trans)
  then show "takeWhile (\<lambda>e. \<not> lt k (fst e)) m = filter (\<lambda>e. \<not> lt k (fst e)) m"
    "dropWhile (\<lambda>e. \<not> lt k (fst e)) m = filter (\<lambda>e. lt k (fst e)) m"
    by (simp_all add: takeWhile_eq_filter_mono dropWhile_eq_filter_mono)
  have "sorted_wrt (\<lambda>x y. lt (fst y) k \<longrightarrow> lt (fst x) k) m"
    using assms(1) unfolding mm_sorted_def
    by (rule sorted_wrt_mono_rel[rotated]) (metis assms(2,3) mm_ok_def neg_trans)
  then show "takeWhile (\<lambda>e. lt (fst e) k) m = filter (\<lambda>e. lt (fst e) k) m"
    "dropWhile (\<lambda>e. lt (fst e) k) m = filter (\<lambda>e. \<not> lt (fst e) k) m"
    by (simp_all add: takeWhile_eq_filter_mono dropWhile_eq_filter_mono)
qed

lemma mm_insert_filter:
  assumes "mm_sorted lt m" "mm_ok ok m" "ok k"
  shows "mm_insert lt k v m =
    filter (\<lambda>e. \<not> lt k (fst e)) m @ (k, v) # filter (\<lambda>e. lt k (fst e)) m"
  by (simp add: mm_insert_def mm_split[OF assms])

lemma filter_mm_insert:
  assumes "mm_sorted lt m" "mm_ok ok m" "ok k"
  shows "filter (\<lambda>e. P (fst e)) (mm_insert lt k v m) =
    (if P k then mm_insert lt k v (filter (\<lambda>e. P (fst e)) m) else filter (\<lambda>e. P (fst e)) m)"
proof -
  let ?F = "filter (\<lambda>e. P (fst e)) m"
  have F: "mm_sorted lt ?F" "mm_ok ok ?F"
    using assms by (simp_all add: mm_sorted_def mm_ok_def sorted_wrt_filter)
  have split: "filter (\<lambda>e. \<not> lt k (fst e)) m @ filter (\<lambda>e. lt k (fst e)) m = m"
    using takeWhile_dropWhile_id[of "\<lambda>e. \<not> lt k (fst e)" m] by (simp add: mm_split[OF assms])
  have e: "filter (\<lambda>e. P (fst e)) (filter Q m) = filter Q ?F" for Q
    by (simp add: conj_commute)
  show ?thesis
  proof (cases "P k")
    case True
    then show ?thesis
      by (simp add: mm_insert_filter[OF assms] mm_insert_filter[OF F assms(3)] e del: filter_filter)
  next
    case False
    have "?F = filter (\<lambda>e. P (fst e)) (filter (\<lambda>e. \<not> lt k (fst e)) m @ filter (\<lambda>e. lt k (fst e)) m)"
      by (simp only: split)
    then show ?thesis
      using False by (simp add: mm_insert_filter[OF assms] del: filter_filter)
  qed
qed

text \<open>Selecting by key commutes with building the map.\<close>

lemma filter_mm_of:
  assumes "\<forall>v \<in> set xs. ok (key v)"
  shows "filter (\<lambda>e. P (fst e)) (mm_of lt key xs) = mm_of lt key (filter (\<lambda>v. P (key v)) xs)"
  using assms
proof (induction xs rule: rev_induct)
  case Nil
  then show ?case by (simp add: mm_of_def)
next
  case (snoc v xs)
  then have "mm_sorted lt (mm_of lt key xs)" "mm_ok ok (mm_of lt key xs)" "ok (key v)"
    using mm_sorted_of by auto
  then show ?case using snoc by (simp add: mm_of_snoc filter_mm_insert)
qed

text \<open>The last entry of the map is the last of the elements whose key is greatest.\<close>

lemma last_mm_insert:
  assumes "mm_sorted lt m" "mm_ok ok m" "ok k" "m \<noteq> []"
  shows "last (mm_insert lt k v m) = (if lt k (fst (last m)) then last m else (k, v))"
proof -
  obtain n x where m: "m = n @ [x]" using assms(4) by (cases m rule: rev_cases) auto
  have "\<not> lt k (fst e)" if "e \<in> set n" "\<not> lt k (fst x)" for e
    using that assms(1-3) neg_trans[of k "fst x" "fst e"]
    by (auto simp: m mm_sorted_def mm_ok_def sorted_wrt_append)
  then have "filter (\<lambda>e. lt k (fst e)) n = []" if "\<not> lt k (fst x)"
    using that by (auto simp: filter_empty_conv)
  then show ?thesis unfolding mm_insert_filter[OF assms(1-3)] by (simp add: m)
qed

end

section \<open>std::set\<close>

text \<open>Elements are equivalent when neither is less; an insertion keeps the element already there.\<close>

definition equiv_by :: "('k \<Rightarrow> 'k \<Rightarrow> bool) \<Rightarrow> 'k \<Rightarrow> 'k \<Rightarrow> bool" where
  "equiv_by lt a b = (\<not> lt a b \<and> \<not> lt b a)"

fun set_insert :: "('k \<Rightarrow> 'k \<Rightarrow> bool) \<Rightarrow> 'k \<Rightarrow> 'k list \<Rightarrow> 'k list" where
  "set_insert lt x [] = [x]"
| "set_insert lt x (y # ys) =
     (if lt x y then x # y # ys
      else if lt y x then y # set_insert lt x ys
      else y # ys)"

fun set_find :: "('k \<Rightarrow> 'k \<Rightarrow> bool) \<Rightarrow> 'k \<Rightarrow> 'k list \<Rightarrow> 'k option" where
  "set_find lt x [] = None"
| "set_find lt x (y # ys) = (if equiv_by lt x y then Some y else set_find lt x ys)"

text \<open>Erasing the element that \<open>find\<close> gave.\<close>

fun set_erase :: "('k \<Rightarrow> 'k \<Rightarrow> bool) \<Rightarrow> 'k \<Rightarrow> 'k list \<Rightarrow> 'k list" where
  "set_erase lt x [] = []"
| "set_erase lt x (y # ys) = (if equiv_by lt x y then ys else y # set_erase lt x ys)"

definition set_sorted :: "('k \<Rightarrow> 'k \<Rightarrow> bool) \<Rightarrow> 'k list \<Rightarrow> bool" where
  "set_sorted lt xs = sorted_wrt lt xs"

section \<open>Sorted ranges\<close>

text \<open>
  \<open>SortedRangeData\<close>: the bounds are meaningful when \<open>sr_bounded\<close>; in the unbounded case
  \<open>sr_begin\<close> and \<open>sr_end\<close> hold whatever the default constructor of the key leaves there, and
  \<open>iterate\<close> compares with \<open>sr_begin\<close> in both cases.
\<close>

record ('k, 'v) sorted_state =
  sr_container :: "('k, 'v) multimap"
  sr_iterator :: nat
  sr_bounded :: bool
  sr_begin :: 'k
  sr_end :: 'k

definition sorted_iterate ::
  "('k \<Rightarrow> 'k \<Rightarrow> bool) \<Rightarrow> ('k \<Rightarrow> 'k \<Rightarrow> bool) \<Rightarrow> ('k, 'v) sorted_state \<Rightarrow> 'v option \<Rightarrow> bool \<Rightarrow>
   (bool \<times> 'v option \<times> ('k, 'v) sorted_state) option" where
  "sorted_iterate lt le s value check_begin =
     (let i = sr_iterator s; m = sr_container s
      in if i \<noteq> length m \<and> (\<not> sr_bounded s \<or> le (fst (m ! i)) (sr_end s))
         then (if check_begin \<and> lt (fst (m ! i)) (sr_begin s) then Some (False, value, s)
               else Some (True, Some (snd (m ! i)), s))
         else Some (False, value, s))"

definition sorted_init where
  "sorted_init lt le s value =
     (let s' = s\<lparr>sr_iterator := (if sr_bounded s then mm_upper_bound lt (sr_container s) (sr_begin s) else 0)\<rparr>
      in sorted_iterate lt le s' value False)"

definition sorted_next where
  "sorted_next lt le s value =
     (if length (sr_container s) \<le> sr_iterator s then None
      else sorted_iterate lt le (s\<lparr>sr_iterator := sr_iterator s + 1\<rparr>) value True)"

definition sorted_range_data ::
  "('k \<Rightarrow> 'k \<Rightarrow> bool) \<Rightarrow> ('k \<Rightarrow> 'k \<Rightarrow> bool) \<Rightarrow> (('k, 'v) sorted_state, 'v) range_data" where
  "sorted_range_data lt le = \<lparr>rd_init = sorted_init lt le, rd_next = sorted_next lt le\<rparr>"

text \<open>The three constructors of \<open>SortedRange\<close>: all, one target, and two bounds.\<close>

definition sorted_range_all :: "'k \<Rightarrow> ('k, 'v) multimap \<Rightarrow> ('k, 'v) sorted_state" where
  "sorted_range_all default_key m =
     \<lparr>sr_container = m, sr_iterator = 0, sr_bounded = False, sr_begin = default_key, sr_end = default_key\<rparr>"

definition sorted_range_between :: "('k, 'v) multimap \<Rightarrow> 'k \<Rightarrow> 'k \<Rightarrow> ('k, 'v) sorted_state" where
  "sorted_range_between m b e =
     \<lparr>sr_container = m, sr_iterator = 0, sr_bounded = True, sr_begin = b, sr_end = e\<rparr>"

definition sorted_range_target :: "('k, 'v) multimap \<Rightarrow> 'k \<Rightarrow> ('k, 'v) sorted_state" where
  "sorted_range_target m target = sorted_range_between m target target"

subsection \<open>What a sorted range visits\<close>

definition sr_accept where
  "sr_accept le s e = (\<not> sr_bounded s \<or> le (fst e) (sr_end s))"

definition sorted_after where
  "sorted_after lt le s i =
     takeWhile (\<lambda>e. sr_accept le s e \<and> \<not> lt (fst e) (sr_begin s)) (drop i (sr_container s))"

definition sorted_entries where
  "sorted_entries lt le s =
     (let i = (if sr_bounded s then mm_upper_bound lt (sr_container s) (sr_begin s) else 0)
      in case drop i (sr_container s) of
           [] \<Rightarrow> []
         | e # es \<Rightarrow> if sr_accept le s e then e # sorted_after lt le s (Suc i) else [])"

definition sorted_contents where
  "sorted_contents lt le s = map snd (sorted_entries lt le s)"

definition sorted_rest where
  "sorted_rest lt le s =
     (if sr_iterator s < length (sr_container s)
      then Some (map snd (sorted_after lt le s (Suc (sr_iterator s)))) else None)"

lemma sorted_iterator_update [simp]:
  "sr_accept le (s\<lparr>sr_iterator := i\<rparr>) = sr_accept le s"
  "sorted_after lt le (s\<lparr>sr_iterator := i\<rparr>) = sorted_after lt le s"
  by (simp_all add: fun_eq_iff sr_accept_def sorted_after_def)

lemma sorted_contents_update [simp]:
  "sorted_contents lt le (s\<lparr>sr_iterator := i\<rparr>) = sorted_contents lt le s"
  by (simp add: sorted_contents_def sorted_entries_def Let_def split: list.split)

lemma sorted_after_Cons:
  "sorted_after lt le s i = e # es \<Longrightarrow>
     i < length (sr_container s) \<and> e = sr_container s ! i \<and> sr_accept le s e \<and>
     \<not> lt (fst e) (sr_begin s) \<and> es = sorted_after lt le s (Suc i)"
  by (cases "i < length (sr_container s)")
    (auto simp: sorted_after_def nth_drop_Cons split: if_splits)

lemma sorted_after_Nil:
  "sorted_after lt le s i = [] \<Longrightarrow> i < length (sr_container s) \<Longrightarrow>
     \<not> sr_accept le s (sr_container s ! i) \<or> lt (fst (sr_container s ! i)) (sr_begin s)"
  by (auto simp: sorted_after_def nth_drop_Cons split: if_splits)

interpretation srt: range_contract "sorted_range_data lt le" "\<lambda>s. True"
  "sorted_contents lt le" "sorted_rest lt le" for lt le :: "'k \<Rightarrow> 'k \<Rightarrow> bool"
proof
  fix s :: "('k, 'v) sorted_state" and v :: "'v option"
  define i where "i = (if sr_bounded s then mm_upper_bound lt (sr_container s) (sr_begin s) else 0)"
  have i: "i \<le> length (sr_container s)"
    by (simp add: i_def mm_upper_bound_def length_takeWhile_le)
  have unf: "rd_init (sorted_range_data lt le) s v = sorted_iterate lt le (s\<lparr>sr_iterator := i\<rparr>) v False"
    by (simp add: sorted_range_data_def sorted_init_def i_def)
  have ent: "sorted_entries lt le s = (case drop i (sr_container s) of [] \<Rightarrow> []
      | e # es \<Rightarrow> if sr_accept le s e then e # sorted_after lt le s (Suc i) else [])"
    unfolding sorted_entries_def i_def[symmetric] by simp
  {
    assume "sorted_contents lt le s = []"
    then have "i = length (sr_container s) \<or> \<not> sr_accept le s (sr_container s ! i)"
      using i by (auto simp: sorted_contents_def ent nth_drop_Cons split: if_splits list.splits)
    then show "\<exists>w s'. rd_init (sorted_range_data lt le) s v = Some (False, w, s') \<and> True \<and>
        sorted_contents lt le s' = sorted_contents lt le s"
      by (auto simp: unf sorted_iterate_def sr_accept_def Let_def)
  next
    fix x xs
    assume "sorted_contents lt le s = x # xs"
    then have "i < length (sr_container s)" "sr_accept le s (sr_container s ! i)"
        "x = snd (sr_container s ! i)" "xs = map snd (sorted_after lt le s (Suc i))"
      using i by (cases "i < length (sr_container s)";
          auto simp: sorted_contents_def ent nth_drop_Cons split: if_splits)+
    then show "\<exists>s'. rd_init (sorted_range_data lt le) s v = Some (True, Some x, s') \<and> True \<and>
        sorted_contents lt le s' = sorted_contents lt le s \<and> sorted_rest lt le s' = Some xs"
      by (auto simp: unf sorted_iterate_def sr_accept_def sorted_rest_def sorted_after_def Let_def)
  }
next
  fix s :: "('k, 'v) sorted_state" and v :: "'v option"
  {
    assume "sorted_rest lt le s = Some []"
    then have "sr_iterator s < length (sr_container s)" "sorted_after lt le s (Suc (sr_iterator s)) = []"
      by (auto simp: sorted_rest_def split: if_splits)
    then show "\<exists>w s'. rd_next (sorted_range_data lt le) s v = Some (False, w, s') \<and> True \<and>
        sorted_contents lt le s' = sorted_contents lt le s"
      using sorted_after_Nil[of lt le s "Suc (sr_iterator s)"]
      by (auto simp: sorted_range_data_def sorted_next_def sorted_iterate_def sr_accept_def Let_def)
  next
    fix x xs
    assume "sorted_rest lt le s = Some (x # xs)"
    then obtain e es where "sr_iterator s < length (sr_container s)"
        "sorted_after lt le s (Suc (sr_iterator s)) = e # es" "x = snd e" "xs = map snd es"
      by (auto simp: sorted_rest_def split: if_splits)
    then show "\<exists>s'. rd_next (sorted_range_data lt le) s v = Some (True, Some x, s') \<and> True \<and>
        sorted_contents lt le s' = sorted_contents lt le s \<and> sorted_rest lt le s' = Some xs"
      using sorted_after_Cons[of lt le s "Suc (sr_iterator s)" e es]
      by (auto simp: sorted_range_data_def sorted_next_def sorted_iterate_def sr_accept_def
          sorted_rest_def sorted_after_def Let_def)
  }
qed

subsection \<open>The half-open interval of a bounded range\<close>

lemma sorted_between_unfold:
  "sorted_entries lt le (sorted_range_between m b e) =
     (case dropWhile (\<lambda>x. \<not> lt b (fst x)) m of
        [] \<Rightarrow> []
      | x # xs \<Rightarrow> if le (fst x) e then x # takeWhile (\<lambda>y. le (fst y) e \<and> \<not> lt (fst y) b) xs else [])"
proof -
  have d: "drop (mm_upper_bound lt m b) m = dropWhile (\<lambda>x. \<not> lt b (fst x)) m"
    by (simp add: mm_upper_bound_def takeWhile_append_drop)
  have "drop (Suc (mm_upper_bound lt m b)) m = tl (dropWhile (\<lambda>x. \<not> lt b (fst x)) m)"
    by (metis d drop_Suc tl_drop)
  then show ?thesis
    by (simp add: sorted_entries_def sorted_range_between_def sr_accept_def sorted_after_def d
        split: list.split del: dropWhile_eq_Nil_conv)
qed

context weak_order
begin

lemma sorted_between_entries:
  assumes "mm_sorted lt m" "mm_ok ok m" "ok b" "ok e"
    and le: "\<And>x y. ok x \<Longrightarrow> ok y \<Longrightarrow> le x y \<longleftrightarrow> \<not> lt y x"
  shows "sorted_entries lt le (sorted_range_between m b e) =
    filter (\<lambda>x. lt b (fst x) \<and> le (fst x) e) m"
proof -
  let ?D = "dropWhile (\<lambda>x. \<not> lt b (fst x)) m"
  note up = upper_part[OF assms(1-3)]
  have s: "sorted_wrt (\<lambda>x y. \<not> lt (fst y) (fst x)) ?D"
    using assms(1) by (simp add: mm_sorted_def sorted_wrt_dropWhile)
  have mono: "sorted_wrt (\<lambda>x y. le (fst y) e \<longrightarrow> le (fst x) e) ?D"
    by (rule sorted_wrt_mono_rel[OF _ s]) (metis assms(4) le neg_trans up(2))
  have "sorted_entries lt le (sorted_range_between m b e) = takeWhile (\<lambda>x. le (fst x) e) ?D"
  proof (cases ?D)
    case Nil
    then show ?thesis by (simp add: sorted_between_unfold del: dropWhile_eq_Nil_conv)
  next
    case (Cons x xs)
    then have "\<not> lt (fst y) b" if "y \<in> set xs" for y
      using up[of y] asym[OF assms(3)] that by simp
    then have "takeWhile (\<lambda>y. le (fst y) e \<and> \<not> lt (fst y) b) xs = takeWhile (\<lambda>y. le (fst y) e) xs"
      by (intro takeWhile_cong) auto
    then show ?thesis using Cons by (simp add: sorted_between_unfold)
  qed
  also have "\<dots> = filter (\<lambda>x. le (fst x) e) ?D"
    by (rule takeWhile_eq_filter_mono[OF mono])
  also have "?D = filter (\<lambda>x. lt b (fst x)) m"
  proof -
    have "sorted_wrt (\<lambda>x y. \<not> lt b (fst y) \<longrightarrow> \<not> lt b (fst x)) m"
      using assms(1) unfolding mm_sorted_def
      by (rule sorted_wrt_mono_rel[rotated]) (metis assms(2,3) mm_ok_def neg_trans)
    then show ?thesis by (simp add: dropWhile_eq_filter_mono)
  qed
  finally show ?thesis by (simp add: conj_commute)
qed

lemma sorted_between_contents:
  assumes "mm_sorted lt m" "mm_ok ok m" "ok b" "ok e"
    and le: "\<And>x y. ok x \<Longrightarrow> ok y \<Longrightarrow> le x y \<longleftrightarrow> \<not> lt y x"
  shows "sorted_contents lt le (sorted_range_between m b e) =
    map snd (filter (\<lambda>x. lt b (fst x) \<and> le (fst x) e) m)"
  by (simp only: sorted_contents_def sorted_between_entries[OF assms])

text \<open>A range over one target is the empty interval from the target to itself.\<close>

lemma sorted_target_contents:
  assumes "mm_sorted lt m" "mm_ok ok m" "ok k"
    and le: "\<And>x y. ok x \<Longrightarrow> ok y \<Longrightarrow> le x y \<longleftrightarrow> \<not> lt y x"
  shows "sorted_contents lt le (sorted_range_target m k) = []"
proof -
  have "\<not> (lt k (fst x) \<and> le (fst x) k)" if "x \<in> set m" for x
    using that assms(2,3) le[of "fst x" k] by (auto simp: mm_ok_def)
  then show ?thesis
    by (simp add: sorted_range_target_def sorted_between_contents[OF assms(1,2,3,3) le] filter_empty_conv)
qed

end

text \<open>
  An unbounded range visits the first entry and stops before the first later one whose key
  is less than the default key that the constructor left in \<open>_begin\<close>.
\<close>

lemma sorted_all_contents:
  "sorted_contents lt le (sorted_range_all d m) =
     (case m of [] \<Rightarrow> [] | x # xs \<Rightarrow> snd x # map snd (takeWhile (\<lambda>y. \<not> lt (fst y) d) xs))"
  by (simp add: sorted_contents_def sorted_entries_def sorted_range_all_def sr_accept_def
      sorted_after_def split: list.split)

section \<open>Set operations under a weak order\<close>

context weak_order
begin

lemma set_insert_subset: "set (set_insert lt x s) \<subseteq> insert x (set s)"
  by (induction s) auto

lemma set_insert_keeps: "set s \<subseteq> set (set_insert lt x s)"
  by (induction s) auto

lemma set_sorted_insert:
  assumes "set_sorted lt s" "\<forall>y \<in> set s. ok y" "ok x"
  shows "set_sorted lt (set_insert lt x s)"
  using assms
proof (induction s)
  case (Cons y s)
  then have IH: "set_sorted lt (set_insert lt x s)" by (simp add: set_sorted_def)
  have sub: "set (set_insert lt x s) \<subseteq> insert x (set s)" by (rule set_insert_subset)
  have y: "lt y z" if "z \<in> set s" for z using Cons.prems that by (auto simp: set_sorted_def)
  consider "lt x y" | "\<not> lt x y" "lt y x" | "\<not> lt x y" "\<not> lt y x" by blast
  then show ?case
  proof cases
    case 1
    have "lt x z" if "z \<in> set s" for z
      using trans[of x y z] 1 y[OF that] Cons.prems that by auto
    then show ?thesis using 1 Cons.prems by (auto simp: set_sorted_def)
  next
    case 2
    then have "\<forall>z \<in> set (set_insert lt x s). lt y z" using sub y by auto
    then show ?thesis using 2 IH by (auto simp: set_sorted_def)
  next
    case 3
    then show ?thesis using Cons.prems by simp
  qed
qed (simp add: set_sorted_def)

lemma set_insert_equiv:
  assumes "ok x"
  shows "\<exists>y \<in> set (set_insert lt x s). equiv_by lt x y"
proof (induction s)
  case Nil
  then show ?case using irrefl[OF assms] by (simp add: equiv_by_def)
next
  case (Cons y s)
  then show ?case using irrefl[OF assms] by (auto simp: equiv_by_def)
qed

lemma set_fold_insert:
  assumes "\<forall>x \<in> set xs. ok x"
  defines "s \<equiv> foldl (\<lambda>s x. set_insert lt x s) [] xs"
  shows "set_sorted lt s \<and> set s \<subseteq> set xs \<and> (\<forall>x \<in> set xs. \<exists>y \<in> set s. equiv_by lt x y)"
  using assms(1) unfolding s_def
proof (induction xs rule: rev_induct)
  case (snoc x xs)
  let ?s = "foldl (\<lambda>s x. set_insert lt x s) [] xs"
  have IH: "set_sorted lt ?s" "set ?s \<subseteq> set xs" "\<forall>x \<in> set xs. \<exists>y \<in> set ?s. equiv_by lt x y"
    using snoc by auto
  have "set_sorted lt (set_insert lt x ?s)"
    by (rule set_sorted_insert) (use IH snoc.prems in auto)
  moreover have "set (set_insert lt x ?s) \<subseteq> set (xs @ [x])"
    using set_insert_subset[of x ?s] IH by auto
  moreover have "\<forall>z \<in> set (xs @ [x]). \<exists>y \<in> set (set_insert lt x ?s). equiv_by lt z y"
    using set_insert_equiv[of x ?s] set_insert_keeps[of ?s x] IH snoc.prems by fastforce
  ultimately show ?case by simp
qed (simp add: set_sorted_def)

end

context total_order
begin

lemma set_insert_total:
  assumes "\<forall>y \<in> set s. ok y" "ok x"
  shows "set (set_insert lt x s) = insert x (set s)"
  using assms total by (induction s) auto

lemma set_find_total:
  assumes "\<forall>y \<in> set s. ok y" "ok x"
  shows "set_find lt x s = (if x \<in> set s then Some x else None)"
  using assms total irrefl by (induction s) (auto simp: equiv_by_def)

lemma set_sorted_distinct:
  "set_sorted lt s \<Longrightarrow> \<forall>y \<in> set s. ok y \<Longrightarrow> distinct s"
  using irrefl by (induction s) (auto simp: set_sorted_def)

lemma set_erase_total:
  assumes "set_sorted lt s" "\<forall>y \<in> set s. ok y" "ok x"
  shows "set (set_erase lt x s) = set s - {x}" and "set_sorted lt (set_erase lt x s)"
proof -
  have "set (set_erase lt x s) = set s - {x} \<and> set_sorted lt (set_erase lt x s)"
    using assms
  proof (induction s)
    case (Cons y s)
    have e: "equiv_by lt x y \<longleftrightarrow> x = y"
      using total[of x y] irrefl[of x] Cons.prems by (auto simp: equiv_by_def)
    have "y \<notin> set s" using set_sorted_distinct[OF Cons.prems(1,2)] by simp
    then show ?case using Cons e by (auto simp: set_sorted_def)
  qed (simp add: set_sorted_def)
  then show "set (set_erase lt x s) = set s - {x}" and "set_sorted lt (set_erase lt x s)" by auto
qed

end

section \<open>Properties\<close>

text \<open>
  C13: A loop over a sorted range between two bounds, on a sorted multimap whose comparison is
  a strict weak order, ends and visits the values of the entries past the first bound and up
  to the second one, in the order of the map; the range over one target visits nothing.
\<close>

theorem sorted_range_interval:
  assumes "weak_order lt ok" "mm_sorted lt m" "mm_ok ok m" "ok b" "ok e"
    and "\<And>x y. ok x \<Longrightarrow> ok y \<Longrightarrow> le x y \<longleftrightarrow> \<not> lt y x"
  shows "map_option fst (range_items (Some (sorted_range_data lt le)) (sorted_range_between m b e)) =
      Some (map snd (filter (\<lambda>x. lt b (fst x) \<and> le (fst x) e) m)) \<and>
    map_option fst (range_items (Some (sorted_range_data lt le)) (sorted_range_target m b)) = Some []"
  using srt.items_fst[of lt le "sorted_range_between m b e"] srt.items_fst[of lt le "sorted_range_target m b"]
    weak_order.sorted_between_contents[OF assms] weak_order.sorted_target_contents[OF assms(1-4,6)]
  by simp

theorem sorted_range_interval_witness:
  "map_option fst (range_items (Some (sorted_range_data (<) (\<le>)))
      (sorted_range_between (mm_of (<) id [3 :: int, 1, 2, 2, 4]) 1 3)) =
    Some (map snd (filter (\<lambda>x. 1 < fst x \<and> fst x \<le> 3) (mm_of (<) id [3 :: int, 1, 2, 2, 4]))) \<and>
   map_option fst (range_items (Some (sorted_range_data (<) (\<le>)))
      (sorted_range_target (mm_of (<) id [3 :: int, 1, 2, 2, 4]) 1)) = Some []"
proof -
  have "weak_order ((<) :: int \<Rightarrow> int \<Rightarrow> bool) (\<lambda>_. True)" by unfold_locales auto
  then show ?thesis
    by (rule sorted_range_interval) (auto simp: mm_of_def mm_insert_def mm_sorted_def mm_ok_def)
qed

text \<open>
  A loop over a sorted range without bounds visits the first entry whatever its key is,
  and stops at the first later key that is less than the key that the default constructor
  left in \<open>_begin\<close>.
\<close>

theorem sorted_range_unbounded:
  "map_option fst (range_items (Some (sorted_range_data lt le)) (sorted_range_all default_key m)) =
     Some (case m of [] \<Rightarrow> [] | x # xs \<Rightarrow> snd x # map snd (takeWhile (\<lambda>y. \<not> lt (fst y) default_key) xs))"
  using srt.items_fst[of lt le "sorted_range_all default_key m"]
  by (simp only: sorted_all_contents)

text \<open>
  A loop over a filtered forward range ends and visits the items that the filter accepts,
  in their order, and the range can be looped over again with the same result.
\<close>

theorem filtered_range_items:
  "\<exists>s'. range_items (range_filter forward_range_data f) (snd (forward_range xs)) = Some (filter f xs, s') \<and>
     map_option fst (range_items (range_filter forward_range_data f) s') = Some (filter f xs)"
proof -
  obtain s' where s': "range_items (Some (filter_range_data forward_range_data f)) (snd (forward_range xs)) =
      Some (filter f xs, s')" "filter f (fwd_container s') = filter f xs"
    using fwd_filter.filtered.items[of f "snd (forward_range xs)"] by (auto simp: forward_range_def)
  then show ?thesis
    using fwd_filter.filtered.items_fst[of f s'] by (simp add: range_filter_def)
qed

end
