(* ===== verification/Double.thy ===== *)
theory Double
  imports Containers
begin

text \<open>
  The C++ type \<open>double\<close>, in which the program keeps every price, volume, balance and
  timestamp: IEEE-754 binary64, given by its 64 bits so that the \<open>memcmp\<close> comparisons
  of the models are exact. The arithmetic decodes the operands into integer
  significand and exponent, computes exactly and rounds to nearest, ties to even.
  Every NaN result is the quiet NaN that the macro \<open>NAN\<close> denotes.
  The lemmas relate the integer computations to the rational value of a double: the
  comparison of bit patterns is the comparison of values, rounding is monotone, and
  rounding a value that is a double gives back that double.
\<close>

datatype double = Bits (bits: uint64)

section \<open>Fields and classification\<close>

definition inf_mag :: int where
  "inf_mag = 0x7FF0000000000000"

definition d_mag :: "double \<Rightarrow> int" where
  "d_mag x = uint (bits x) mod 2 ^ 63"

definition d_neg :: "double \<Rightarrow> bool" where
  "d_neg x = (2 ^ 63 \<le> uint (bits x))"

definition isnan :: "double \<Rightarrow> bool" where
  "isnan x = (inf_mag < d_mag x)"

definition isinf :: "double \<Rightarrow> bool" where
  "isinf x = (d_mag x = inf_mag)"

definition isfinite :: "double \<Rightarrow> bool" where
  "isfinite x = (d_mag x < inf_mag)"

definition d_zero :: "double \<Rightarrow> bool" where
  "d_zero x = (d_mag x = 0)"

definition NAN :: double where
  "NAN = Bits 0x7FF8000000000000"

definition d_make :: "bool \<Rightarrow> int \<Rightarrow> double" where
  "d_make s m = Bits (word_of_int (if s then 2 ^ 63 + m else m))"

definition d_inf :: "bool \<Rightarrow> double" where
  "d_inf s = d_make s inf_mag"

text \<open>The significand (with its hidden bit) and the exponent of a magnitude.\<close>

definition mag_exp :: "int \<Rightarrow> int" where
  "mag_exp m = (let E = m div 2 ^ 52 in if E = 0 then -1074 else E - 1075)"

definition mag_sig :: "int \<Rightarrow> int" where
  "mag_sig m = (let E = m div 2 ^ 52; F = m mod 2 ^ 52 in if E = 0 then F else 2 ^ 52 + F)"

definition d_exp :: "double \<Rightarrow> int" where
  "d_exp x = mag_exp (d_mag x)"

definition d_sig :: "double \<Rightarrow> int" where
  "d_sig x = (if d_neg x then - mag_sig (d_mag x) else mag_sig (d_mag x))"

section \<open>Rounding\<close>

function ibits :: "int \<Rightarrow> int" where
  "ibits n = (if n \<le> 0 then 0 else 1 + ibits (n div 2))"
  by pat_completeness auto
termination
  by (relation "measure nat") auto

declare ibits.simps [simp del]

text \<open>The integer nearest to \<open>a / b\<close>, the even one of two equally near.\<close>

definition div_even :: "int \<Rightarrow> int \<Rightarrow> int" where
  "div_even a b = (let q = a div b; r = a mod b
     in if 2 * r < b \<or> (2 * r = b \<and> even q) then q else q + 1)"

text \<open>The fraction \<open>n / d\<close> multiplied by \<open>2 ^ s\<close>, as a fraction of integers.\<close>

definition scaled :: "int \<Rightarrow> int \<Rightarrow> int \<Rightarrow> int \<times> int" where
  "scaled n d s = (if 0 \<le> s then (n * 2 ^ nat s, d) else (n, d * 2 ^ nat (- s)))"

definition flog :: "int \<Rightarrow> int \<Rightarrow> int" where
  "flog n d = (let t = ibits n - ibits d; (n', d') = scaled n d (- t)
     in if d' \<le> n' then t else t - 1)"

text \<open>The magnitude nearest to \<open>n / d * 2 ^ e\<close>; overflow gives infinity.\<close>

definition round_mag :: "int \<Rightarrow> int \<Rightarrow> int \<Rightarrow> int" where
  "round_mag n d e = (if n = 0 then 0 else
     (let x = max (-1074) (flog n d + e - 52); (n', d') = scaled n d (e - x)
      in min inf_mag ((x + 1074) * 2 ^ 52 + div_even n' d')))"

definition d_round :: "bool \<Rightarrow> int \<Rightarrow> int \<Rightarrow> int \<Rightarrow> double" where
  "d_round s n d e = d_make s (round_mag n d e)"

section \<open>Arithmetic and comparison\<close>

text \<open>The integer key of a double that is not a NaN: its magnitude with its sign.\<close>

definition d_key :: "double \<Rightarrow> int" where
  "d_key x = (if d_neg x then - d_mag x else d_mag x)"

instantiation double :: "{ord, zero, plus, minus, uminus, times, inverse, abs}"
begin

definition zero_double :: double where
  "0 = Bits 0"

definition less_double :: "double \<Rightarrow> double \<Rightarrow> bool" where
  "(x :: double) < y \<longleftrightarrow> \<not> isnan x \<and> \<not> isnan y \<and> d_key x < d_key y"

definition less_eq_double :: "double \<Rightarrow> double \<Rightarrow> bool" where
  "(x :: double) \<le> y \<longleftrightarrow> \<not> isnan x \<and> \<not> isnan y \<and> d_key x \<le> d_key y"

definition uminus_double :: "double \<Rightarrow> double" where
  "- x = Bits (bits x XOR 0x8000000000000000)"

definition abs_double :: "double \<Rightarrow> double" where
  "\<bar>x\<bar> = Bits (bits x AND 0x7FFFFFFFFFFFFFFF)"

definition plus_double :: "double \<Rightarrow> double \<Rightarrow> double" where
  "x + y =
     (if isnan x \<or> isnan y then NAN
      else if isinf x then (if isinf y \<and> d_neg x \<noteq> d_neg y then NAN else x)
      else if isinf y then y
      else let e = min (d_exp x) (d_exp y);
               m = d_sig x * 2 ^ nat (d_exp x - e) + d_sig y * 2 ^ nat (d_exp y - e)
           in d_round (if m = 0 then d_neg x \<and> d_neg y else m < 0) \<bar>m\<bar> 1 e)"

definition minus_double :: "double \<Rightarrow> double \<Rightarrow> double" where
  "(x :: double) - y = x + (- y)"

definition times_double :: "double \<Rightarrow> double \<Rightarrow> double" where
  "x * y =
     (if isnan x \<or> isnan y then NAN
      else if isinf x \<or> isinf y
      then (if d_zero x \<or> d_zero y then NAN else d_inf (d_neg x \<noteq> d_neg y))
      else d_round (d_neg x \<noteq> d_neg y) \<bar>d_sig x * d_sig y\<bar> 1 (d_exp x + d_exp y))"

definition divide_double :: "double \<Rightarrow> double \<Rightarrow> double" where
  "x div y =
     (if isnan x \<or> isnan y then NAN
      else if isinf x then (if isinf y then NAN else d_inf (d_neg x \<noteq> d_neg y))
      else if isinf y then d_make (d_neg x \<noteq> d_neg y) 0
      else if d_zero y then (if d_zero x then NAN else d_inf (d_neg x \<noteq> d_neg y))
      else d_round (d_neg x \<noteq> d_neg y) \<bar>d_sig x\<bar> \<bar>d_sig y\<bar> (d_exp x - d_exp y))"

definition inverse_double :: "double \<Rightarrow> double" where
  "inverse x = Bits 0x3FF0000000000000 div x"

instance ..

end

text \<open>The operators \<open>==\<close> and \<open>!=\<close> of the language, where \<open>NaN != NaN\<close> and \<open>-0 == +0\<close>.\<close>

definition d_eq :: "double \<Rightarrow> double \<Rightarrow> bool" where
  "d_eq x y \<longleftrightarrow> \<not> isnan x \<and> \<not> isnan y \<and> d_key x = d_key y"

definition d_ne :: "double \<Rightarrow> double \<Rightarrow> bool" where
  "d_ne x y \<longleftrightarrow> \<not> d_eq x y"

text \<open>Literals: \<open>lit n\<close> is an integer, \<open>dec n k\<close> the decimal \<open>n / 10 ^ k\<close>.\<close>

definition lit :: "int \<Rightarrow> double" where
  "lit n = d_round (n < 0) \<bar>n\<bar> 1 0"

definition dec :: "int \<Rightarrow> nat \<Rightarrow> double" where
  "dec n k = d_round (n < 0) \<bar>n\<bar> (10 ^ k) 0"

text \<open>Conversion to an integer truncates towards zero; it has no value on NaN and infinity.\<close>

definition d_trunc :: "double \<Rightarrow> int option" where
  "d_trunc x = (if isfinite x
     then Some (let (n, d) = scaled (mag_sig (d_mag x)) 1 (d_exp x); q = n div d
                in if d_neg x then - q else q)
     else None)"

section \<open>Order\<close>

lemma isnan_NAN [simp]: "isnan NAN"
  by (simp add: isnan_def NAN_def d_mag_def inf_mag_def)

lemma d_mag_bounds: "0 \<le> d_mag x" "d_mag x < 2 ^ 63"
  by (simp_all add: d_mag_def)

lemma d_mag_nonneg [simp]: "0 \<le> d_mag x"
  by (simp add: d_mag_def)

lemma nan_not_less [simp]:
  "isnan x \<Longrightarrow> \<not> x < y" "isnan y \<Longrightarrow> \<not> x < y"
  "isnan x \<Longrightarrow> \<not> x \<le> y" "isnan y \<Longrightarrow> \<not> x \<le> y"
  "isnan x \<Longrightarrow> \<not> d_eq x y" "isnan y \<Longrightarrow> \<not> d_eq x y"
  by (simp_all add: less_double_def less_eq_double_def d_eq_def)

lemma less_key [double_simps]: "\<not> isnan x \<Longrightarrow> \<not> isnan y \<Longrightarrow> x < y \<longleftrightarrow> d_key x < d_key y"
  by (simp add: less_double_def)

lemma le_key [double_simps]: "\<not> isnan x \<Longrightarrow> \<not> isnan y \<Longrightarrow> x \<le> y \<longleftrightarrow> d_key x \<le> d_key y"
  by (simp add: less_eq_double_def)

lemma eq_key [double_simps]: "\<not> isnan x \<Longrightarrow> \<not> isnan y \<Longrightarrow> d_eq x y \<longleftrightarrow> d_key x = d_key y"
  by (simp add: d_eq_def)

lemma d_less_irrefl [simp]: "\<not> (x :: double) < x"
  by (simp add: less_double_def)

lemma d_less_trans: "(x :: double) < y \<Longrightarrow> y < z \<Longrightarrow> x < z"
  by (auto simp: less_double_def)

lemma d_less_not_less_trans: "(x :: double) < y \<Longrightarrow> \<not> z < y \<Longrightarrow> \<not> isnan z \<Longrightarrow> x < z"
  by (auto simp: less_double_def)

lemma d_less_not_nan: "(x :: double) < y \<Longrightarrow> \<not> isnan x \<and> \<not> isnan y"
  by (simp add: less_double_def)

lemma d_le_not_less: "\<not> isnan x \<Longrightarrow> \<not> isnan y \<Longrightarrow> x \<le> y \<longleftrightarrow> \<not> y < x"
  by (auto simp: less_double_def less_eq_double_def)

text \<open>On doubles that are not NaN, \<open><\<close> is a strict weak order; it does not tell \<open>-0\<close> from \<open>+0\<close>.\<close>

interpretation dbl: weak_order "(<) :: double \<Rightarrow> double \<Rightarrow> bool" "\<lambda>x. \<not> isnan x"
  by unfold_locales (auto simp: less_double_def)

section \<open>The value of a magnitude\<close>

definition mag_val :: "int \<Rightarrow> rat" where
  "mag_val m = of_int (mag_sig m) * 2 powi (mag_exp m)"

definition d_val :: "double \<Rightarrow> rat" where
  "d_val x = of_int (d_sig x) * 2 powi (d_exp x)"

lemma mag_sig_bounds:
  assumes "0 \<le> m"
  shows "0 \<le> mag_sig m" and "mag_sig m < 2 ^ 53" and "2 ^ 52 \<le> m \<Longrightarrow> 2 ^ 52 \<le> mag_sig m"
  using assms by (auto simp: mag_sig_def Let_def intro: order.strict_trans[of _ "2 ^ 52"])

lemma mag_exp_ge: "0 \<le> m \<Longrightarrow> -1074 \<le> mag_exp m"
  using pos_imp_zdiv_nonneg_iff[of "2 ^ 52" m] by (simp add: mag_exp_def Let_def)

lemma mag_decompose: "0 \<le> m \<Longrightarrow> m = (mag_exp m + 1074) * 2 ^ 52 + mag_sig m"
  using div_mult_mod_eq[of m "2 ^ 52"] by (simp add: mag_exp_def mag_sig_def Let_def algebra_simps)

lemma powi_le: "(i :: int) \<le> j \<Longrightarrow> (2 :: rat) powi i \<le> 2 powi j"
  by (rule power_int_increasing) auto

lemma powi_pos [simp]: "(0 :: rat) < 2 powi i"
  by (rule zero_less_power_int) simp

lemma powi_not_le_0 [simp]: "\<not> (2 :: rat) powi i \<le> 0"
  using powi_pos[of i] by linarith

lemma powi_not_less_0 [simp]: "\<not> (2 :: rat) powi i < 0"
  using powi_pos[of i] by linarith

lemma powi_split: "(2 :: rat) powi (i + j) = 2 powi i * 2 powi j"
  by (rule power_int_add) simp

lemma powi_nat: "0 \<le> i \<Longrightarrow> (2 :: rat) powi i = of_int (2 ^ nat i)"
  by (simp add: power_int_def)

lemma mag_val_strict_mono:
  assumes "0 \<le> m" "m < m'"
  shows "mag_val m < mag_val m'"
proof -
  let ?e = "mag_exp m" and ?e' = "mag_exp m'" and ?s = "mag_sig m" and ?s' = "mag_sig m'"
  have s: "0 \<le> ?s" "?s < 2 ^ 53" "0 \<le> ?s'" "?s' < 2 ^ 53"
    using assms mag_sig_bounds[of m] mag_sig_bounds[of m'] by auto
  have m: "m = (?e + 1074) * 2 ^ 52 + ?s" "m' = (?e' + 1074) * 2 ^ 52 + ?s'"
    using assms mag_decompose by auto
  have ee: "?e \<le> ?e'"
    using assms zdiv_mono1[of m m' "2 ^ 52"] pos_imp_zdiv_nonneg_iff[of "2 ^ 52" m]
    by (auto simp: mag_exp_def Let_def)
  show ?thesis
  proof (cases "?e = ?e'")
    case True
    then have "?s < ?s'" using m assms by simp
    then show ?thesis by (simp add: mag_val_def True)
  next
    case False
    then have less: "?e < ?e'" using ee by simp
    then have "-1074 < ?e'" using assms mag_exp_ge[of m] by simp
    then have "2 ^ 52 \<le> m'"
      using assms by (auto simp: mag_exp_def Let_def split: if_splits)
    then have "2 ^ 52 \<le> ?s'" using assms mag_sig_bounds by simp
    then have "(of_int (2 ^ 52) :: rat) * 2 powi ?e' \<le> mag_val m'"
      unfolding mag_val_def by (intro mult_right_mono) (simp_all only: of_int_le_iff less_imp_le powi_pos)
    moreover have "mag_val m < of_int (2 ^ 53) * 2 powi ?e"
      unfolding mag_val_def using s(2) by (intro mult_strict_right_mono) (simp_all only: of_int_less_iff powi_pos)
    moreover have "(of_int (2 ^ 53) :: rat) * 2 powi ?e = of_int (2 ^ 52) * 2 powi (?e + 1)"
      by (simp add: powi_split)
    moreover have "(2 :: rat) powi (?e + 1) \<le> 2 powi ?e'"
      using less by (intro powi_le) simp
    ultimately show ?thesis
      by (smt (verit, best) mult_left_mono of_int_0_le_iff zero_le_power zero_le_numeral dual_order.strict_trans1 order_le_less_trans order_less_le_trans)
  qed
qed

lemma mag_val_less_iff: "0 \<le> m \<Longrightarrow> 0 \<le> m' \<Longrightarrow> mag_val m < mag_val m' \<longleftrightarrow> m < m'"
  by (metis linorder_neqE_linordered_idom mag_val_strict_mono order_less_asym order_less_irrefl)

lemma mag_val_0 [simp]: "mag_val 0 = 0"
  by (simp add: mag_val_def mag_sig_def)

lemma mag_val_nonneg: "0 \<le> m \<Longrightarrow> 0 \<le> mag_val m"
  using mag_val_less_iff[of m 0] by simp

lemma d_val_mag: "d_val x = (if d_neg x then - mag_val (d_mag x) else mag_val (d_mag x))"
  by (simp add: d_val_def d_sig_def d_exp_def mag_val_def)

lemma signed_less:
  fixes a b :: int and A B :: rat
  assumes "A < B \<longleftrightarrow> a < b" "B < A \<longleftrightarrow> b < a" "0 < A \<longleftrightarrow> 0 < a" "0 < B \<longleftrightarrow> 0 < b"
    and "0 \<le> A" "0 \<le> B" "0 \<le> a" "0 \<le> b"
  shows "(if p then - a else a) < (if q then - b else b) \<longleftrightarrow>
    (if p then - A else A) < (if q then - B else B)"
  using assms
  by (cases p; cases q; cases "a < b"; cases "b < a"; cases "0 < a"; cases "0 < b") auto

theorem less_val:
  assumes "isfinite x" "isfinite y"
  shows "x < y \<longleftrightarrow> d_val x < d_val y"
proof -
  have nn: "\<not> isnan x" "\<not> isnan y"
    using assms by (simp_all add: isnan_def isfinite_def)
  have v: "mag_val (d_mag x) < mag_val (d_mag y) \<longleftrightarrow> d_mag x < d_mag y"
    "mag_val (d_mag y) < mag_val (d_mag x) \<longleftrightarrow> d_mag y < d_mag x"
    "0 < mag_val (d_mag x) \<longleftrightarrow> 0 < d_mag x" "0 < mag_val (d_mag y) \<longleftrightarrow> 0 < d_mag y"
    using mag_val_less_iff[of 0 "d_mag x"] mag_val_less_iff[of 0 "d_mag y"]
    by (simp_all add: mag_val_less_iff)
  have p: "0 \<le> mag_val (d_mag x)" "0 \<le> mag_val (d_mag y)" "0 \<le> d_mag x" "0 \<le> d_mag y"
    by (simp_all add: mag_val_nonneg)
  show ?thesis
    unfolding less_key[OF nn] d_key_def d_val_mag
    by (rule signed_less) (use v p in auto)
qed

section \<open>Correct rounding\<close>

text \<open>
  \<open>is_round v m\<close> says that \<open>m\<close> is the magnitude that the value \<open>v\<close> rounds to, with the
  binade of \<open>v\<close> given by inequalities. It determines \<open>m\<close> and it is monotone.
\<close>

definition near :: "rat \<Rightarrow> int" where
  "near r = (let q = \<lfloor>r\<rfloor> in if r - of_int q < 1 / 2 \<or> (r - of_int q = 1 / 2 \<and> even q) then q else q + 1)"

definition is_round :: "rat \<Rightarrow> int \<Rightarrow> bool" where
  "is_round v m \<longleftrightarrow> v = 0 \<and> m = 0 \<or>
     (\<exists>k x. 2 powi k \<le> v \<and> v < 2 powi (k + 1) \<and> x = max (-1074) (k - 52) \<and>
        m = min inf_mag ((x + 1074) * 2 ^ 52 + near (v / 2 powi x)))"

lemma near_bounds: "\<lfloor>r\<rfloor> \<le> near r" "near r \<le> \<lfloor>r\<rfloor> + 1"
  by (simp_all add: near_def Let_def)

lemma near_of_int [simp]: "near (of_int n) = n"
  by (simp add: near_def)

lemma near_mono:
  assumes "r \<le> s"
  shows "near r \<le> near s"
proof (cases "\<lfloor>r\<rfloor> = \<lfloor>s\<rfloor>")
  case True
  then show ?thesis using assms by (auto simp: near_def Let_def)
next
  case False
  then have "\<lfloor>r\<rfloor> + 1 \<le> \<lfloor>s\<rfloor>" using assms floor_mono[OF assms] by linarith
  then show ?thesis using near_bounds[of r] near_bounds[of s] by linarith
qed

lemma near_le_of_int: "r \<le> of_int n \<Longrightarrow> near r \<le> n"
  using near_mono[of r "of_int n"] by simp

lemma near_ge_of_int: "of_int n \<le> r \<Longrightarrow> n \<le> near r"
  using near_mono[of "of_int n" r] by simp

lemma div_even_near:
  assumes "0 < b"
  shows "div_even a b = near (of_int a / of_int b)"
proof -
  have fl: "\<lfloor>(of_int a :: rat) / of_int b\<rfloor> = a div b"
    by (rule floor_divide_of_int_eq)
  have ab: "(of_int a :: rat) = of_int (a div b) * of_int b + of_int (a mod b)"
    by (metis div_mult_mod_eq of_int_add of_int_mult)
  have fr: "(of_int a :: rat) / of_int b - of_int (a div b) = of_int (a mod b) / of_int b"
    using assms ab by (simp add: field_simps)
  have "(of_int (a mod b) :: rat) / of_int b < 1 / 2 \<longleftrightarrow> of_int (2 * (a mod b)) < (of_int b :: rat)"
    using assms by (simp add: field_simps)
  then have lt: "(of_int (a mod b) :: rat) / of_int b < 1 / 2 \<longleftrightarrow> 2 * (a mod b) < b"
    by (simp only: of_int_less_iff)
  have "(of_int (a mod b) :: rat) / of_int b = 1 / 2 \<longleftrightarrow> of_int (2 * (a mod b)) = (of_int b :: rat)"
    using assms by (auto simp: field_simps)
  then have eq: "(of_int (a mod b) :: rat) / of_int b = 1 / 2 \<longleftrightarrow> 2 * (a mod b) = b"
    by (simp only: of_int_eq_iff)
  show ?thesis
    unfolding div_even_def near_def Let_def fl fr lt eq by (rule refl)
qed

lemma powi_less_cancel: "(2 :: rat) powi i < 2 powi j \<Longrightarrow> i < j"
  using powi_le[of j i] by linarith

lemma is_round_0 [simp]: "is_round 0 m \<longleftrightarrow> m = 0"
  by (simp add: is_round_def)

lemma is_round_nonneg:
  assumes "is_round v m" "0 \<le> v"
  shows "0 \<le> m"
proof (cases "v = 0")
  case False
  then obtain k x where "x = max (-1074) (k - 52)" and
    m: "m = min inf_mag ((x + 1074) * 2 ^ 52 + near (v / 2 powi x))"
    using assms unfolding is_round_def by blast
  then have x: "-1074 \<le> x" by simp
  have "0 \<le> near (v / 2 powi x)"
    using assms by (intro near_ge_of_int) (simp add: divide_nonneg_pos)
  then show ?thesis using x m by (simp add: inf_mag_def)
qed (use assms in simp)

lemma is_round_mono:
  assumes r: "is_round v m" and r': "is_round v' m'" and le: "v \<le> v'" and nn: "0 \<le> v"
  shows "m \<le> m'"
proof (cases "v = 0")
  case True
  then have "m = 0" using r by simp
  moreover have "0 \<le> m'" using is_round_nonneg[OF r'] le nn by simp
  ultimately show ?thesis by simp
next
  case False
  then have "v' \<noteq> 0" using le nn by auto
  then obtain k' x' where k': "2 powi k' \<le> v'" "v' < 2 powi (k' + 1)" "x' = max (-1074) (k' - 52)"
    "m' = min inf_mag ((x' + 1074) * 2 ^ 52 + near (v' / 2 powi x'))"
    using r' unfolding is_round_def by blast
  obtain k x where k: "2 powi k \<le> v" "v < 2 powi (k + 1)" "x = max (-1074) (k - 52)"
    "m = min inf_mag ((x + 1074) * 2 ^ 52 + near (v / 2 powi x))"
    using r False unfolding is_round_def by blast
  have "k < k' + 1"
    by (rule powi_less_cancel) (use k(1) le k'(2) in linarith)
  then have xx: "x \<le> x'" using k(3) k'(3) by auto
  show ?thesis
  proof (cases "x = x'")
    case True
    have "near (v / 2 powi x) \<le> near (v' / 2 powi x')"
      unfolding True by (intro near_mono divide_right_mono le) (simp add: less_imp_le)
    then show ?thesis using k(4) k'(4) True by simp
  next
    case False
    then have x': "x + 1 \<le> x'" "x' = k' - 52" using xx k(3) k'(3) by auto
    have "v \<le> 2 powi (53 + x)"
      using k(2) powi_le[of "k + 1" "53 + x"] k(3) by linarith
    then have "v / 2 powi x \<le> of_int (2 ^ 53)"
      by (simp add: powi_split pos_divide_le_eq)
    then have n: "near (v / 2 powi x) \<le> 2 ^ 53" by (rule near_le_of_int)
    have "of_int (2 ^ 52) \<le> v' / 2 powi x'"
      using k'(1) x'(2) powi_split[of 52 x'] by (simp add: pos_le_divide_eq)
    then have n': "2 ^ 52 \<le> near (v' / 2 powi x')" by (rule near_ge_of_int)
    have "(x + 1074) * 2 ^ 52 + near (v / 2 powi x) \<le> (x' + 1074) * 2 ^ 52 + near (v' / 2 powi x')"
      using n n' x'(1) by (simp add: algebra_simps)
    then show ?thesis using k(4) k'(4) by linarith
  qed
qed

lemma is_round_unique: "is_round v m \<Longrightarrow> is_round v m' \<Longrightarrow> 0 \<le> v \<Longrightarrow> m = m'"
  using is_round_mono[of v m v m'] is_round_mono[of v m' v m] by simp

section \<open>The integer computation rounds correctly\<close>

lemma ibits_bounds: "0 < n \<Longrightarrow> 1 \<le> ibits n \<and> 2 ^ nat (ibits n - 1) \<le> n \<and> n < 2 ^ nat (ibits n)"
proof (induction n rule: ibits.induct)
  case (1 n)
  show ?case
  proof (cases "n = 1")
    case True
    then show ?thesis by (simp add: ibits.simps[of 1] ibits.simps[of 0])
  next
    case False
    then have IH: "1 \<le> ibits (n div 2)" "2 ^ nat (ibits (n div 2) - 1) \<le> n div 2"
      "n div 2 < 2 ^ nat (ibits (n div 2))"
      using 1 by auto
    have e: "ibits n = 1 + ibits (n div 2)" using 1 by (simp add: ibits.simps[of n])
    have p: "2 * 2 ^ nat (ibits (n div 2) - 1) = (2 :: int) ^ nat (ibits (n div 2))"
      using IH(1) by (simp add: nat_diff_distrib power_Suc[symmetric] Suc_nat_eq_nat_zadd1)
    have q: "nat (1 + ibits (n div 2)) = Suc (nat (ibits (n div 2)))"
      using IH(1) by simp
    have b: "2 * (n div 2) \<le> n" "n < 2 * (n div 2) + 2" by presburger+
    have r: "1 + ibits (n div 2) - 1 = ibits (n div 2)" by simp
    show ?thesis
      unfolding e r q power_Suc using IH p b by (intro conjI) linarith+
  qed
qed

lemma ibits_rat:
  assumes "0 < n"
  shows "2 powi (ibits n - 1) \<le> (of_int n :: rat)" and "(of_int n :: rat) < 2 powi (ibits n)"
  using ibits_bounds[OF assms] by (simp_all add: powi_nat del: of_int_power)

lemma scaled_value:
  assumes "scaled n d s = (n', d')" "0 < d"
  shows "0 < d'" and "(of_int n' / of_int d' :: rat) = of_int n / of_int d * 2 powi s"
  using assms by (auto simp: scaled_def power_int_def field_simps split: if_splits)

lemma flog_bounds:
  assumes "0 < n" "0 < d"
  shows "2 powi (flog n d) \<le> (of_int n / of_int d :: rat)"
    and "(of_int n / of_int d :: rat) < 2 powi (flog n d + 1)"
proof -
  define t where "t = ibits n - ibits d"
  obtain n' d' where sc: "scaled n d (- t) = (n', d')" by fastforce
  note v = scaled_value[OF sc assms(2)]
  have fl: "flog n d = (if d' \<le> n' then t else t - 1)"
    by (simp add: flog_def t_def[symmetric] sc)
  have "d' \<le> n' \<longleftrightarrow> 1 \<le> (of_int n' / of_int d' :: rat)"
    using v(1) by simp
  also have "of_int n' / of_int d' = (of_int n / of_int d) / (2 powi t :: rat)"
    unfolding v(2) power_int_minus by (rule divide_inverse[symmetric])
  also have "1 \<le> (of_int n / of_int d) / (2 powi t :: rat) \<longleftrightarrow> 2 powi t \<le> (of_int n / of_int d :: rat)"
    by (rule le_divide_eq_1_pos) simp
  finally have cmp: "d' \<le> n' \<longleftrightarrow> 2 powi t \<le> (of_int n / of_int d :: rat)" .
  note bn = ibits_rat[OF assms(1)] and bd = ibits_rat[OF assms(2)]
  have "(of_int n / of_int d :: rat) < 2 powi (ibits n) / 2 powi (ibits d - 1)"
    using bn bd assms by (intro frac_less) auto
  also have "\<dots> = 2 powi (t + 1)"
    by (simp add: t_def power_int_diff power_int_add)
  finally have up: "(of_int n / of_int d :: rat) < 2 powi (t + 1)" .
  have "2 powi (t - 1) = (2 powi (ibits n - 1) / 2 powi (ibits d) :: rat)"
    by (simp add: t_def power_int_diff)
  also have "\<dots> \<le> of_int n / of_int d"
    using bn bd assms by (intro frac_le) auto
  finally have lo: "2 powi (t - 1) \<le> (of_int n / of_int d :: rat)" .
  show "2 powi (flog n d) \<le> (of_int n / of_int d :: rat)"
    and "(of_int n / of_int d :: rat) < 2 powi (flog n d + 1)"
    using fl cmp up lo by auto
qed

lemma round_mag_is_round:
  assumes "0 \<le> n" "0 < d"
  shows "is_round (of_int n / of_int d * 2 powi e) (round_mag n d e)"
proof (cases "n = 0")
  case True
  then show ?thesis by (simp add: round_mag_def)
next
  case False
  define x where "x = max (-1074) (flog n d + e - 52)"
  obtain n' d' where sc: "scaled n d (e - x) = (n', d')" by fastforce
  let ?v = "of_int n / of_int d * 2 powi e :: rat"
  have "0 < n" using assms False by simp
  note fb = flog_bounds[OF this assms(2)]
  have "of_int n' / of_int d' = ?v / 2 powi x"
    by (simp add: scaled_value(2)[OF sc assms(2)] power_int_diff)
  then have "div_even n' d' = near (?v / 2 powi x)"
    by (simp add: div_even_near scaled_value(1)[OF sc assms(2)])
  then have m: "round_mag n d e = min inf_mag ((x + 1074) * 2 ^ 52 + near (?v / 2 powi x))"
    using False by (simp add: round_mag_def x_def[symmetric] sc)
  have "2 powi (flog n d + e) \<le> ?v"
    unfolding powi_split by (rule mult_right_mono[OF fb(1)]) (simp add: less_imp_le)
  moreover have "?v < 2 powi (flog n d + e + 1)"
    using mult_strict_right_mono[OF fb(2) powi_pos[of e]]
    by (simp add: powi_split[symmetric] algebra_simps)
  ultimately show ?thesis
    unfolding is_round_def using m x_def by blast
qed

lemma powi_numeral_int: "(2 :: rat) powi (int k) = of_int (2 ^ k)"
  by (simp add: power_int_def)

lemma sig_less: "s < 2 ^ k \<Longrightarrow> (of_int s :: rat) * 2 powi e < 2 powi (int k + e)"
  unfolding powi_split powi_numeral_int
  by (rule mult_strict_right_mono) (simp_all only: of_int_less_iff powi_pos)

lemma sig_le: "2 ^ k \<le> s \<Longrightarrow> (2 powi (int k + e) :: rat) \<le> of_int s * 2 powi e"
  unfolding powi_split powi_numeral_int
  by (rule mult_right_mono) (simp_all only: of_int_le_iff powi_pos less_imp_le)

lemma is_round_mag_val:
  assumes "0 \<le> m" "m < inf_mag"
  shows "is_round (mag_val m) m"
proof (cases "m = 0")
  case False
  let ?s = "mag_sig m" and ?e = "mag_exp m"
  have dec: "m = (?e + 1074) * 2 ^ 52 + ?s" using mag_decompose assms by simp
  have s: "0 \<le> ?s" "?s < 2 ^ 53" using mag_sig_bounds assms by auto
  have v: "0 < mag_val m" using mag_val_less_iff[of 0 m] assms False by simp
  then have pos: "0 < ?s" using s(1) by (cases "?s = 0") (auto simp: mag_val_def)
  define k where "k = flog ?s 1 + ?e"
  have k: "2 powi k \<le> mag_val m" "mag_val m < 2 powi (k + 1)"
  proof -
    note fb = flog_bounds[OF pos, of 1]
    show "2 powi k \<le> mag_val m"
      using fb unfolding k_def powi_split mag_val_def by (intro mult_right_mono) (auto simp: less_imp_le)
    have "k + 1 = (flog ?s 1 + 1) + ?e" by (simp add: k_def)
    then show "mag_val m < 2 powi (k + 1)"
      using fb unfolding mag_val_def by (simp only: powi_split mult_less_cancel_right_pos powi_pos) simp
  qed
  have hi: "mag_val m < 2 powi (53 + ?e)"
    unfolding mag_val_def using sig_less[of ?s 53 ?e] s(2) by simp
  have "max (-1074) (k - 52) = ?e"
  proof (cases "2 ^ 52 \<le> m")
    case True
    then have "2 ^ 52 \<le> ?s" using mag_sig_bounds assms by simp
    then have "2 powi (52 + ?e) \<le> mag_val m"
      unfolding mag_val_def using sig_le[of 52 ?s ?e] by simp
    then have "52 + ?e < k + 1" by (intro powi_less_cancel) (use k in linarith)
    moreover have "k < 53 + ?e" by (rule powi_less_cancel) (use k hi in linarith)
    ultimately show ?thesis using mag_exp_ge[OF assms(1)] by simp
  next
    case False
    then have e: "?e = -1074" and "?s = m"
      using assms by (auto simp: mag_exp_def mag_sig_def Let_def)
    then have "mag_val m < 2 powi (52 + ?e)"
      using False sig_less[of ?s 52 ?e] unfolding mag_val_def by simp
    then have "k < 52 + ?e" by (intro powi_less_cancel) (use k in linarith)
    then show ?thesis using e by simp
  qed
  moreover have "mag_val m / 2 powi ?e = of_int ?s" by (simp add: mag_val_def)
  ultimately show ?thesis
    unfolding is_round_def using k dec assms(2) by (intro disjI2 exI[of _ k] exI[of _ ?e]) auto
qed simp

section \<open>The results of the arithmetic operations\<close>

lemma d_make_fields:
  assumes "0 \<le> m" "m < 2 ^ 63"
  shows "d_mag (d_make s m) = m" and "d_neg (d_make s m) = s"
  using assms
  by (auto simp: d_mag_def d_neg_def d_make_def uint_word_of_int take_bit_eq_mod)

lemma d_make_eta: "d_make (d_neg x) (d_mag x) = x"
proof -
  have u: "0 \<le> uint (bits x)" "uint (bits x) < 2 ^ 64"
    using uint_bounded[of "bits x"] by simp_all
  have "(if d_neg x then 2 ^ 63 + d_mag x else d_mag x) = uint (bits x)"
  proof (cases "d_neg x")
    case True
    have "d_mag x = (uint (bits x) - 2 ^ 63) mod 2 ^ 63"
      unfolding d_mag_def by (rule minus_mod_self2[symmetric])
    also have "\<dots> = uint (bits x) - 2 ^ 63"
      using True u by (intro mod_pos_pos_trivial) (simp_all add: d_neg_def)
    finally show ?thesis using True by simp
  next
    case False
    then show ?thesis using u by (simp add: d_neg_def d_mag_def)
  qed
  then show ?thesis by (simp add: d_make_def)
qed

lemma inf_mag_less: "inf_mag < 2 ^ 63"
  by (simp add: inf_mag_def)

lemma round_mag_bounds:
  assumes "0 \<le> n" "0 < d"
  shows "0 \<le> round_mag n d e" and "round_mag n d e \<le> inf_mag"
proof -
  show "0 \<le> round_mag n d e"
    by (rule is_round_nonneg[OF round_mag_is_round[OF assms, of e]])
      (use assms in simp)
  show "round_mag n d e \<le> inf_mag"
    by (simp add: round_mag_def Let_def inf_mag_def split: prod.split)
qed

lemma d_round_fields:
  assumes "0 \<le> n" "0 < d"
  shows "d_mag (d_round s n d e) = round_mag n d e" and "d_neg (d_round s n d e) = s"
    and "\<not> isnan (d_round s n d e)"
  using round_mag_bounds[OF assms, of e] inf_mag_less
  by (simp_all add: d_round_def d_make_fields isnan_def)

lemma d_val_abs: "\<bar>d_val x\<bar> = mag_val (d_mag x)"
  by (simp add: d_val_mag mag_val_nonneg)

text \<open>Rounding the value of a finite double gives back that double.\<close>

lemma d_round_exact:
  assumes "isfinite x" "0 \<le> n" "0 < d" "of_int n / of_int d * 2 powi e = \<bar>d_val x\<bar>"
  shows "d_round (d_neg x) n d e = x"
proof -
  have "is_round \<bar>d_val x\<bar> (round_mag n d e)"
    using round_mag_is_round[OF assms(2,3), of e] by (simp only: assms(4))
  moreover have "is_round \<bar>d_val x\<bar> (d_mag x)"
    unfolding d_val_abs using assms(1) by (intro is_round_mag_val) (simp_all add: isfinite_def)
  ultimately have "round_mag n d e = d_mag x"
    by (rule is_round_unique) simp
  then show ?thesis by (simp add: d_round_def d_make_eta)
qed

lemma isfinite_not: "isfinite x \<Longrightarrow> \<not> isnan x" "isfinite x \<Longrightarrow> \<not> isinf x"
  by (simp_all add: isfinite_def isnan_def isinf_def)

lemma nan_arith [simp]:
  "isnan x \<Longrightarrow> x + y = NAN" "isnan y \<Longrightarrow> x + y = NAN"
  "isnan x \<Longrightarrow> x * y = NAN" "isnan y \<Longrightarrow> x * y = NAN"
  "isnan x \<Longrightarrow> x / y = NAN" "isnan y \<Longrightarrow> x / y = NAN"
  by (simp_all add: plus_double_def times_double_def divide_double_def)

text \<open>
  The key of a sum: the exact sum rounded to nearest, with its sign. It follows that the
  rounded addition is monotone.
\<close>

definition signed_round :: "rat \<Rightarrow> int \<Rightarrow> bool" where
  "signed_round v k \<longleftrightarrow> is_round \<bar>v\<bar> \<bar>k\<bar> \<and> (v < 0 \<longrightarrow> k \<le> 0) \<and> (0 < v \<longrightarrow> 0 \<le> k)"

lemma signed_round_mono:
  assumes "signed_round v k" "signed_round w l" "v \<le> w"
  shows "k \<le> l"
proof -
  consider "0 \<le> v" | "v < 0" "0 \<le> w" | "w < 0" using assms(3) by linarith
  then show ?thesis
  proof cases
    case 1
    then have "\<bar>k\<bar> \<le> \<bar>l\<bar>"
      using assms by (intro is_round_mono[of "\<bar>v\<bar>" _ "\<bar>w\<bar>"]) (auto simp: signed_round_def)
    then show ?thesis using 1 assms by (cases "v = 0"; cases "w = 0") (auto simp: signed_round_def)
  next
    case 2
    then show ?thesis using assms by (cases "w = 0") (auto simp: signed_round_def)
  next
    case 3
    then have "\<bar>l\<bar> \<le> \<bar>k\<bar>"
      using assms by (intro is_round_mono[of "\<bar>w\<bar>" _ "\<bar>v\<bar>"]) (auto simp: signed_round_def)
    then show ?thesis using 3 assms by (auto simp: signed_round_def)
  qed
qed

lemma d_key_value: "isfinite x \<Longrightarrow> signed_round (d_val x) (d_key x)"
  using is_round_mag_val[of "d_mag x"] mag_val_nonneg[of "d_mag x"]
  by (auto simp: signed_round_def d_val_abs d_key_def isfinite_def d_val_mag)

lemma plus_value:
  assumes "isfinite x" "isfinite y"
  shows "signed_round (d_val x + d_val y) (d_key (x + y))" and "\<not> isnan (x + y)"
proof -
  define e where "e = min (d_exp x) (d_exp y)"
  define m where "m = d_sig x * 2 ^ nat (d_exp x - e) + d_sig y * 2 ^ nat (d_exp y - e)"
  define s where "s = (if m = 0 then d_neg x \<and> d_neg y else m < 0)"
  have sum: "x + y = d_round s \<bar>m\<bar> 1 e"
    using assms by (simp add: plus_double_def isfinite_not e_def[symmetric] m_def[symmetric] s_def Let_def)
  have align: "(of_int (sg * 2 ^ nat (ex - e)) :: rat) * 2 powi e = of_int sg * 2 powi ex"
    if "e \<le> ex" for sg ex
    using that powi_split[of "ex - e" e] by (simp add: powi_nat)
  have val: "of_int m * 2 powi e = d_val x + d_val y"
    unfolding m_def of_int_add distrib_right d_val_def
    by (subst (1 2) align) (simp_all add: e_def)
  have r: "is_round \<bar>d_val x + d_val y\<bar> (round_mag \<bar>m\<bar> 1 e)"
    using round_mag_is_round[of "\<bar>m\<bar>" 1 e] by (simp add: val[symmetric] abs_mult less_imp_le)
  have key: "d_key (x + y) = (if s then - round_mag \<bar>m\<bar> 1 e else round_mag \<bar>m\<bar> 1 e)"
    unfolding sum d_key_def by (simp add: d_round_fields)
  have sg: "d_val x + d_val y < 0 \<longleftrightarrow> m < 0" "0 < d_val x + d_val y \<longleftrightarrow> 0 < m"
    by (simp_all add: val[symmetric] mult_less_0_iff zero_less_mult_iff not_less_iff_gr_or_eq)
  have nn: "0 \<le> round_mag \<bar>m\<bar> 1 e" by (rule round_mag_bounds) simp_all
  show "signed_round (d_val x + d_val y) (d_key (x + y))"
    unfolding signed_round_def key sg using r nn by (auto simp: s_def)
  show "\<not> isnan (x + y)" unfolding sum by (rule d_round_fields) simp_all
qed

lemma plus_mono:
  assumes "isfinite x" "isfinite y" "isfinite z" "x \<le> y"
  shows "x + z \<le> y + z"
proof -
  have "\<not> y < x" using assms by (simp add: d_le_not_less isfinite_not)
  then have "d_val x \<le> d_val y" using less_val[OF assms(2,1)] by simp
  then have "d_key (x + z) \<le> d_key (y + z)"
    by (intro signed_round_mono[OF plus_value(1)[OF assms(1,3)] plus_value(1)[OF assms(2,3)]]) simp
  then show ?thesis using assms by (simp add: le_key plus_value)
qed

lemma d_val_0 [simp]: "d_val 0 = 0"
  by (simp add: d_val_def zero_double_def d_sig_def d_mag_def mag_sig_def)

lemma isfinite_0 [simp]: "isfinite 0"
  by (simp add: isfinite_def zero_double_def d_mag_def inf_mag_def)

lemma le_plus:
  assumes "isfinite x" "isfinite y" "0 \<le> y"
  shows "x \<le> x + y"
proof -
  have "\<not> y < 0" using assms by (simp add: d_le_not_less isfinite_not)
  then have "d_val x \<le> d_val x + d_val y" using less_val[OF assms(2) isfinite_0] by simp
  then have "d_key x \<le> d_key (x + y)"
    by (rule signed_round_mono[OF d_key_value[OF assms(1)] plus_value(1)[OF assms(1,2)]])
  then show ?thesis using assms by (simp add: le_key plus_value isfinite_not)
qed

lemma plus_zero:
  assumes "isfinite x" "\<not> (d_zero x \<and> d_neg x)"
  shows "x + 0 = x"
proof -
  define e where "e = min (d_exp x) (d_exp 0)"
  define m where "m = d_sig x * 2 ^ nat (d_exp x - e)"
  have e: "e \<le> d_exp x" by (simp add: e_def)
  have s0: "d_sig 0 = 0" "d_neg 0 = False"
    by (simp_all add: zero_double_def d_sig_def d_mag_def mag_sig_def d_neg_def)
  have val: "of_int m * 2 powi e = d_val x"
    unfolding m_def d_val_def using e powi_split[of "d_exp x - e" e] by (simp add: powi_nat)
  have pos: "d_val x < 0 \<longleftrightarrow> m < 0" "d_val x = 0 \<longleftrightarrow> m = 0"
    by (simp_all add: val[symmetric] mult_less_0_iff not_less_iff_gr_or_eq)
  have s: "(m < 0) = d_neg x"
  proof (cases "d_mag x = 0")
    case True
    then show ?thesis using assms(2) by (simp add: pos(1)[symmetric] d_val_mag d_zero_def)
  next
    case False
    then have "0 < d_mag x" using d_mag_nonneg[of x] by linarith
    then have "0 < mag_val (d_mag x)" using mag_val_strict_mono[of 0 "d_mag x"] by simp
    then show ?thesis by (simp add: pos(1)[symmetric] d_val_mag)
  qed
  have "x + 0 = d_round (d_neg x) \<bar>m\<bar> 1 e"
    using assms(1) by (simp add: plus_double_def isfinite_not e_def[symmetric] s0 m_def[symmetric] Let_def s[symmetric])
      (simp add: m_def)
  also have "\<dots> = x"
    by (rule d_round_exact[OF assms(1)]) (simp_all add: val[symmetric] abs_mult less_imp_le)
  finally show ?thesis .
qed

end
