(* ===== verification/Models.thy ===== *)
theory Models
  imports Double
begin

text \<open>
  The value types of \<open>src/models\<close>: action types, timestamps and their spans, balances and
  balance changes, decisions, orders, trades and trade summaries, with their operations and
  the packed memory layout that \<open>memcmp\<close> and the hashes read.
\<close>

section \<open>Action types\<close>

text \<open>
  \<open>BID\<close> and \<open>ASK\<close> are further names of \<open>BUY\<close> and \<open>SELL\<close>, \<open>UNDEFINED\<close> of \<open>WAIT\<close>.
\<close>

datatype action_type = BUY | WAIT | SELL

abbreviation UNDEFINED :: action_type where
  "UNDEFINED \<equiv> WAIT"

fun action_int :: "action_type \<Rightarrow> int" where
  "action_int BUY = 1"
| "action_int WAIT = 0"
| "action_int SELL = -1"

fun show_action :: "action_type \<Rightarrow> string" where
  "show_action BUY = ''BUY ''"
| "show_action WAIT = ''WAIT''"
| "show_action SELL = ''SELL''"

section \<open>Timestamps\<close>

text \<open>
  The class \<open>Timestamp\<close> wraps one \<open>double\<close> of seconds; its comparisons and its arithmetic
  are those of the double, so the model identifies the two.
\<close>

type_synonym timestamp = double

record timestamp_span =
  span_from :: timestamp
  span_to :: timestamp

definition mk_span :: "timestamp_span" where
  "mk_span = \<lparr>span_from = NAN, span_to = NAN\<rparr>"

definition span_add :: "timestamp_span \<Rightarrow> double \<Rightarrow> timestamp_span" where
  "span_add s v = s\<lparr>span_from := span_from s + v, span_to := span_to s + v\<rparr>"

definition span_sub :: "timestamp_span \<Rightarrow> double \<Rightarrow> timestamp_span" where
  "span_sub s v = s\<lparr>span_from := span_from s - v, span_to := span_to s - v\<rparr>"

section \<open>Balances\<close>

record balance =
  liquidity :: double
  stock :: double
  commission :: double

definition mk_balance :: balance where
  "mk_balance = \<lparr>liquidity = NAN, stock = NAN, commission = NAN\<rparr>"

definition balance_add :: "balance \<Rightarrow> balance \<Rightarrow> balance" where
  "balance_add a b = \<lparr>liquidity = liquidity a + liquidity b,
     stock = stock a + stock b, commission = commission a + commission b\<rparr>"

definition balance_div :: "balance \<Rightarrow> double \<Rightarrow> balance" where
  "balance_div a x = \<lparr>liquidity = liquidity a / x,
     stock = stock a / x, commission = commission a / x\<rparr>"

datatype origin_type = OriginUnknown | OriginInit | OriginUpdate | OriginTrade

record balance_change_origin =
  origin_type :: origin_type
  origin_id :: uint64

record balance_change =
  bc_origin :: balance_change_origin
  bc_delta :: balance
  bc_consolidated :: balance
  bc_timestamp :: timestamp

definition mk_balance_change :: balance_change where
  "mk_balance_change = \<lparr>bc_origin = \<lparr>origin_type = OriginUnknown, origin_id = 0\<rparr>,
     bc_delta = mk_balance, bc_consolidated = mk_balance, bc_timestamp = NAN\<rparr>"

section \<open>Orders\<close>

record order =
  o_id :: uint64
  o_amount :: double
  o_price :: double
  o_type :: action_type
  o_timestamp :: double

text \<open>The aggregate initialisation \<open>Order o = {0}\<close>.\<close>

definition zero_order :: order where
  "zero_order = \<lparr>o_id = 0, o_amount = 0, o_price = 0, o_type = WAIT, o_timestamp = 0\<rparr>"

section \<open>Decisions\<close>

datatype decision_status = CANCELLED | PENDING | PASSED

fun status_int :: "decision_status \<Rightarrow> int" where
  "status_int CANCELLED = -1"
| "status_int PENDING = 0"
| "status_int PASSED = 1"

record decision =
  d_id :: uint64
  d_type :: action_type
  d_random :: "32 word"
  d_status :: decision_status
  d_timestamp :: timestamp
  d_confidence :: double
  d_amount :: double
  d_price :: double
  d_order_id :: uint64
  d_source :: "byte list"

text \<open>
  The constructor increments the static counter \<open>last_id\<close> and draws the key from \<open>rand()\<close>:
  it takes the counter and the drawn number, and returns the new counter.
\<close>

definition mk_decision :: "uint64 \<Rightarrow> 32 word \<Rightarrow> decision \<times> uint64" where
  "mk_decision last_id key =
     (\<lparr>d_id = last_id + 1, d_type = WAIT, d_random = key, d_status = PENDING,
       d_timestamp = NAN, d_confidence = NAN, d_amount = NAN, d_price = NAN,
       d_order_id = 0, d_source = replicate 32 0\<rparr>, last_id + 1)"

definition decision_bool :: "decision \<Rightarrow> bool" where
  "decision_bool d = (d_type d \<noteq> WAIT)"

section \<open>Trades\<close>

record trade =
  t_id :: uint64
  t_volume :: double
  t_price :: double
  t_type :: action_type
  t_timestamp :: timestamp
  t_decision_id :: uint64
  t_buy_order_id :: uint64
  t_sell_order_id :: uint64

text \<open>
  The constructor leaves the timestamp to the default constructor of \<open>Timestamp\<close>, which
  reads the clock: \<open>now\<close> is the time it gives.
\<close>

definition mk_trade :: "timestamp \<Rightarrow> trade" where
  "mk_trade now = \<lparr>t_id = 0, t_volume = NAN, t_price = NAN, t_type = UNDEFINED,
     t_timestamp = now, t_decision_id = 0, t_buy_order_id = 0, t_sell_order_id = 0\<rparr>"

definition trade_mult :: "trade \<Rightarrow> double \<Rightarrow> trade" where
  "trade_mult t factor = t\<lparr>t_volume := t_volume t * factor\<rparr>"

definition trade_div :: "trade \<Rightarrow> double \<Rightarrow> trade" where
  "trade_div t factor = t\<lparr>t_volume := t_volume t / factor\<rparr>"

section \<open>Packed memory layout\<close>

text \<open>
  All structures are declared under \<open>#pragma pack(1)\<close>, so a value is the concatenation of
  the little-endian bytes of its members in declaration order; an enumeration takes the four
  bytes of an \<open>int\<close>.
\<close>

fun le_bytes :: "nat \<Rightarrow> int \<Rightarrow> byte list" where
  "le_bytes 0 v = []"
| "le_bytes (Suc n) v = word_of_int v # le_bytes n (v div 256)"

definition u64_bytes :: "uint64 \<Rightarrow> byte list" where
  "u64_bytes w = le_bytes 8 (uint w)"

definition i32_bytes :: "int \<Rightarrow> byte list" where
  "i32_bytes i = le_bytes 4 i"

definition double_bytes :: "double \<Rightarrow> byte list" where
  "double_bytes x = u64_bytes (bits x)"

definition order_bytes :: "order \<Rightarrow> byte list" where
  "order_bytes r = u64_bytes (o_id r) @ double_bytes (o_amount r) @ double_bytes (o_price r) @
     i32_bytes (action_int (o_type r)) @ double_bytes (o_timestamp r)"

definition trade_bytes :: "trade \<Rightarrow> byte list" where
  "trade_bytes t = u64_bytes (t_id t) @ double_bytes (t_volume t) @ double_bytes (t_price t) @
     i32_bytes (action_int (t_type t)) @ double_bytes (t_timestamp t) @
     u64_bytes (t_decision_id t) @ u64_bytes (t_buy_order_id t) @ u64_bytes (t_sell_order_id t)"

definition decision_bytes :: "decision \<Rightarrow> byte list" where
  "decision_bytes d = u64_bytes (d_id d) @ i32_bytes (action_int (d_type d)) @
     le_bytes 4 (uint (d_random d)) @ i32_bytes (status_int (d_status d)) @
     double_bytes (d_timestamp d) @ double_bytes (d_confidence d) @ double_bytes (d_amount d) @
     double_bytes (d_price d) @ u64_bytes (d_order_id d) @ d_source d"

text \<open>\<open>memcmp\<close> on two blocks of the same length: the sign of the first difference.\<close>

fun memcmp :: "byte list \<Rightarrow> byte list \<Rightarrow> int" where
  "memcmp (a # as) (b # bs) = (if a < b then -1 else if b < a then 1 else memcmp as bs)"
| "memcmp _ _ = 0"

definition order_eq :: "order \<Rightarrow> order \<Rightarrow> bool" where
  "order_eq a b = (memcmp (order_bytes a) (order_bytes b) = 0)"

definition order_less :: "order \<Rightarrow> order \<Rightarrow> bool" where
  "order_less a b = (memcmp (order_bytes a) (order_bytes b) < 0)"

definition trade_eq :: "trade \<Rightarrow> trade \<Rightarrow> bool" where
  "trade_eq a b = (memcmp (trade_bytes a) (trade_bytes b) = 0)"

definition trade_less :: "trade \<Rightarrow> trade \<Rightarrow> bool" where
  "trade_less a b = (memcmp (trade_bytes a) (trade_bytes b) < 0)"

definition decision_eq :: "decision \<Rightarrow> decision \<Rightarrow> bool" where
  "decision_eq a b = (memcmp (decision_bytes a) (decision_bytes b) = 0)"

definition decision_ne :: "decision \<Rightarrow> decision \<Rightarrow> bool" where
  "decision_ne a b = (memcmp (decision_bytes a) (decision_bytes b) \<noteq> 0)"

text \<open>
  \<open>Decision\<close> declares no order of its own: \<open>a < b\<close> converts both operands to \<open>bool\<close>, and
  so does the \<open>std::less\<close> of a \<open>std::set<Decision>\<close>.
\<close>

definition decision_less :: "decision \<Rightarrow> decision \<Rightarrow> bool" where
  "decision_less a b = (\<not> decision_bool a \<and> decision_bool b)"

subsection \<open>Hashes\<close>

text \<open>
  The hashes fold the words of the block with exclusive or, and once more the last eight
  bytes when the size is no multiple of eight. The accumulator is declared without an
  initial value: \<open>garbage\<close> is whatever it holds.
\<close>

fun bytes_le :: "byte list \<Rightarrow> int" where
  "bytes_le [] = 0"
| "bytes_le (b # bs) = uint b + 256 * bytes_le bs"

definition word_at :: "byte list \<Rightarrow> nat \<Rightarrow> uint64" where
  "word_at bs i = word_of_int (bytes_le (take 8 (drop i bs)))"

definition hash_bytes :: "uint64 \<Rightarrow> byte list \<Rightarrow> uint64" where
  "hash_bytes garbage bs =
     (let n = length bs div 8;
          result = foldl (\<lambda>r i. r XOR word_at bs (8 * i)) garbage [0..<n]
      in if length bs mod 8 \<noteq> 0 then result XOR word_at bs (length bs - 8) else result)"

definition trade_hash :: "uint64 \<Rightarrow> trade \<Rightarrow> uint64" where
  "trade_hash garbage t = hash_bytes garbage (trade_bytes t)"

definition order_hash :: "uint64 \<Rightarrow> order \<Rightarrow> uint64" where
  "order_hash garbage r = hash_bytes garbage (order_bytes r)"

definition decision_hash :: "uint64 \<Rightarrow> decision \<Rightarrow> uint64" where
  "decision_hash garbage d = hash_bytes garbage (decision_bytes d)"

section \<open>Trade summaries\<close>

record summary_part =
  sp_count :: uint64
  sp_price :: double
  sp_volume :: double
  sp_average_price :: double

definition mk_summary_part :: summary_part where
  "mk_summary_part = \<lparr>sp_count = 0, sp_price = 0, sp_volume = 0, sp_average_price = NAN\<rparr>"

definition summary_part_add :: "summary_part \<Rightarrow> trade \<Rightarrow> summary_part" where
  "summary_part_add p t =
     (let volume = sp_volume p + t_volume t;
          price = sp_price p + t_volume t * t_price t
      in \<lparr>sp_count = sp_count p + 1, sp_price = price, sp_volume = volume,
          sp_average_price = price / volume\<rparr>)"

definition compute_spread_with :: "summary_part \<Rightarrow> summary_part \<Rightarrow> double" where
  "compute_spread_with p q = \<bar>sp_price p - sp_price q\<bar> / (sp_volume p + sp_volume q)"

record trade_summary =
  ts_span :: timestamp_span
  ts_buys :: summary_part
  ts_sells :: summary_part
  ts_spread :: double
  ts_average_price :: double

definition mk_trade_summary :: trade_summary where
  "mk_trade_summary = \<lparr>ts_span = mk_span, ts_buys = mk_summary_part, ts_sells = mk_summary_part,
     ts_spread = NAN, ts_average_price = NAN\<rparr>"

text \<open>The first two statements of \<open>TradeSummary::operator +=\<close>, which widen the span.\<close>

definition widen_span :: "timestamp_span \<Rightarrow> timestamp \<Rightarrow> timestamp_span" where
  "widen_span s x =
     (let s1 = (if isnan (span_from s) \<or> x < span_from s then s\<lparr>span_from := x\<rparr> else s)
      in if isnan (span_to s1) \<or> span_to s1 < x then s1\<lparr>span_to := x\<rparr> else s1)"

definition trade_summary_add :: "trade_summary \<Rightarrow> trade \<Rightarrow> trade_summary" where
  "trade_summary_add s t =
     (let span = widen_span (ts_span s) (t_timestamp t);
          half = trade_div t (lit 2);
          (buys, sells) =
            (case t_type t of
               BUY \<Rightarrow> (summary_part_add (ts_buys s) t, ts_sells s)
             | SELL \<Rightarrow> (ts_buys s, summary_part_add (ts_sells s) t)
             | UNDEFINED \<Rightarrow> (summary_part_add (ts_buys s) half, summary_part_add (ts_sells s) half))
      in \<lparr>ts_span = span, ts_buys = buys, ts_sells = sells,
          ts_spread = compute_spread_with buys sells,
          ts_average_price = (sp_price buys + sp_price sells) / (sp_volume buys + sp_volume sells)\<rparr>)"

section \<open>Lemmas\<close>

subsection \<open>Byte layout\<close>

lemma length_le_bytes [simp]: "length (le_bytes n v) = n"
  by (induction n arbitrary: v) auto

lemma le_bytes_inj: "le_bytes n v = le_bytes n w \<Longrightarrow> v mod 256 ^ n = w mod 256 ^ n"
proof (induction n arbitrary: v w)
  case (Suc n)
  from Suc.prems have w: "(word_of_int v :: byte) = word_of_int w" and r: "le_bytes n (v div 256) = le_bytes n (w div 256)"
    by simp_all
  have h: "v mod 256 = w mod 256" using w by (simp add: word_of_int_eq_iff take_bit_eq_mod)
  have t: "(v div 256) mod 256 ^ n = (w div 256) mod 256 ^ n" by (rule Suc.IH[OF r])
  show ?case
    using h t by (simp add: zmod_zmult2_eq mult.commute)
qed simp

lemma length_bytes [simp]:
  "length (u64_bytes w) = 8" "length (i32_bytes i) = 4" "length (double_bytes x) = 8"
  by (simp_all add: u64_bytes_def i32_bytes_def double_bytes_def)

lemma u64_bytes_inj [simp]: "u64_bytes v = u64_bytes w \<longleftrightarrow> v = w"
proof
  assume "u64_bytes v = u64_bytes w"
  then have "uint v mod 256 ^ 8 = uint w mod 256 ^ 8"
    unfolding u64_bytes_def by (rule le_bytes_inj)
  then show "v = w" using uint_bounded[of v] uint_bounded[of w] by (simp add: word_uint_eq_iff)
qed simp

lemma double_bytes_inj [simp]: "double_bytes x = double_bytes y \<longleftrightarrow> x = y"
  by (cases x; cases y) (simp add: double_bytes_def)

lemma action_bytes_inj [simp]: "i32_bytes (action_int a) = i32_bytes (action_int b) \<longleftrightarrow> a = b"
proof
  assume "i32_bytes (action_int a) = i32_bytes (action_int b)"
  then have "action_int a mod 256 ^ 4 = action_int b mod 256 ^ 4"
    unfolding i32_bytes_def by (rule le_bytes_inj)
  then show "a = b" by (cases a; cases b) simp_all
qed simp

lemma length_trade_bytes [simp]: "length (trade_bytes t) = 60"
  by (simp add: trade_bytes_def)

lemma length_order_bytes [simp]: "length (order_bytes r) = 36"
  by (simp add: order_bytes_def)

lemma trade_bytes_inj: "trade_bytes a = trade_bytes b \<longleftrightarrow> a = b"
  by (cases a; cases b) (auto simp: trade_bytes_def append_eq_append_conv)

lemma order_bytes_inj: "order_bytes a = order_bytes b \<longleftrightarrow> a = b"
  by (cases a; cases b) (auto simp: order_bytes_def append_eq_append_conv)

subsection \<open>memcmp is a strict total order on blocks of one size\<close>

lemma memcmp_range: "memcmp as bs \<in> {-1, 0, 1}"
  by (induction as bs rule: memcmp.induct) auto

lemma memcmp_0: "length as = length bs \<Longrightarrow> memcmp as bs = 0 \<longleftrightarrow> as = bs"
  by (induction as bs rule: list_induct2) auto

lemma memcmp_swap: "memcmp bs as = - memcmp as bs"
  by (induction as bs rule: memcmp.induct) auto

lemma memcmp_trans:
  "length as = length bs \<Longrightarrow> length bs = length cs \<Longrightarrow> memcmp as bs < 0 \<Longrightarrow> memcmp bs cs < 0 \<Longrightarrow> memcmp as cs < 0"
proof (induction as bs cs rule: list_induct3)
  case (Cons a as b bs c cs)
  then show ?case by (cases "a < b"; cases "b < c"; cases "b < a"; cases "c < b"; force)
qed simp

lemma memcmp_total_order:
  assumes "\<And>x y. bytes x = bytes y \<longleftrightarrow> x = y" "\<And>x. length (bytes x) = n"
  shows "total_order (\<lambda>x y. memcmp (bytes x) (bytes y) < 0) (\<lambda>_. True)"
proof
  fix x y z
  show "\<not> memcmp (bytes x) (bytes x) < 0" using memcmp_0[of "bytes x" "bytes x"] by simp
  show "memcmp (bytes x) (bytes z) < 0"
    if "memcmp (bytes x) (bytes y) < 0" "memcmp (bytes y) (bytes z) < 0"
    by (rule memcmp_trans[OF _ _ that]) (simp_all add: assms(2))
  show "x = y" if "\<not> memcmp (bytes x) (bytes y) < 0" "\<not> memcmp (bytes y) (bytes x) < 0" for x y
    using that memcmp_swap[of "bytes x" "bytes y"] memcmp_0[of "bytes x" "bytes y"] assms by simp
  show "memcmp (bytes x) (bytes y) < 0 \<or> memcmp (bytes y) (bytes z) < 0"
    if "memcmp (bytes x) (bytes z) < 0"
  proof (rule ccontr)
    assume n: "\<not> ?thesis"
    then have "y = x \<or> memcmp (bytes y) (bytes x) < 0" "z = y \<or> memcmp (bytes z) (bytes y) < 0"
      using memcmp_swap[of "bytes x" "bytes y"] memcmp_0[of "bytes x" "bytes y"]
        memcmp_swap[of "bytes y" "bytes z"] memcmp_0[of "bytes y" "bytes z"] assms by auto
    then have "z = x \<or> memcmp (bytes z) (bytes x) < 0"
      using memcmp_trans[of "bytes z" "bytes y" "bytes x"] assms(2) by auto
    then show False
      using that memcmp_swap[of "bytes x" "bytes z"] memcmp_0[of "bytes x" "bytes x"] by auto
  qed
qed

interpretation trade_ord: total_order trade_less "\<lambda>_. True"
  unfolding trade_less_def[abs_def] by (rule memcmp_total_order[OF trade_bytes_inj length_trade_bytes])

interpretation order_ord: total_order order_less "\<lambda>_. True"
  unfolding order_less_def[abs_def] by (rule memcmp_total_order[OF order_bytes_inj length_order_bytes])

text \<open>The order on decisions is a weak order with two classes only.\<close>

interpretation decision_ord: weak_order decision_less "\<lambda>_. True"
  by unfold_locales (auto simp: decision_less_def)

lemma trade_eq_iff: "trade_eq a b \<longleftrightarrow> a = b"
  by (simp add: trade_eq_def memcmp_0 trade_bytes_inj)

lemma order_eq_iff: "order_eq a b \<longleftrightarrow> a = b"
  by (simp add: order_eq_def memcmp_0 order_bytes_inj)

lemma decision_ne_refl: "\<not> decision_ne d d"
  by (simp add: decision_ne_def memcmp_0)

section \<open>Properties\<close>

text \<open>
  Comparing the packed bytes of two trades or orders is comparing their fields: equality
  of bytes is equality, and the comparison is a strict total order.
\<close>

theorem packed_comparison:
  "(trade_eq a b \<longleftrightarrow> a = b) \<and> \<not> trade_less a a \<and> (trade_less a b \<or> trade_less b a \<or> a = b) \<and>
   (trade_less a b \<and> trade_less b c \<longrightarrow> trade_less a c) \<and>
   (order_eq r s \<longleftrightarrow> r = s) \<and> \<not> order_less r r \<and> (order_less r s \<or> order_less s r \<or> r = s) \<and>
   (order_less r s \<and> order_less s u \<longrightarrow> order_less r u)"
  using trade_ord.irrefl trade_ord.trans trade_ord.total order_ord.irrefl order_ord.trans order_ord.total
    trade_eq_iff order_eq_iff
  by blast

theorem packed_comparison_witness:
  "trade_less (mk_trade 0) ((mk_trade 0)\<lparr>t_sell_order_id := 2\<rparr>)"
proof -
  have "trade_less (mk_trade 0) ((mk_trade 0)\<lparr>t_sell_order_id := 1\<rparr>)"
    "trade_less ((mk_trade 0)\<lparr>t_sell_order_id := 1\<rparr>) ((mk_trade 0)\<lparr>t_sell_order_id := 2\<rparr>)"
    by code_simp+
  with packed_comparison[of "mk_trade 0" "(mk_trade 0)\<lparr>t_sell_order_id := 1\<rparr>" "(mk_trade 0)\<lparr>t_sell_order_id := 2\<rparr>"]
  show ?thesis by blast
qed

lemma hash_fold_xor: "foldl (\<lambda>r i. r XOR f i) (g :: uint64) xs = g XOR foldl (\<lambda>r i. r XOR f i) 0 xs"
proof (induction xs rule: rev_induct)
  case (snoc x xs)
  then show ?case by (simp add: xor.assoc)
qed simp

lemma hash_bytes_xor: "hash_bytes g bs = g XOR hash_bytes 0 bs"
  using hash_fold_xor[of "\<lambda>i. word_at bs (8 * i)" g "[0..<length bs div 8]"]
  by (simp add: hash_bytes_def Let_def xor.assoc)

lemma xor_cancel: "(a :: uint64) XOR c = b XOR c \<longleftrightarrow> a = b"
proof
  assume "a XOR c = b XOR c"
  then have "(a XOR c) XOR c = (b XOR c) XOR c" by simp
  then show "a = b" by (simp add: xor.assoc)
qed simp

text \<open>
  The hash of a trade, an order or a decision is the exclusive or of a function of its
  bytes and of the accumulator the code leaves uninitialised, so two hashes of one trade
  agree exactly when the accumulator held the same garbage.
\<close>

theorem hash_garbage:
  "(trade_hash g t = trade_hash g' t \<longleftrightarrow> g = g') \<and>
   (order_hash g r = order_hash g' r \<longleftrightarrow> g = g') \<and>
   (decision_hash g d = decision_hash g' d \<longleftrightarrow> g = g')"
  unfolding trade_hash_def order_hash_def decision_hash_def
    hash_bytes_xor[of g] hash_bytes_xor[of g'] by (simp add: xor_cancel)

end
