(* ===== verification/History.thy ===== *)
theory History
  imports Models
begin

text \<open>
  The abstract class \<open>History\<close> of \<open>src/history/History.hpp\<close>: its virtual methods as a
  record of functions over the type of a concrete history, the methods it implements itself
  as functions of what the virtual ones return, and the synchronisation of two histories.

  A getter that returns a \<open>Range\<close> is modelled by the items a loop over that range visits;
  \<open>None\<close> stands for undefined behaviour.
\<close>

section \<open>The virtual methods\<close>

record 'h history_ops =
  feed_balance_change :: "'h \<Rightarrow> balance_change \<Rightarrow> 'h"
  feed_trade :: "'h \<Rightarrow> trade \<Rightarrow> 'h"
  feed_order :: "'h \<Rightarrow> order \<Rightarrow> 'h"
  feed_decision :: "'h \<Rightarrow> decision \<Rightarrow> 'h"
  get_balance_changes :: "'h \<Rightarrow> balance_change list option"
  get_trades :: "'h \<Rightarrow> trade list option"
  get_orders :: "'h \<Rightarrow> order list option"
  get_decisions :: "'h \<Rightarrow> decision list option"
  get_balance_at_timestamp :: "'h \<Rightarrow> timestamp \<Rightarrow> balance option"
  get_trades_by_timestamp :: "'h \<Rightarrow> timestamp \<Rightarrow> timestamp \<Rightarrow> trade list option"
  get_decisions_by_timestamp :: "'h \<Rightarrow> timestamp \<Rightarrow> timestamp \<Rightarrow> decision list option"
  get_time_span :: "'h \<Rightarrow> timestamp_span option"

text \<open>The overloads of \<open>feed\<close> as one operation on the items a history takes.\<close>

datatype item =
  Balance_item balance_change
| Trade_item trade
| Order_item order
| Decision_item decision

fun feed_item :: "'h history_ops \<Rightarrow> 'h \<Rightarrow> item \<Rightarrow> 'h" where
  "feed_item ops h (Balance_item bc) = feed_balance_change ops h bc"
| "feed_item ops h (Trade_item t) = feed_trade ops h t"
| "feed_item ops h (Order_item r) = feed_order ops h r"
| "feed_item ops h (Decision_item d) = feed_decision ops h d"

text \<open>What a sequence of items holds of each kind.\<close>

fun balance_changes_of :: "item list \<Rightarrow> balance_change list" where
  "balance_changes_of [] = []"
| "balance_changes_of (Balance_item bc # is) = bc # balance_changes_of is"
| "balance_changes_of (_ # is) = balance_changes_of is"

fun trades_of :: "item list \<Rightarrow> trade list" where
  "trades_of [] = []"
| "trades_of (Trade_item t # is) = t # trades_of is"
| "trades_of (_ # is) = trades_of is"

fun orders_of :: "item list \<Rightarrow> order list" where
  "orders_of [] = []"
| "orders_of (Order_item r # is) = r # orders_of is"
| "orders_of (_ # is) = orders_of is"

fun decisions_of :: "item list \<Rightarrow> decision list" where
  "decisions_of [] = []"
| "decisions_of (Decision_item d # is) = d # decisions_of is"
| "decisions_of (_ # is) = decisions_of is"

section \<open>The methods of the base class\<close>

text \<open>
  \<open>get_balance_at_timestamp\<close>: one pass over the balance changes. The loop compares with
  \<open>result_timestamp\<close>, which it never assigns.
\<close>

definition base_balance_step ::
  "timestamp \<Rightarrow> timestamp \<times> balance \<Rightarrow> balance_change \<Rightarrow> timestamp \<times> balance" where
  "base_balance_step timestamp r bc =
     (case r of (result_timestamp, result_balance) \<Rightarrow>
       if isnan result_timestamp \<or>
          (timestamp \<le> bc_timestamp bc \<and> bc_timestamp bc < result_timestamp)
       then (result_timestamp, bc_consolidated bc)
       else (result_timestamp, result_balance))"

definition base_balance_at_timestamp :: "balance_change list \<Rightarrow> timestamp \<Rightarrow> balance" where
  "base_balance_at_timestamp changes timestamp =
     snd (foldl (base_balance_step timestamp) (NAN, mk_balance) changes)"

text \<open>The lambdas that the base class filters by.\<close>

definition trade_between :: "timestamp \<Rightarrow> timestamp \<Rightarrow> trade \<Rightarrow> bool" where
  "trade_between b e t = (b < t_timestamp t \<and> t_timestamp t \<le> e)"

definition decision_between :: "timestamp \<Rightarrow> timestamp \<Rightarrow> decision \<Rightarrow> bool" where
  "decision_between b e d = (b < d_timestamp d \<and> d_timestamp d \<le> e)"

definition base_trades_by_timestamp ::
  "('s, trade) range_data \<Rightarrow> timestamp \<Rightarrow> timestamp \<Rightarrow> ('s, trade) range" where
  "base_trades_by_timestamp rd b e = range_filter rd (trade_between b e)"

definition base_decisions_by_timestamp ::
  "('s, decision) range_data \<Rightarrow> timestamp \<Rightarrow> timestamp \<Rightarrow> ('s, decision) range" where
  "base_decisions_by_timestamp rd b e = range_filter rd (decision_between b e)"

definition summarize :: "trade list \<Rightarrow> trade_summary" where
  "summarize trades = foldl trade_summary_add mk_trade_summary trades"

definition trade_summary_of :: "'h history_ops \<Rightarrow> 'h \<Rightarrow> timestamp \<Rightarrow> timestamp \<Rightarrow> trade_summary option" where
  "trade_summary_of ops h b e = map_option summarize (get_trades_by_timestamp ops h b e)"

definition base_time_span :: "trade list \<Rightarrow> timestamp_span" where
  "base_time_span trades = foldl (\<lambda>s t. widen_span s (t_timestamp t)) mk_span trades"

text \<open>The extreme prices of the decided trades of one type, which \<open>plot\<close> draws in red and blue.\<close>

definition plot_price_step :: "action_type \<Rightarrow> double \<times> double \<Rightarrow> trade \<Rightarrow> double \<times> double" where
  "plot_price_step type r t =
     (case r of (price_min, price_max) \<Rightarrow>
       if t_decision_id t = 0 \<or> t_type t \<noteq> type then r
       else ((if isnan price_min \<or> t_price t < price_min then t_price t else price_min),
             (if isnan price_max \<or> price_max < t_price t then t_price t else price_max)))"

definition plot_price_range :: "action_type \<Rightarrow> trade list \<Rightarrow> double \<times> double" where
  "plot_price_range type trades = foldl (plot_price_step type) (NAN, NAN) trades"

section \<open>Synchronisation\<close>

text \<open>
  \<open>synchronize_with<T>\<close>. The first pass collects the instances of history 1 in a set, the
  second walks over history 2: an instance found in the first set is erased from it, another
  one enters the second set. Then each history is fed the other's specific instances, in the
  order of the set.
\<close>

definition sync_scan :: "('a \<Rightarrow> 'a \<Rightarrow> bool) \<Rightarrow> 'a list \<times> 'a list \<Rightarrow> 'a \<Rightarrow> 'a list \<times> 'a list" where
  "sync_scan lt r x =
     (case r of (specific_1, specific_2) \<Rightarrow>
       case set_find lt x specific_1 of
         None \<Rightarrow> (specific_1, set_insert lt x specific_2)
       | Some y \<Rightarrow> (set_erase lt y specific_1, specific_2))"

definition sync_specific :: "('a \<Rightarrow> 'a \<Rightarrow> bool) \<Rightarrow> 'a list \<Rightarrow> 'a list \<Rightarrow> 'a list \<times> 'a list" where
  "sync_specific lt items_1 items_2 =
     foldl (sync_scan lt) (foldl (\<lambda>s x. set_insert lt x s) [] items_1, []) items_2"

definition synchronize ::
  "('a \<Rightarrow> 'a \<Rightarrow> bool) \<Rightarrow> ('h \<Rightarrow> 'a list option) \<Rightarrow> ('h \<Rightarrow> 'a \<Rightarrow> 'h) \<Rightarrow>
   ('g \<Rightarrow> 'a list option) \<Rightarrow> ('g \<Rightarrow> 'a \<Rightarrow> 'g) \<Rightarrow> 'h \<Rightarrow> 'g \<Rightarrow> ((nat \<times> nat) \<times> 'h \<times> 'g) option" where
  "synchronize lt get_1 feed_1 get_2 feed_2 h1 h2 =
     Option.bind (get_1 h1) (\<lambda>items_1.
     Option.bind (get_2 h2) (\<lambda>items_2.
       let (specific_1, specific_2) = sync_specific lt items_1 items_2
       in Some ((length specific_1, length specific_2),
                foldl feed_1 h1 specific_2, foldl feed_2 h2 specific_1)))"

record sync_result =
  sync_trades :: "nat \<times> nat"
  sync_orders :: "nat \<times> nat"
  sync_decisions :: "nat \<times> nat"
  sync_balance_changes :: "nat \<times> nat"

text \<open>
  \<open>synchronize_with\<close>: trades, orders and decisions, in this order; the balance changes are
  left alone and their pair keeps its zeros.
\<close>

definition synchronize_with ::
  "'h history_ops \<Rightarrow> 'g history_ops \<Rightarrow> 'h \<Rightarrow> 'g \<Rightarrow> (sync_result \<times> 'h \<times> 'g) option" where
  "synchronize_with o1 o2 h1 h2 =
     Option.bind (synchronize trade_less (get_trades o1) (feed_trade o1) (get_trades o2) (feed_trade o2) h1 h2)
       (\<lambda>(t, h1, h2).
     Option.bind (synchronize order_less (get_orders o1) (feed_order o1) (get_orders o2) (feed_order o2) h1 h2)
       (\<lambda>(r, h1, h2).
     Option.bind (synchronize decision_less (get_decisions o1) (feed_decision o1)
         (get_decisions o2) (feed_decision o2) h1 h2)
       (\<lambda>(d, h1, h2).
     Some (\<lparr>sync_trades = t, sync_orders = r, sync_decisions = d, sync_balance_changes = (0, 0)\<rparr>, h1, h2))))"

section \<open>Base-class lemmas\<close>

lemma balance_changes_of_append [simp]:
  "balance_changes_of (is @ js) = balance_changes_of is @ balance_changes_of js"
  by (induction "is" rule: balance_changes_of.induct) simp_all

lemma trades_of_append [simp]: "trades_of (is @ js) = trades_of is @ trades_of js"
  by (induction "is" rule: trades_of.induct) simp_all

lemma orders_of_append [simp]: "orders_of (is @ js) = orders_of is @ orders_of js"
  by (induction "is" rule: orders_of.induct) simp_all

lemma decisions_of_append [simp]: "decisions_of (is @ js) = decisions_of is @ decisions_of js"
  by (induction "is" rule: decisions_of.induct) simp_all

lemma base_balance_fold:
  "foldl (base_balance_step ts) (NAN, b) changes =
     (NAN, if changes = [] then b else bc_consolidated (last changes))"
  by (induction changes arbitrary: b) (auto simp: base_balance_step_def)

lemma base_balance_last:
  "base_balance_at_timestamp changes ts =
     (if changes = [] then mk_balance else bc_consolidated (last changes))"
  by (simp add: base_balance_at_timestamp_def base_balance_fold)

subsection \<open>Time spans\<close>

lemma isnan_mk_span [simp]: "isnan (span_from mk_span)" "isnan (span_to mk_span)"
  by (simp_all add: mk_span_def)

text \<open>The span of a nonempty list of timestamps that are numbers is attained and encloses them all.\<close>

definition spans :: "timestamp_span \<Rightarrow> timestamp set \<Rightarrow> bool" where
  "spans s X \<longleftrightarrow> span_from s \<in> X \<and> span_to s \<in> X \<and> (\<forall>x \<in> X. span_from s \<le> x \<and> x \<le> span_to s)"

lemma le_refl_not_nan: "\<not> isnan x \<Longrightarrow> (x :: double) \<le> x"
  by (simp add: le_key)

lemma widen_spans:
  assumes "spans s X" "\<forall>y \<in> X. \<not> isnan y" "\<not> isnan x"
  shows "spans (widen_span s x) (insert x X)"
proof -
  have nn: "\<not> isnan (span_from s)" "\<not> isnan (span_to s)"
    using assms by (auto simp: spans_def)
  have le: "d_key (span_from s) \<le> d_key y" "d_key y \<le> d_key (span_to s)" if "y \<in> X" for y
    using assms nn that by (auto simp: spans_def le_key)
  have b: "d_key (span_from s) \<le> d_key (span_to s)"
    using assms le by (auto simp: spans_def)
  show ?thesis
    using assms nn le b
    by (cases "x < span_from s"; cases "span_to s < x")
      (auto simp: widen_span_def spans_def le_key less_key Let_def, (meson le less_imp_le order.trans)+)
qed

lemma widen_fold_spans:
  assumes "xs \<noteq> []" "\<forall>x \<in> set xs. \<not> isnan x"
  shows "spans (foldl widen_span mk_span xs) (set xs)"
  using assms
proof (induction xs rule: rev_induct)
  case (snoc x xs)
  show ?case
  proof (cases "xs = []")
    case True
    then show ?thesis using snoc.prems
      by (simp add: widen_span_def spans_def le_refl_not_nan)
  next
    case False
    then show ?thesis using snoc widen_spans[of "foldl widen_span mk_span xs" "set xs" x] by simp
  qed
qed simp

lemma base_time_span_map: "base_time_span trades = foldl widen_span mk_span (map t_timestamp trades)"
  by (simp add: base_time_span_def foldl_map)

subsection \<open>Trade summaries\<close>

lemma summary_span: "ts_span (trade_summary_add s t) = widen_span (ts_span s) (t_timestamp t)"
  by (simp add: trade_summary_add_def Let_def split: prod.split)

lemma summarize_span: "ts_span (summarize trades) = base_time_span trades"
proof -
  have "ts_span (foldl trade_summary_add s trades) =
      foldl (\<lambda>s t. widen_span s (t_timestamp t)) (ts_span s) trades" for s
    by (induction trades arbitrary: s) (simp_all add: summary_span)
  then show ?thesis by (simp add: summarize_def base_time_span_def mk_trade_summary_def)
qed

lemma summary_counts:
  "sp_count (ts_buys (trade_summary_add s t)) = sp_count (ts_buys s) + of_bool (t_type t \<noteq> SELL)"
  "sp_count (ts_sells (trade_summary_add s t)) = sp_count (ts_sells s) + of_bool (t_type t \<noteq> BUY)"
  by (cases "t_type t"; simp add: trade_summary_add_def summary_part_add_def Let_def)+

lemma summarize_counts:
  "sp_count (ts_buys (summarize trades)) = of_nat (length (filter (\<lambda>t. t_type t \<noteq> SELL) trades))"
  "sp_count (ts_sells (summarize trades)) = of_nat (length (filter (\<lambda>t. t_type t \<noteq> BUY) trades))"
  unfolding summarize_def
  by (induction trades rule: rev_induct)
    (simp_all add: mk_trade_summary_def mk_summary_part_def summary_counts)

text \<open>The parts a summary accumulates: each trade of its side whole, an undefined one halved.\<close>

definition side_parts :: "action_type \<Rightarrow> trade list \<Rightarrow> trade list" where
  "side_parts side trades =
     map (\<lambda>t. if t_type t = UNDEFINED then trade_div t (lit 2) else t)
       (filter (\<lambda>t. t_type t = side \<or> t_type t = UNDEFINED) trades)"

lemma summarize_parts:
  "ts_buys (summarize trades) = foldl summary_part_add mk_summary_part (side_parts BUY trades)"
  "ts_sells (summarize trades) = foldl summary_part_add mk_summary_part (side_parts SELL trades)"
  unfolding summarize_def
proof (induction trades rule: rev_induct)
  case (snoc t trades)
  {
    case 1
    then show ?case using snoc by (cases "t_type t") (simp_all add: trade_summary_add_def side_parts_def Let_def)
  next
    case 2
    then show ?case using snoc by (cases "t_type t") (simp_all add: trade_summary_add_def side_parts_def Let_def)
  }
qed (simp_all add: mk_trade_summary_def side_parts_def)

lemma summarize_average:
  "trades \<noteq> [] \<Longrightarrow> ts_average_price (summarize trades) =
     (sp_price (ts_buys (summarize trades)) + sp_price (ts_sells (summarize trades))) /
     (sp_volume (ts_buys (summarize trades)) + sp_volume (ts_sells (summarize trades)))"
  unfolding summarize_def
  by (cases trades rule: rev_cases) (simp_all add: trade_summary_add_def Let_def split: prod.split)

section \<open>What a synchronisation exchanges\<close>

context total_order
begin

lemma sync_specific_sets:
  fixes xs ys
  assumes "\<And>x. ok x"
  defines "r \<equiv> sync_specific lt xs ys"
  shows "set (fst r) = set xs - set ys"
    and "set (snd r) = {y \<in> set ys. y \<notin> set xs \<or> 2 \<le> count_list ys y}"
    and "distinct (fst r)" and "distinct (snd r)"
proof -
  let ?s = "foldl (\<lambda>s x. set_insert lt x s) [] xs"
  have s: "set_sorted lt ?s" "set ?s = set xs"
  proof -
    show "set_sorted lt ?s" using set_fold_insert[of xs] assms(1) by simp
    show "set ?s = set xs"
      by (induction xs rule: rev_induct) (simp_all add: set_insert_total assms(1))
  qed
  have "set (fst r) = set xs - set ys \<and> set (snd r) = {y \<in> set ys. y \<notin> set xs \<or> 2 \<le> count_list ys y} \<and>
      set_sorted lt (fst r) \<and> set_sorted lt (snd r)"
    unfolding r_def sync_specific_def
  proof (induction ys rule: rev_induct)
    case Nil
    then show ?case using s by (simp add: set_sorted_def)
  next
    case (snoc y ys)
    obtain s1 s2 where r: "foldl (sync_scan lt) (?s, []) ys = (s1, s2)" by fastforce
    then have IH: "set s1 = set xs - set ys" "set s2 = {y \<in> set ys. y \<notin> set xs \<or> 2 \<le> count_list ys y}"
      "set_sorted lt s1" "set_sorted lt s2"
      using snoc by auto
    have find: "set_find lt y s1 = (if y \<in> set s1 then Some y else None)"
      by (rule set_find_total) (simp_all add: assms(1))
    have cnt: "count_list ys y = 0 \<longleftrightarrow> y \<notin> set ys" by (rule count_list_0_iff)
    show ?case
    proof (cases "y \<in> set s1")
      case True
      have e: "foldl (sync_scan lt) (?s, []) (ys @ [y]) = (set_erase lt y s1, s2)"
        using r find True by (simp add: sync_scan_def)
      have "{z \<in> set (ys @ [y]). z \<notin> set xs \<or> 2 \<le> count_list (ys @ [y]) z} = set s2"
        using True IH(1,2) cnt by (auto split: if_splits)
      then show ?thesis
        using set_erase_total[OF IH(3), of y] IH(1,4) assms(1) unfolding e by auto
    next
      case False
      have e: "foldl (sync_scan lt) (?s, []) (ys @ [y]) = (s1, set_insert lt y s2)"
        using r find False by (simp add: sync_scan_def)
      have "y \<notin> set xs \<or> 1 \<le> count_list ys y" using False IH(1) cnt by (cases "count_list ys y") auto
      then have "{z \<in> set (ys @ [y]). z \<notin> set xs \<or> 2 \<le> count_list (ys @ [y]) z} = insert y (set s2)"
        using IH(2) by (auto split: if_splits)
      moreover have "set xs - set (ys @ [y]) = set s1" using False IH(1) by auto
      ultimately show ?thesis
        using IH(3,4) set_insert_total[of s2 y] set_sorted_insert[OF IH(4), of y] assms(1) unfolding e by simp
    qed
  qed
  then show "set (fst r) = set xs - set ys"
    and "set (snd r) = {y \<in> set ys. y \<notin> set xs \<or> 2 \<le> count_list ys y}"
    and "distinct (fst r)" and "distinct (snd r)"
    using set_sorted_distinct assms(1) by auto
qed

end

text \<open>
  The contract of a history for one kind of item: the items it gives back are those it was
  fed, in order.
\<close>

locale history_store =
  fixes get :: "'h \<Rightarrow> 'a list option" and feed :: "'h \<Rightarrow> 'a \<Rightarrow> 'h"
  assumes get_defined: "\<exists>xs. get h = Some xs"
    and get_feed: "get h = Some xs \<Longrightarrow> get (feed h x) = Some (xs @ [x])"
begin

lemma get_feeds: "get h = Some xs \<Longrightarrow> get (foldl feed h ys) = Some (xs @ ys)"
  by (induction ys arbitrary: h xs) (simp_all add: get_feed)

end

locale sync_pair = total_order lt "\<lambda>_. True" + one: history_store get_1 feed_1 + two: history_store get_2 feed_2
  for lt :: "'a \<Rightarrow> 'a \<Rightarrow> bool" and get_1 :: "'h \<Rightarrow> 'a list option" and feed_1
    and get_2 :: "'g \<Rightarrow> 'a list option" and feed_2
begin

lemma sync_result:
  assumes "get_1 h1 = Some xs" "get_2 h2 = Some ys"
  shows "\<exists>a b. synchronize lt get_1 feed_1 get_2 feed_2 h1 h2 =
      Some ((length a, length b), foldl feed_1 h1 b, foldl feed_2 h2 a) \<and>
    distinct a \<and> distinct b \<and> set a = set xs - set ys \<and>
    set b = {y \<in> set ys. y \<notin> set xs \<or> 2 \<le> count_list ys y}"
proof -
  obtain a b where r: "sync_specific lt xs ys = (a, b)" by fastforce
  then show ?thesis
    using assms sync_specific_sets[of xs ys] by (intro exI[of _ a] exI[of _ b]) (simp add: synchronize_def)
qed

lemma sync_same_items:
  assumes "get_1 h1 = Some xs" "get_2 h2 = Some ys"
  shows "\<exists>n h1' h2' xs' ys'. synchronize lt get_1 feed_1 get_2 feed_2 h1 h2 = Some (n, h1', h2') \<and>
    get_1 h1' = Some xs' \<and> get_2 h2' = Some ys' \<and>
    set xs' = set xs \<union> set ys \<and> set ys' = set xs \<union> set ys"
proof -
  obtain a b where r: "synchronize lt get_1 feed_1 get_2 feed_2 h1 h2 =
      Some ((length a, length b), foldl feed_1 h1 b, foldl feed_2 h2 a)"
    "set a = set xs - set ys" "set b = {y \<in> set ys. y \<notin> set xs \<or> 2 \<le> count_list ys y}"
    using sync_result[OF assms] by blast
  then show ?thesis
    using one.get_feeds[OF assms(1), of b] two.get_feeds[OF assms(2), of a] by auto
qed

text \<open>When both histories hold the same items, and history 2 holds none twice, nothing is exchanged.\<close>

lemma sync_idle:
  assumes "get_1 h1 = Some xs" "get_2 h2 = Some ys" "set xs = set ys" "distinct ys"
  shows "synchronize lt get_1 feed_1 get_2 feed_2 h1 h2 = Some ((0, 0), h1, h2)"
proof -
  obtain a b where r: "synchronize lt get_1 feed_1 get_2 feed_2 h1 h2 =
      Some ((length a, length b), foldl feed_1 h1 b, foldl feed_2 h2 a)"
    "set a = set xs - set ys" "set b = {y \<in> set ys. y \<notin> set xs \<or> 2 \<le> count_list ys y}"
    using sync_result[OF assms(1,2)] by blast
  have "\<not> 2 \<le> count_list ys y" for y
    using assms(4) by (induction ys) auto
  then have "set b = {}" using r(3) assms(3) by auto
  moreover have "set a = {}" using r(2) assms(3) by simp
  ultimately show ?thesis using r(1) by simp
qed

end

text \<open>A set of decisions under their own comparison holds at most two elements.\<close>

lemma decision_set_small: "set_sorted decision_less s \<Longrightarrow> length s \<le> 2"
  by (cases s; cases "tl s"; cases "tl (tl s)") (auto simp: set_sorted_def decision_less_def)

lemma length_set_erase: "length (set_erase lt x s) \<le> length s"
  by (induction s) auto

lemma decision_specific_small:
  "length (fst (sync_specific decision_less xs ys)) \<le> 2 \<and> length (snd (sync_specific decision_less xs ys)) \<le> 2"
proof -
  let ?s = "foldl (\<lambda>s x. set_insert decision_less x s) [] xs"
  have s: "length ?s \<le> 2" using decision_set_small decision_ord.set_fold_insert[of xs] by simp
  have "length (fst (foldl (sync_scan decision_less) (?s, []) ys)) \<le> 2 \<and>
      set_sorted decision_less (snd (foldl (sync_scan decision_less) (?s, []) ys))"
  proof (induction ys rule: rev_induct)
    case (snoc y ys)
    obtain a b where r: "foldl (sync_scan decision_less) (?s, []) ys = (a, b)" by fastforce
    then have "length a \<le> 2" "set_sorted decision_less b" using snoc by auto
    have step: "foldl (sync_scan decision_less) (?s, []) (ys @ [y]) = sync_scan decision_less (a, b) y"
      by (simp add: r)
    show ?case
      using \<open>length a \<le> 2\<close> \<open>set_sorted decision_less b\<close> unfolding step
      using length_set_erase[of decision_less _ a] decision_ord.set_sorted_insert[of b y]
      by (auto simp: sync_scan_def split: option.split intro: order.trans)
  qed (use s in \<open>simp add: set_sorted_def\<close>)
  then show ?thesis unfolding sync_specific_def using decision_set_small by simp
qed

section \<open>Properties\<close>

text \<open>
  Synchronising decisions hands over at most two decisions in each direction, however many
  the histories hold: the set that collects them orders decisions by their conversion to
  \<open>bool\<close>, so it cannot hold more.
\<close>

theorem decisions_truncated:
  "case synchronize decision_less get_1 feed_1 get_2 feed_2 h1 h2 of
     None \<Rightarrow> get_1 h1 = None \<or> get_2 h2 = None
   | Some ((n, m), h1', h2') \<Rightarrow> n \<le> 2 \<and> m \<le> 2"
proof (cases "get_1 h1"; cases "get_2 h2")
  fix xs ys
  assume "get_1 h1 = Some xs" "get_2 h2 = Some ys"
  then show ?thesis
    using decision_specific_small[of xs ys] by (simp add: synchronize_def Let_def case_prod_beta)
qed (simp_all add: synchronize_def)

text \<open>
  C17: The summary of a list of trades counts each buy and each sell once and each undefined
  trade on both sides, accumulates each side over its trades in order with the undefined ones
  halved, and spans their timestamps.
\<close>

theorem summarize_correct:
  "sp_count (ts_buys (summarize trades)) = of_nat (length (filter (\<lambda>t. t_type t \<noteq> SELL) trades)) \<and>
   sp_count (ts_sells (summarize trades)) = of_nat (length (filter (\<lambda>t. t_type t \<noteq> BUY) trades)) \<and>
   ts_buys (summarize trades) = foldl summary_part_add mk_summary_part (side_parts BUY trades) \<and>
   ts_sells (summarize trades) = foldl summary_part_add mk_summary_part (side_parts SELL trades) \<and>
   ts_span (summarize trades) = base_time_span trades"
  by (intro conjI summarize_counts summarize_parts summarize_span)

text \<open>
  The base class's \<open>get_balance_at_timestamp\<close> ignores the timestamp it is asked for and
  returns the consolidated balance of the last change, because its loop never assigns the
  timestamp it compares with.
\<close>

theorem base_balance_ignores_time:
  "base_balance_at_timestamp changes ts =
     (if changes = [] then mk_balance else bc_consolidated (last changes))"
  by (rule base_balance_last)

end
