(* ===== verification/Memory_History.thy ===== *)
theory Memory_History
  imports History
begin

text \<open>
  The history in memory of \<open>src/history/MemoryHistory.hpp\<close>: vectors of what it was fed and
  multimaps that index them by timestamp or identifier. It provides the contracts that the
  synchronisation of \<open>src/history/History.hpp\<close> asks of a history.
\<close>

section \<open>State and feeding\<close>

record memory_history =
  mh_balance_changes :: "balance_change list"
  mh_balance_changes_by_timestamp :: "(timestamp, balance_change) multimap"
  mh_trades :: "trade list"
  mh_trades_by_id :: "(uint64, trade) multimap"
  mh_trades_by_timestamp :: "(timestamp, trade) multimap"
  mh_orders :: "order list"
  mh_orders_by_id :: "(uint64, order) multimap"
  mh_decisions :: "decision list"
  mh_decisions_by_timestamp :: "(timestamp, decision) multimap"

definition mh_empty :: memory_history where
  "mh_empty = \<lparr>mh_balance_changes = [], mh_balance_changes_by_timestamp = [],
     mh_trades = [], mh_trades_by_id = [], mh_trades_by_timestamp = [],
     mh_orders = [], mh_orders_by_id = [], mh_decisions = [], mh_decisions_by_timestamp = []\<rparr>"

definition mh_feed_balance_change :: "memory_history \<Rightarrow> balance_change \<Rightarrow> memory_history" where
  "mh_feed_balance_change h bc =
     h\<lparr>mh_balance_changes_by_timestamp :=
         mm_insert (<) (bc_timestamp bc) bc (mh_balance_changes_by_timestamp h),
       mh_balance_changes := mh_balance_changes h @ [bc]\<rparr>"

definition mh_feed_trade :: "memory_history \<Rightarrow> trade \<Rightarrow> memory_history" where
  "mh_feed_trade h t =
     h\<lparr>mh_trades_by_id := mm_insert (<) (t_id t) t (mh_trades_by_id h),
       mh_trades_by_timestamp := mm_insert (<) (t_timestamp t) t (mh_trades_by_timestamp h),
       mh_trades := mh_trades h @ [t]\<rparr>"

text \<open>An order enters the index by identifier only, not the vector \<open>_orders\<close>.\<close>

definition mh_feed_order :: "memory_history \<Rightarrow> order \<Rightarrow> memory_history" where
  "mh_feed_order h r = h\<lparr>mh_orders_by_id := mm_insert (<) (o_id r) r (mh_orders_by_id h)\<rparr>"

definition mh_feed_decision :: "memory_history \<Rightarrow> decision \<Rightarrow> memory_history" where
  "mh_feed_decision h d =
     h\<lparr>mh_decisions_by_timestamp :=
         mm_insert (<) (d_timestamp d) d (mh_decisions_by_timestamp h),
       mh_decisions := mh_decisions h @ [d]\<rparr>"

section \<open>Getters\<close>

definition visited :: "('s, 'v) range \<times> 's \<Rightarrow> 'v list option" where
  "visited r = map_option fst (range_items (fst r) (snd r))"

definition mh_get_balance_changes :: "memory_history \<Rightarrow> balance_change list option" where
  "mh_get_balance_changes h = visited (forward_range (mh_balance_changes h))"

definition mh_get_trades :: "memory_history \<Rightarrow> trade list option" where
  "mh_get_trades h = visited (forward_range (mh_trades h))"

definition mh_get_orders :: "memory_history \<Rightarrow> order list option" where
  "mh_get_orders h = visited (forward_range (mh_orders h))"

definition mh_get_decisions :: "memory_history \<Rightarrow> decision list option" where
  "mh_get_decisions h = visited (forward_range (mh_decisions h))"

definition mh_get_trades_by_timestamp ::
  "memory_history \<Rightarrow> timestamp \<Rightarrow> timestamp \<Rightarrow> trade list option" where
  "mh_get_trades_by_timestamp h b e =
     visited (Some (sorted_range_data (<) (\<le>)), sorted_range_between (mh_trades_by_timestamp h) b e)"

definition mh_get_decisions_by_timestamp ::
  "memory_history \<Rightarrow> timestamp \<Rightarrow> timestamp \<Rightarrow> decision list option" where
  "mh_get_decisions_by_timestamp h b e =
     visited (Some (sorted_range_data (<) (\<le>)), sorted_range_between (mh_decisions_by_timestamp h) b e)"

text \<open>
  \<open>get_balance_at_timestamp\<close> decrements iterators. The standard leaves the decrement of
  \<open>begin()\<close> undefined, and what a library does depends on the shape of its tree, so it is \<open>None\<close>;
  the tests for \<open>end()\<close> that follow a decrement never hold.
\<close>

definition mm_prev :: "('k, 'v) multimap \<Rightarrow> nat \<Rightarrow> nat option" where
  "mm_prev m i = (case i of 0 \<Rightarrow> None | Suc j \<Rightarrow> Some j)"

function mh_walk_back ::
  "(timestamp, balance_change) multimap \<Rightarrow> timestamp \<Rightarrow> nat \<Rightarrow> balance option" where
  "mh_walk_back m ts i =
     (if ts < bc_timestamp (snd (m ! i))
      then (case mm_prev m i of
              None \<Rightarrow> None
            | Some j \<Rightarrow> if j = length m then Some mk_balance else mh_walk_back m ts j)
      else Some (bc_consolidated (snd (m ! i))))"
  by pat_completeness auto
termination
  by (relation "measure (\<lambda>(_, _, i). i)") (auto simp: mm_prev_def split: nat.splits if_splits)

declare mh_walk_back.simps [simp del]

definition mh_balance_at_timestamp :: "memory_history \<Rightarrow> timestamp \<Rightarrow> balance option" where
  "mh_balance_at_timestamp h ts =
     (let m = mh_balance_changes_by_timestamp h;
          it = mm_lower_bound (<) m ts
      in Option.bind (if it = length m then mm_prev m (length m) else Some it) (\<lambda>it.
           if it = length m then Some mk_balance else mh_walk_back m ts it))"

definition mh_get_time_span :: "memory_history \<Rightarrow> timestamp_span" where
  "mh_get_time_span h =
     (let m = mh_trades_by_timestamp h;
          s = mk_span;
          s = (if m \<noteq> [] then s\<lparr>span_from := fst (hd m)\<rparr> else s)
      in if m \<noteq> [] then s\<lparr>span_to := fst (last m)\<rparr> else s)"

definition memory_ops :: "memory_history history_ops" where
  "memory_ops =
     \<lparr>feed_balance_change = mh_feed_balance_change, feed_trade = mh_feed_trade,
      feed_order = mh_feed_order, feed_decision = mh_feed_decision,
      get_balance_changes = mh_get_balance_changes, get_trades = mh_get_trades,
      get_orders = mh_get_orders, get_decisions = mh_get_decisions,
      get_balance_at_timestamp = mh_balance_at_timestamp,
      get_trades_by_timestamp = mh_get_trades_by_timestamp,
      get_decisions_by_timestamp = mh_get_decisions_by_timestamp,
      get_time_span = (\<lambda>h. Some (mh_get_time_span h))\<rparr>"

lemma memory_ops_simps [simp]:
  "feed_balance_change memory_ops = mh_feed_balance_change"
  "feed_trade memory_ops = mh_feed_trade"
  "feed_order memory_ops = mh_feed_order"
  "feed_decision memory_ops = mh_feed_decision"
  "get_balance_changes memory_ops = mh_get_balance_changes"
  "get_trades memory_ops = mh_get_trades"
  "get_orders memory_ops = mh_get_orders"
  "get_decisions memory_ops = mh_get_decisions"
  "get_balance_at_timestamp memory_ops = mh_balance_at_timestamp"
  "get_trades_by_timestamp memory_ops = mh_get_trades_by_timestamp"
  "get_decisions_by_timestamp memory_ops = mh_get_decisions_by_timestamp"
  "get_time_span memory_ops = (\<lambda>h. Some (mh_get_time_span h))"
  by (simp_all add: memory_ops_def)

text \<open>A history in memory after it was fed a sequence of items.\<close>

definition mh_run :: "item list \<Rightarrow> memory_history" where
  "mh_run is = foldl (feed_item memory_ops) mh_empty is"

lemmas memory_feed_defs =
  mh_feed_balance_change_def mh_feed_trade_def mh_feed_order_def mh_feed_decision_def

section \<open>The indexes\<close>

text \<open>
  The invariant of the class: every index is the multimap of its vector, and the vector of
  orders is empty.
\<close>

definition mh_inv :: "memory_history \<Rightarrow> bool" where
  "mh_inv h \<longleftrightarrow>
     mh_balance_changes_by_timestamp h = mm_of (<) bc_timestamp (mh_balance_changes h) \<and>
     mh_trades_by_id h = mm_of (<) t_id (mh_trades h) \<and>
     mh_trades_by_timestamp h = mm_of (<) t_timestamp (mh_trades h) \<and>
     mh_decisions_by_timestamp h = mm_of (<) d_timestamp (mh_decisions h) \<and>
     mh_orders h = []"

lemma mh_inv_empty: "mh_inv mh_empty"
  by (simp add: mh_inv_def mh_empty_def mm_of_def)

lemma mh_inv_feed:
  "mh_inv h \<Longrightarrow> mh_inv (mh_feed_balance_change h bc)"
  "mh_inv h \<Longrightarrow> mh_inv (mh_feed_trade h t)"
  "mh_inv h \<Longrightarrow> mh_inv (mh_feed_order h r)"
  "mh_inv h \<Longrightarrow> mh_inv (mh_feed_decision h d)"
  by (simp_all add: mh_inv_def memory_feed_defs mm_of_snoc)

lemma mh_run_snoc: "mh_run (is @ [i]) = feed_item memory_ops (mh_run is) i"
  by (simp add: mh_run_def)

lemma mh_run_fields:
  "mh_inv (mh_run is) \<and> mh_balance_changes (mh_run is) = balance_changes_of is \<and>
   mh_trades (mh_run is) = trades_of is \<and> mh_decisions (mh_run is) = decisions_of is \<and>
   mh_orders_by_id (mh_run is) = mm_of (<) o_id (orders_of is)"
proof (induction "is" rule: rev_induct)
  case Nil
  then show ?case by (simp add: mh_run_def mh_inv_empty) (simp add: mh_empty_def mm_of_def)
next
  case (snoc i "is")
  then show ?case
    by (cases i) (simp_all add: mh_run_snoc mh_inv_feed, simp_all add: memory_feed_defs mm_of_snoc)
qed

lemmas mh_run_inv = mh_run_fields[THEN conjunct1]
  and mh_run_vectors = mh_run_fields[THEN conjunct2, THEN conjunct1]
    mh_run_fields[THEN conjunct2, THEN conjunct2, THEN conjunct1]
    mh_run_fields[THEN conjunct2, THEN conjunct2, THEN conjunct2, THEN conjunct1]

section \<open>What the getters return\<close>

lemma visited_forward: "visited (forward_range xs) = Some xs"
  using fwd.items_fst[of "snd (forward_range xs)"] by (simp add: visited_def forward_range_def)

lemma visited_sorted: "visited (Some (sorted_range_data lt le), s) = Some (sorted_contents lt le s)"
  using srt.items_fst[of lt le s] by (simp only: visited_def fst_conv snd_conv)

text \<open>Both vectors that grow are stores in the sense of the synchronisation.\<close>

interpretation mh_trade_store: history_store mh_get_trades mh_feed_trade
  by unfold_locales (auto simp: mh_get_trades_def visited_forward mh_feed_trade_def)

interpretation mh_decision_store: history_store mh_get_decisions mh_feed_decision
  by unfold_locales (auto simp: mh_get_decisions_def visited_forward mh_feed_decision_def)

interpretation mh_balance_store: history_store mh_get_balance_changes mh_feed_balance_change
  by unfold_locales (auto simp: mh_get_balance_changes_def visited_forward mh_feed_balance_change_def)

interpretation mh_sync: sync_pair trade_less mh_get_trades mh_feed_trade mh_get_trades mh_feed_trade
  by unfold_locales

lemma sorted_between_mm_of:
  assumes "\<forall>x \<in> set xs. \<not> isnan (key x)" "\<not> isnan b" "\<not> isnan e"
  shows "sorted_contents (<) (\<le>) (sorted_range_between (mm_of (<) key xs) b e) =
    map snd (mm_of (<) key (filter (\<lambda>x. b < key x \<and> key x \<le> e) xs))"
proof -
  have "mm_sorted (<) (mm_of (<) key xs)" "mm_ok (\<lambda>x. \<not> isnan x) (mm_of (<) key xs)"
    using dbl.mm_sorted_of[OF assms(1)] by auto
  then have "sorted_contents (<) (\<le>) (sorted_range_between (mm_of (<) key xs) b e) =
      map snd (filter (\<lambda>x. b < fst x \<and> fst x \<le> e) (mm_of (<) key xs))"
    by (rule dbl.sorted_between_contents) (auto simp: assms d_le_not_less)
  also have "\<dots> = map snd (mm_of (<) key (filter (\<lambda>x. b < key x \<and> key x \<le> e) xs))"
    by (simp only: dbl.filter_mm_of[OF assms(1), of "\<lambda>k. b < k \<and> k \<le> e"])
  finally show ?thesis .
qed

text \<open>The values of a multimap are a stable sort of the elements it was built from.\<close>

definition stable_sort_of :: "('a \<Rightarrow> double) \<Rightarrow> 'a list \<Rightarrow> 'a list \<Rightarrow> bool" where
  "stable_sort_of key ys xs \<longleftrightarrow> mset ys = mset xs \<and> sorted_wrt (\<lambda>x y. \<not> key y < key x) ys \<and>
     (\<forall>q. \<not> isnan q \<longrightarrow> filter (\<lambda>x. d_eq (key x) q) ys = filter (\<lambda>x. d_eq (key x) q) xs)"

lemma mm_of_keys: "(k, v) \<in> set (mm_of lt key xs) \<Longrightarrow> k = key v"
  by (auto simp: set_mm_of)

lemma mm_of_map_key: "map (\<lambda>e. (key (snd e), snd e)) (mm_of lt key xs) = mm_of lt key xs"
  by (rule map_idI) (auto dest: mm_of_keys)

lemma d_eq_equiv: "\<not> isnan x \<Longrightarrow> \<not> isnan q \<Longrightarrow> d_eq x q \<longleftrightarrow> \<not> x < q \<and> \<not> q < x"
  by (auto simp: double_simps)

lemma mm_of_stable_sort:
  assumes "\<forall>x \<in> set xs. \<not> isnan (key x)"
  shows "stable_sort_of key (map snd (mm_of (<) key xs)) xs"
  unfolding stable_sort_of_def
proof (intro conjI allI impI)
  let ?m = "mm_of (<) key xs"
  have "image_mset snd (mset ?m) = mset xs" by (simp add: mset_mm_of image_mset.compositionality o_def)
  then show "mset (map snd ?m) = mset xs" by simp
  have "mm_sorted (<) ?m" using dbl.mm_sorted_of[OF assms] by simp
  then have "sorted_wrt (\<lambda>a b. \<not> fst b < fst a) ?m" by (simp add: mm_sorted_def)
  then have "sorted_wrt (\<lambda>a b. \<not> key (snd b) < key (snd a)) ?m"
    by (rule sorted_wrt_mono_rel[rotated]) (metis mm_of_keys prod.collapse)
  then show "sorted_wrt (\<lambda>x y. \<not> key y < key x) (map snd ?m)" by (simp add: sorted_wrt_map)
  fix q :: double
  assume q: "\<not> isnan q"
  have "filter (\<lambda>x. d_eq (key x) q) (map snd ?m) = map snd (filter (\<lambda>e. d_eq (fst e) q) ?m)"
    by (simp add: filter_map o_def) (metis (mono_tags, lifting) filter_cong mm_of_keys prod.collapse)
  also have "filter (\<lambda>e. d_eq (fst e) q) ?m = filter (\<lambda>e. \<not> fst e < q \<and> \<not> q < fst e) ?m"
    using assms q by (intro filter_cong) (auto simp: set_mm_of d_eq_equiv)
  also have "map snd \<dots> = filter (\<lambda>v. \<not> key v < q \<and> \<not> q < key v) xs"
    by (rule dbl.mm_of_stable[OF assms q])
  also have "\<dots> = filter (\<lambda>x. d_eq (key x) q) xs"
    using assms q by (intro filter_cong) (auto simp: d_eq_equiv)
  finally show "filter (\<lambda>x. d_eq (key x) q) (map snd ?m) = filter (\<lambda>x. d_eq (key x) q) xs" .
qed

section \<open>The balance at a timestamp\<close>

text \<open>
  What the code is after, on the list of changes in the order they were fed: the first change
  at the timestamp itself, or else the last of the latest ones before it.
\<close>

definition latest_by :: "('a \<Rightarrow> double) \<Rightarrow> 'a list \<Rightarrow> 'a option" where
  "latest_by key xs = foldl (\<lambda>acc x. case acc of None \<Rightarrow> Some x
     | Some y \<Rightarrow> if key x < key y then acc else Some x) None xs"

definition balance_lookup :: "balance_change list \<Rightarrow> timestamp \<Rightarrow> balance option" where
  "balance_lookup xs ts =
     (case filter (\<lambda>x. d_eq (bc_timestamp x) ts) xs of
        x # _ \<Rightarrow> Some (bc_consolidated x)
      | [] \<Rightarrow> map_option bc_consolidated (latest_by bc_timestamp (filter (\<lambda>x. bc_timestamp x < ts) xs)))"

lemma mm_of_nonempty: "xs \<noteq> [] \<Longrightarrow> mm_of lt key xs \<noteq> []"
  using set_mm_of[of lt key xs] by (cases "mm_of lt key xs") auto

lemma last_mm_of:
  assumes "\<forall>x \<in> set xs. \<not> isnan (key x)"
  shows "latest_by key xs = (if xs = [] then None else Some (snd (last (mm_of (<) key xs))))"
  using assms
proof (induction xs rule: rev_induct)
  case Nil
  then show ?case by (simp add: latest_by_def)
next
  case (snoc x xs)
  let ?m = "mm_of (<) key xs"
  have s: "mm_sorted (<) ?m" "mm_ok (\<lambda>x. \<not> isnan x) ?m" "\<not> isnan (key x)"
    using dbl.mm_sorted_of[of xs key] snoc.prems by auto
  show ?case
  proof (cases "xs = []")
    case True
    then show ?thesis by (simp add: latest_by_def mm_of_def mm_insert_def)
  next
    case False
    then have ne: "?m \<noteq> []" by (rule mm_of_nonempty)
    then have k: "fst (last ?m) = key (snd (last ?m))"
      using last_in_set[OF ne] by (auto simp: set_mm_of)
    have "latest_by key (xs @ [x]) =
        (case latest_by key xs of None \<Rightarrow> Some x | Some y \<Rightarrow> if key x < key y then latest_by key xs else Some x)"
      unfolding latest_by_def by simp
    then show ?thesis
      using False snoc k by (simp add: mm_of_snoc dbl.last_mm_insert[OF s ne])
  qed
qed

text \<open>Walking back from the lower bound, on a sorted map.\<close>

lemma mh_walk_back_stop:
  "\<not> ts < bc_timestamp (snd (m ! i)) \<Longrightarrow> mh_walk_back m ts i = Some (bc_consolidated (snd (m ! i)))"
  by (subst mh_walk_back.simps) simp

lemma mh_walk_back_first:
  "ts < bc_timestamp (snd (m ! 0)) \<Longrightarrow> mh_walk_back m ts 0 = None"
  by (subst mh_walk_back.simps) (simp add: mm_prev_def)

lemma mh_walk_back_Suc:
  "ts < bc_timestamp (snd (m ! Suc j)) \<Longrightarrow> j < length m \<Longrightarrow>
     mh_walk_back m ts (Suc j) = mh_walk_back m ts j"
  by (subst mh_walk_back.simps) (simp add: mm_prev_def)

lemma balance_at_split:
  assumes h: "mh_balance_changes_by_timestamp h = L @ R"
    and keys: "\<forall>e \<in> set (L @ R). fst e = bc_timestamp (snd e)"
    and L: "\<forall>e \<in> set L. fst e < ts" and R: "\<forall>e \<in> set R. \<not> fst e < ts"
  shows "mh_balance_at_timestamp h ts =
    (if R \<noteq> [] \<and> \<not> ts < fst (hd R) then Some (bc_consolidated (snd (hd R)))
     else if L \<noteq> [] then Some (bc_consolidated (snd (last L)))
     else None)"
proof -
  have "takeWhile (\<lambda>e. fst e < ts) (L @ R) = L @ takeWhile (\<lambda>e. fst e < ts) R"
    using L by (intro takeWhile_append2) auto
  also have "\<dots> = L" using R by (cases R) simp_all
  finally have lb: "mm_lower_bound (<) (L @ R) ts = length L"
    by (simp only: mm_lower_bound_def)
  have walk: "mh_walk_back (L @ R) ts j = Some (bc_consolidated (snd (last L)))"
    if "length L = Suc j" for j
  proof -
    have "L \<noteq> []" using that by auto
    then have "L ! j = last L" using that by (simp add: last_conv_nth)
    with \<open>L \<noteq> []\<close> have "(L @ R) ! j = last L" "fst (last L) < ts" "bc_timestamp (snd (last L)) = fst (last L)"
      using that L keys by (auto simp: nth_append)
    then have "\<not> ts < bc_timestamp (snd ((L @ R) ! j))"
      using d_less_trans[of ts "fst (last L)" ts] by auto
    then show ?thesis
      using mh_walk_back_stop[of ts "L @ R" j] \<open>(L @ R) ! j = last L\<close> by simp
  qed
  show ?thesis
  proof (cases R)
    case Nil
    then show ?thesis
      using walk lb h by (cases "length L") (auto simp: mh_balance_at_timestamp_def mm_prev_def)
  next
    case (Cons e es)
    then have e: "(L @ R) ! length L = e" "bc_timestamp (snd e) = fst e" using keys by auto
    show ?thesis
    proof (cases "ts < fst e")
      case False
      then show ?thesis using Cons e lb h by (simp add: mh_balance_at_timestamp_def mh_walk_back_stop)
    next
      case True
      then show ?thesis
        using walk Cons e lb h
        by (cases "length L")
          (auto simp: mh_balance_at_timestamp_def mh_walk_back_first mh_walk_back_Suc)
    qed
  qed
qed

lemma balance_at_lookup:
  assumes inv: "mh_inv h" and xs: "\<forall>x \<in> set (mh_balance_changes h). \<not> isnan (bc_timestamp x)"
    and ts: "\<not> isnan ts"
  shows "mh_balance_at_timestamp h ts = balance_lookup (mh_balance_changes h) ts"
proof -
  let ?xs = "mh_balance_changes h" and ?m = "mm_of (<) bc_timestamp (mh_balance_changes h)"
  let ?L = "filter (\<lambda>e. fst e < ts) ?m" and ?R = "filter (\<lambda>e. \<not> fst e < ts) ?m"
  have s: "mm_sorted (<) ?m" "mm_ok (\<lambda>x. \<not> isnan x) ?m" using dbl.mm_sorted_of[OF xs] by auto
  have m: "?m = ?L @ ?R"
    using takeWhile_dropWhile_id[of "\<lambda>e. fst e < ts" ?m] by (simp add: dbl.mm_split[OF s ts])
  have at: "mh_balance_at_timestamp h ts =
      (if ?R \<noteq> [] \<and> \<not> ts < fst (hd ?R) then Some (bc_consolidated (snd (hd ?R)))
       else if ?L \<noteq> [] then Some (bc_consolidated (snd (last ?L)))
       else None)"
    by (rule balance_at_split) (use inv m in \<open>auto simp: mh_inv_def set_mm_of\<close>)
  have L: "latest_by bc_timestamp (filter (\<lambda>x. bc_timestamp x < ts) ?xs) =
      (if ?L = [] then None else Some (snd (last ?L)))"
    using last_mm_of[of "filter (\<lambda>x. bc_timestamp x < ts) ?xs" bc_timestamp] xs
      dbl.filter_mm_of[OF xs, of "\<lambda>k. k < ts"] mm_of_nonempty[of "filter (\<lambda>x. bc_timestamp x < ts) ?xs"]
    by (auto simp: mm_of_def)
  have "filter (\<lambda>x. d_eq (bc_timestamp x) ts) ?xs =
      filter (\<lambda>x. \<not> bc_timestamp x < ts \<and> \<not> ts < bc_timestamp x) ?xs"
    using xs ts by (intro filter_cong) (auto simp: d_eq_equiv)
  also have "\<dots> = map snd (filter (\<lambda>e. \<not> fst e < ts \<and> \<not> ts < fst e) ?m)"
    using dbl.mm_of_stable[OF xs ts] by simp
  also have "filter (\<lambda>e. \<not> fst e < ts \<and> \<not> ts < fst e) ?m = takeWhile (\<lambda>e. \<not> ts < fst e) ?R"
  proof -
    have "mm_sorted (<) ?R" "mm_ok (\<lambda>x. \<not> isnan x) ?R"
      using s by (simp_all add: mm_sorted_def mm_ok_def sorted_wrt_filter)
    then show ?thesis by (simp add: dbl.mm_split(1)[OF _ _ ts] conj_commute)
  qed
  finally have E: "filter (\<lambda>x. d_eq (bc_timestamp x) ts) ?xs = map snd (takeWhile (\<lambda>e. \<not> ts < fst e) ?R)" .
  show ?thesis
    unfolding at balance_lookup_def L E by (cases ?R) simp_all
qed

section \<open>Properties\<close>

lemma not_isnan_lits: "\<not> isnan (lit 1)" "\<not> isnan (lit 2)" "\<not> isnan (lit 3)" "\<not> isnan (lit 4)"
  by code_simp+

text \<open>
  C2: Once items with timestamps that are numbers were fed to a history in memory, the
  balance at a timestamp is the consolidated balance of the first change fed with that
  timestamp, or else of the last of the latest changes before it. When there is none, the look-up
  decrements the first iterator, which is undefined behaviour: the tests for the end of the map do
  not catch it.
\<close>

theorem memory_balance_at:
  assumes "\<forall>x \<in> set (balance_changes_of is). \<not> isnan (bc_timestamp x)" "\<not> isnan ts"
  shows "get_balance_at_timestamp memory_ops (mh_run is) ts =
    balance_lookup (balance_changes_of is) ts"
  using balance_at_lookup[OF mh_run_inv, of "is" ts] assms mh_run_vectors[of "is"] by simp

theorem memory_balance_at_witness:
  "get_balance_at_timestamp memory_ops
     (mh_run [Balance_item (mk_balance_change\<lparr>bc_timestamp := lit 2\<rparr>), Order_item zero_order]) (lit 3) =
     Some (bc_consolidated mk_balance_change) \<and>
   get_balance_at_timestamp memory_ops
     (mh_run [Balance_item (mk_balance_change\<lparr>bc_timestamp := lit 2\<rparr>), Order_item zero_order]) (lit 1) = None"
proof -
  have d: "lit 2 < lit 3" "\<not> d_eq (lit 2) (lit 3)" "\<not> lit 2 < lit 1" "\<not> d_eq (lit 2) (lit 1)" by code_simp+
  show ?thesis
    using memory_balance_at[of "[Balance_item (mk_balance_change\<lparr>bc_timestamp := lit 2\<rparr>), Order_item zero_order]" "lit 3"]
      memory_balance_at[of "[Balance_item (mk_balance_change\<lparr>bc_timestamp := lit 2\<rparr>), Order_item zero_order]" "lit 1"]
    by (simp add: not_isnan_lits balance_lookup_def latest_by_def d)
qed

text \<open>
  A balance change fed at a timestamp that already has one is never seen by a look-up at
  that timestamp.
\<close>

theorem same_time_hidden:
  assumes "\<forall>x \<in> set (balance_changes_of is). \<not> isnan (bc_timestamp x)"
    and "x \<in> set (balance_changes_of is)" "d_eq (bc_timestamp x) ts" "d_eq (bc_timestamp bc) ts"
  shows "mh_balance_at_timestamp (mh_run (is @ [Balance_item bc])) ts =
    mh_balance_at_timestamp (mh_run is) ts"
proof -
  have nn: "\<not> isnan ts" "\<not> isnan (bc_timestamp bc)" using assms(4) by (auto simp: d_eq_def)
  have "filter (\<lambda>x. d_eq (bc_timestamp x) ts) (balance_changes_of is) \<noteq> []"
    using assms(2,3) by (auto simp: filter_empty_conv)
  then show ?thesis
    using balance_at_lookup[OF mh_run_inv[of "is"], of ts] assms(1,4) nn mh_run_vectors[of "is"]
      balance_at_lookup[OF mh_run_inv[of "is @ [Balance_item bc]"], of ts]
      mh_run_vectors[of "is @ [Balance_item bc]"]
    by (auto simp: balance_lookup_def neq_Nil_conv)
qed

theorem same_time_hidden_witness:
  "mh_balance_at_timestamp (mh_run ([Balance_item (mk_balance_change\<lparr>bc_timestamp := lit 2\<rparr>)] @
      [Balance_item (mk_balance_change\<lparr>bc_timestamp := lit 2, bc_consolidated := \<lparr>liquidity = lit 1, stock = 0, commission = 0\<rparr>\<rparr>)]))
      (lit 2) =
   mh_balance_at_timestamp (mh_run [Balance_item (mk_balance_change\<lparr>bc_timestamp := lit 2\<rparr>)]) (lit 2)"
  by (rule same_time_hidden[where x = "mk_balance_change\<lparr>bc_timestamp := lit 2\<rparr>"])
    (simp_all add: not_isnan_lits d_eq_def)

text \<open>
  C3: Over the interval open at its begin and closed at its end, a history in memory returns
  the trades that the filter of the base class selects, as a stable sort by timestamp.
\<close>

theorem memory_trades_interval:
  assumes "\<forall>t \<in> set (trades_of is). \<not> isnan (t_timestamp t)" "\<not> isnan b" "\<not> isnan e"
  shows "\<exists>ys xs. get_trades_by_timestamp memory_ops (mh_run is) b e = Some ys \<and>
    visited (base_trades_by_timestamp forward_range_data b e, snd (forward_range (mh_trades (mh_run is)))) = Some xs \<and>
    xs = filter (trade_between b e) (trades_of is) \<and> stable_sort_of t_timestamp ys xs"
proof -
  let ?xs = "filter (trade_between b e) (trades_of is)"
  have f: "mh_trades_by_timestamp (mh_run is) = mm_of (<) t_timestamp (trades_of is)"
    using mh_run_inv[of "is"] mh_run_vectors[of "is"] by (simp add: mh_inv_def)
  have "get_trades_by_timestamp memory_ops (mh_run is) b e = Some (map snd (mm_of (<) t_timestamp ?xs))"
    using sorted_between_mm_of[OF assms]
    by (simp add: mh_get_trades_by_timestamp_def visited_sorted f trade_between_def[abs_def])
  moreover have "visited (base_trades_by_timestamp forward_range_data b e,
      snd (forward_range (mh_trades (mh_run is)))) = Some ?xs"
    using fwd_filter.filtered.items_fst[of "trade_between b e" "snd (forward_range (trades_of is))"]
      mh_run_vectors[of "is"]
    by (simp add: visited_def base_trades_by_timestamp_def range_filter_def forward_range_def)
  ultimately show ?thesis using mm_of_stable_sort[of ?xs t_timestamp] assms(1) by auto
qed

theorem memory_trades_interval_witness:
  "\<exists>ys xs. get_trades_by_timestamp memory_ops
      (mh_run [Trade_item (mk_trade (lit 3)), Trade_item (mk_trade (lit 2))]) (lit 1) (lit 3) = Some ys \<and>
    visited (base_trades_by_timestamp forward_range_data (lit 1) (lit 3),
      snd (forward_range (mh_trades (mh_run [Trade_item (mk_trade (lit 3)), Trade_item (mk_trade (lit 2))])))) = Some xs \<and>
    xs = filter (trade_between (lit 1) (lit 3))
      (trades_of [Trade_item (mk_trade (lit 3)), Trade_item (mk_trade (lit 2))]) \<and>
    stable_sort_of t_timestamp ys xs"
  by (rule memory_trades_interval) (simp_all add: not_isnan_lits mk_trade_def)

lemma distinct_count: "distinct xs \<longleftrightarrow> (\<forall>y \<in> set xs. count_list xs y < 2)"
proof (induction xs)
  case (Cons x xs)
  have "count_list xs x = 0 \<longleftrightarrow> x \<notin> set xs" by (rule count_list_0_iff)
  then show ?case using Cons.IH by (auto simp: less_Suc_eq numeral_2_eq_2 split: if_splits)
qed simp

text \<open>
  C4: Synchronising the trades of two histories in memory leaves the same set of trades in
  both, the union. A second synchronisation feeds history 2 nothing, and history 1 nothing when
  history 2 held no trade twice; otherwise it feeds history 1 trades that it holds.
\<close>

theorem memory_sync:
  fixes h1 h2 :: memory_history
  shows "\<exists>n h1' h2' k h1''.
    synchronize trade_less mh_get_trades mh_feed_trade mh_get_trades mh_feed_trade h1 h2 = Some (n, h1', h2') \<and>
    set (mh_trades h1') = set (mh_trades h1) \<union> set (mh_trades h2) \<and>
    set (mh_trades h2') = set (mh_trades h1) \<union> set (mh_trades h2) \<and>
    synchronize trade_less mh_get_trades mh_feed_trade mh_get_trades mh_feed_trade h1' h2' = Some ((0, k), h1'', h2') \<and>
    (if distinct (mh_trades h2) then k = 0 \<and> h1'' = h1' else 0 < k)"
proof -
  have g: "mh_get_trades h = Some (mh_trades h)" for h by (simp add: mh_get_trades_def visited_forward)
  have result: "\<exists>a b. synchronize trade_less mh_get_trades mh_feed_trade mh_get_trades mh_feed_trade h h' =
      Some ((length a, length b), foldl mh_feed_trade h b, foldl mh_feed_trade h' a) \<and>
    distinct a \<and> set a = set (mh_trades h) - set (mh_trades h') \<and>
    set b = {y \<in> set (mh_trades h'). y \<notin> set (mh_trades h) \<or> 2 \<le> count_list (mh_trades h') y}" for h h'
    using mh_sync.sync_result[OF g g, of h h'] by blast
  have t: "mh_trades (foldl mh_feed_trade h xs) = mh_trades h @ xs" for h xs
    using mh_trade_store.get_feeds[OF g, of h xs] g by simp
  obtain a b where r: "synchronize trade_less mh_get_trades mh_feed_trade mh_get_trades mh_feed_trade h1 h2 =
      Some ((length a, length b), foldl mh_feed_trade h1 b, foldl mh_feed_trade h2 a)"
    "distinct a" "set a = set (mh_trades h1) - set (mh_trades h2)"
    "set b = {y \<in> set (mh_trades h2). y \<notin> set (mh_trades h1) \<or> 2 \<le> count_list (mh_trades h2) y}"
    using result[of h1 h2] by blast
  let ?h1 = "foldl mh_feed_trade h1 b" and ?h2 = "foldl mh_feed_trade h2 a"
  obtain a' b' where r': "synchronize trade_less mh_get_trades mh_feed_trade mh_get_trades mh_feed_trade ?h1 ?h2 =
      Some ((length a', length b'), foldl mh_feed_trade ?h1 b', foldl mh_feed_trade ?h2 a')"
    "set a' = set (mh_trades ?h1) - set (mh_trades ?h2)"
    "set b' = {y \<in> set (mh_trades ?h2). y \<notin> set (mh_trades ?h1) \<or> 2 \<le> count_list (mh_trades ?h2) y}"
    using result[of ?h1 ?h2] by blast
  have u: "set (mh_trades ?h1) = set (mh_trades h1) \<union> set (mh_trades h2)"
    "set (mh_trades ?h2) = set (mh_trades h1) \<union> set (mh_trades h2)"
    unfolding t set_append r(3,4) by auto
  then have a': "a' = []" using r'(2) by simp
  have "set b' = {y \<in> set (mh_trades ?h2). 2 \<le> count_list (mh_trades ?h2) y}" using r'(3) u by auto
  moreover have "b' = [] \<longleftrightarrow> set b' = {}" by simp
  ultimately have "b' = [] \<longleftrightarrow> (\<forall>y \<in> set (mh_trades ?h2). count_list (mh_trades ?h2) y < 2)"
    by (auto simp: not_le)
  also have "\<dots> \<longleftrightarrow> distinct (mh_trades ?h2)"
    by (rule distinct_count[symmetric])
  also have "\<dots> \<longleftrightarrow> distinct (mh_trades h2)" using r(2,3) by (auto simp: t)
  finally have "if distinct (mh_trades h2) then b' = [] else b' \<noteq> []" by simp
  then show ?thesis
    using r(1) r'(1) u a'
    by (intro exI[of _ "(length a, length b)"] exI[of _ ?h1] exI[of _ ?h2] exI[of _ "length b'"] exI[of _ "foldl mh_feed_trade ?h1 b'"])
      (simp split: if_splits)
qed

text \<open>
  A history in memory never returns an order, whatever it was fed, although its index by
  identifier holds every order: \<open>feed\<close> does not append to the vector that \<open>get_orders\<close> reads.
\<close>

theorem memory_orders_lost:
  "get_orders memory_ops (mh_run is) = Some [] \<and>
   mset (map snd (mh_orders_by_id (mh_run is))) = mset (orders_of is)"
proof -
  have "image_mset snd (mset (mm_of (<) o_id (orders_of is))) = mset (orders_of is)"
    by (simp add: mset_mm_of image_mset.compositionality o_def)
  then show ?thesis
    using mh_run_fields[of "is"] by (simp add: mh_get_orders_def visited_forward mh_inv_def)
qed

text \<open>
  The time span of a history in memory starts at the least and ends at the greatest
  timestamp of its trades, and equals on numbers the span the base class computes by a scan.
\<close>

theorem memory_time_span:
  assumes "trades_of is \<noteq> []" "\<forall>t \<in> set (trades_of is). \<not> isnan (t_timestamp t)"
  shows "spans (mh_get_time_span (mh_run is)) (t_timestamp ` set (trades_of is)) \<and>
    spans (base_time_span (trades_of is)) (t_timestamp ` set (trades_of is)) \<and>
    d_eq (span_from (mh_get_time_span (mh_run is))) (span_from (base_time_span (trades_of is))) \<and>
    d_eq (span_to (mh_get_time_span (mh_run is))) (span_to (base_time_span (trades_of is)))"
proof -
  let ?m = "mm_of (<) t_timestamp (trades_of is)" and ?X = "t_timestamp ` set (trades_of is)"
  have m: "?m \<noteq> []" using assms(1) by (rule mm_of_nonempty)
  have keys: "fst ` set ?m = ?X" by (auto simp: set_mm_of image_image)
  then have nn: "\<not> isnan x" if "x \<in> fst ` set ?m" for x using assms(2) that by auto
  have s: "sorted_wrt (\<lambda>x y. \<not> y < x) (map fst ?m)"
    using dbl.mm_sorted_of[OF assms(2)] by (simp add: mm_sorted_def sorted_wrt_map)
  have "fst (hd ?m) \<le> x \<and> x \<le> fst (last ?m)" if "x \<in> ?X" for x
  proof -
    have "x \<in> fst ` set ?m" using that by (simp only: keys)
    then obtain e where e: "e \<in> set ?m" "x = fst e" by (rule imageE)
    have h: "hd ?m \<in> set ?m" "last ?m \<in> set ?m" using m by auto
    have "\<not> fst e < fst (hd ?m)"
      using s m e by (cases ?m) auto
    moreover have "\<not> fst (last ?m) < fst e"
      using s m e by (cases ?m rule: rev_cases) (auto simp: sorted_wrt_append)
    ultimately show ?thesis using e h nn by (simp add: d_le_not_less)
  qed
  moreover have "fst (hd ?m) \<in> ?X" "fst (last ?m) \<in> ?X" using keys m by (metis hd_in_set imageI, metis last_in_set imageI)
  moreover have "mh_get_time_span (mh_run is) = \<lparr>span_from = fst (hd ?m), span_to = fst (last ?m)\<rparr>"
    using mh_run_inv[of "is"] mh_run_vectors[of "is"] m
    by (simp add: mh_get_time_span_def mh_inv_def mk_span_def Let_def)
  ultimately have a: "spans (mh_get_time_span (mh_run is)) ?X" by (simp add: spans_def)
  have b: "spans (base_time_span (trades_of is)) ?X"
    using widen_fold_spans[of "map t_timestamp (trades_of is)"] assms by (simp add: base_time_span_map)
  have "d_eq x y" if "x \<in> ?X" "y \<in> ?X" "x \<le> y" "y \<le> x" for x y
    using that by (auto simp: less_eq_double_def d_eq_def)
  then show ?thesis using a b unfolding spans_def by blast
qed

theorem memory_time_span_witness:
  "spans (mh_get_time_span (mh_run [Trade_item (mk_trade (lit 3))])) (t_timestamp ` set (trades_of [Trade_item (mk_trade (lit 3))])) \<and>
    spans (base_time_span (trades_of [Trade_item (mk_trade (lit 3))])) (t_timestamp ` set (trades_of [Trade_item (mk_trade (lit 3))])) \<and>
    d_eq (span_from (mh_get_time_span (mh_run [Trade_item (mk_trade (lit 3))])))
      (span_from (base_time_span (trades_of [Trade_item (mk_trade (lit 3))]))) \<and>
    d_eq (span_to (mh_get_time_span (mh_run [Trade_item (mk_trade (lit 3))])))
      (span_to (base_time_span (trades_of [Trade_item (mk_trade (lit 3))])))"
  by (rule memory_time_span) (simp_all add: mk_trade_def not_isnan_lits)

end
