(* ===== verification/Broker.thy ===== *)
theory Broker
  imports Memory_History
begin

text \<open>
  \<open>src/brokers\<close>: the validation and execution of decisions of the class \<open>Broker\<close>, and the
  broker \<open>PretendBroker\<close> that fills every decision at its own price.

  A broker holds pointers to histories. The histories live in a store, a map from addresses
  to histories; \<open>std::set<History*>\<close> keeps the addresses in increasing order.
\<close>

section \<open>The class Broker\<close>

type_synonym 'h store = "nat \<Rightarrow> 'h"

text \<open>The two virtual methods; \<open>send\<close> returns the trades and the decision it updated.\<close>

record 'b broker_ops =
  send :: "'b \<Rightarrow> decision \<Rightarrow> trade list \<times> decision"
  compute_commission :: "'b \<Rightarrow> trade \<Rightarrow> double"

definition broker_historize :: "nat list \<Rightarrow> nat \<Rightarrow> nat list" where
  "broker_historize histories h = set_insert (<) h histories"

definition broker_feed :: "'h history_ops \<Rightarrow> nat list \<Rightarrow> 'h store \<Rightarrow> item \<Rightarrow> 'h store" where
  "broker_feed ops histories st i = foldl (\<lambda>st a. st(a := feed_item ops (st a) i)) st histories"

definition broker_balance_at ::
  "'h history_ops \<Rightarrow> nat list \<Rightarrow> 'h store \<Rightarrow> timestamp \<Rightarrow> balance option" where
  "broker_balance_at ops histories st ts =
     (case histories of [] \<Rightarrow> Some mk_balance | a # _ \<Rightarrow> get_balance_at_timestamp ops (st a) ts)"

definition default_amount :: "balance \<Rightarrow> decision \<Rightarrow> double" where
  "default_amount b d = (case d_type d of
     BUY \<Rightarrow> (liquidity b - commission b) / d_price d
   | SELL \<Rightarrow> stock b / d_price d
   | WAIT \<Rightarrow> 0)"

definition broker_validate ::
  "'h history_ops \<Rightarrow> nat list \<Rightarrow> 'h store \<Rightarrow> decision \<Rightarrow> (bool \<times> decision) option" where
  "broker_validate ops histories st d =
     (if d_type d = WAIT then Some (False, d)
      else if isnan (d_price d) then Some (False, d)
      else Option.bind (broker_balance_at ops histories st (d_timestamp d)) (\<lambda>b.
        let d = (if isnan (d_amount d) then d\<lparr>d_amount := default_amount b d\<rparr> else d)
        in if liquidity b < 0 \<or> d_amount d < 0 \<or> liquidity b + stock b * d_price d < commission b
           then Some (False, d)
           else if d_eq (d_amount d) 0 then Some (False, d)
           else Some (True, d)))"

text \<open>The change of balance that a trade of a decision makes, on top of a balance.\<close>

definition trade_delta :: "action_type \<Rightarrow> double \<Rightarrow> trade \<Rightarrow> balance" where
  "trade_delta type com t =
     (let b = (case type of
        BUY \<Rightarrow> mk_balance\<lparr>liquidity := - t_volume t * t_price t, stock := t_volume t\<rparr>
      | SELL \<Rightarrow> mk_balance\<lparr>liquidity := t_volume t * t_price t, stock := - t_volume t\<rparr>
      | WAIT \<Rightarrow> mk_balance)
      in b\<lparr>commission := com\<rparr>)"

definition trade_change :: "action_type \<Rightarrow> double \<Rightarrow> trade \<Rightarrow> balance \<Rightarrow> balance_change" where
  "trade_change type com t b =
     (let delta = trade_delta type com t
      in \<lparr>bc_origin = \<lparr>origin_type = OriginTrade, origin_id = t_id t\<rparr>, bc_delta = delta,
          bc_consolidated = balance_add b delta, bc_timestamp = t_timestamp t\<rparr>)"

primrec broker_book ::
  "'h history_ops \<Rightarrow> nat list \<Rightarrow> action_type \<Rightarrow> (trade \<Rightarrow> double) \<Rightarrow> trade list \<Rightarrow> 'h store \<Rightarrow> 'h store option" where
  "broker_book ops histories type com [] st = Some st"
| "broker_book ops histories type com (t # ts) st =
     Option.bind (broker_balance_at ops histories st (t_timestamp t)) (\<lambda>b.
       let st = broker_feed ops histories st (Trade_item t);
           st = broker_feed ops histories st (Balance_item (trade_change type (com t) t b))
       in broker_book ops histories type com ts st)"

definition broker_execute ::
  "'h history_ops \<Rightarrow> 'b broker_ops \<Rightarrow> 'b \<Rightarrow> nat list \<Rightarrow> 'h store \<Rightarrow> decision \<Rightarrow> (decision \<times> 'h store) option" where
  "broker_execute ops bops broker histories st d =
     (if d_type d = WAIT then Some (d, st)
      else Option.bind (broker_validate ops histories st d) (\<lambda>(ok, d').
        let (trades, d') = (if ok then send bops broker d' else ([], d'\<lparr>d_status := CANCELLED\<rparr>))
        in Option.bind (broker_book ops histories (d_type d') (compute_commission bops broker) trades st) (\<lambda>st.
             let st = (if decision_ne d d' then broker_feed ops histories st (Decision_item d) else st)
             in Some (d', broker_feed ops histories st (Decision_item d')))))"

section \<open>The class PretendBroker\<close>

record pretend_broker =
  pb_commission :: double

definition pretend_init ::
  "'h history_ops \<Rightarrow> nat list \<Rightarrow> 'h store \<Rightarrow> timestamp \<Rightarrow> double \<Rightarrow> double \<Rightarrow> pretend_broker \<times> 'h store" where
  "pretend_init ops histories st ts liq com =
     (\<lparr>pb_commission = com\<rparr>,
      broker_feed ops histories st (Balance_item (mk_balance_change
        \<lparr>bc_timestamp := ts, bc_origin := \<lparr>origin_type = OriginInit, origin_id = 0\<rparr>,
         bc_consolidated := \<lparr>liquidity = liq, stock = 0, commission = 0\<rparr>\<rparr>)))"

definition pretend_commission :: "pretend_broker \<Rightarrow> trade \<Rightarrow> double" where
  "pretend_commission pb t = \<bar>t_price t * t_volume t * pb_commission pb\<bar>"

text \<open>
  The constructor of the trade leaves its identifier zero; the timestamp it reads from the
  clock is overwritten.
\<close>

definition pretend_send :: "pretend_broker \<Rightarrow> decision \<Rightarrow> trade list \<times> decision" where
  "pretend_send pb d =
     (let d = d\<lparr>d_status := PASSED\<rparr>
      in ([(mk_trade 0)\<lparr>t_timestamp := d_timestamp d, t_decision_id := d_id d, t_volume := d_amount d,
            t_price := d_price d, t_type := d_type d, t_buy_order_id := 0, t_sell_order_id := 0\<rparr>], d))"

definition pretend_ops :: "pretend_broker broker_ops" where
  "pretend_ops = \<lparr>send = pretend_send, compute_commission = pretend_commission\<rparr>"

definition pretend_execute ::
  "'h history_ops \<Rightarrow> pretend_broker \<Rightarrow> nat list \<Rightarrow> 'h store \<Rightarrow> decision \<Rightarrow> (decision \<times> 'h store) option" where
  "pretend_execute ops pb = broker_execute ops pretend_ops pb"

section \<open>Feeding every history\<close>

lemma broker_feed_at:
  "distinct histories \<Longrightarrow> broker_feed ops histories st i a =
     (if a \<in> set histories then feed_item ops (st a) i else st a)"
  unfolding broker_feed_def by (induction histories arbitrary: st) auto

interpretation address: total_order "(<) :: nat \<Rightarrow> nat \<Rightarrow> bool" "\<lambda>_. True"
  by unfold_locales auto

lemma historize_sorted:
  "set_sorted (<) hs \<Longrightarrow> set_sorted (<) (broker_historize hs h) \<and> distinct (broker_historize hs h)"
  unfolding broker_historize_def
  using address.set_sorted_insert[of hs h] address.set_sorted_distinct[of "set_insert (<) h hs"] by simp

lemma historize_set: "set (broker_historize hs h) = insert h (set hs)"
  unfolding broker_historize_def by (rule address.set_insert_total) simp_all

lemma Min_set_sorted: "set_sorted (<) (a # r) \<Longrightarrow> Min (set (a # r)) = (a :: nat)"
  by (rule Min_eqI) (auto simp: set_sorted_def)

section \<open>Validation and execution\<close>

lemma validate_cases:
  assumes "broker_validate ops hs st d = Some (ok, d')"
  shows "d' = d \<or> (\<exists>b. broker_balance_at ops hs st (d_timestamp d) = Some b \<and> isnan (d_amount d) \<and>
      d' = d\<lparr>d_amount := default_amount b d\<rparr>)"
  using assms
  by (auto simp: broker_validate_def Let_def split: if_splits Option.bind_splits)

lemma validate_keeps:
  assumes "broker_validate ops hs st d = Some (ok, d')"
  shows "d_type d' = d_type d" "d_price d' = d_price d" "d_timestamp d' = d_timestamp d"
    "d_id d' = d_id d" "d_status d' = d_status d"
  using validate_cases[OF assms] by auto

lemma validate_wait: "broker_validate ops hs st d = Some (True, d') \<Longrightarrow> d_type d \<noteq> WAIT"
  by (auto simp: broker_validate_def split: if_splits)

lemma book_single:
  "broker_book ops hs type com [t] st =
     map_option (\<lambda>b. broker_feed ops hs (broker_feed ops hs st (Trade_item t))
       (Balance_item (trade_change type (com t) t b))) (broker_balance_at ops hs st (t_timestamp t))"
  by (cases "broker_balance_at ops hs st (t_timestamp t)") (simp_all add: Let_def)

text \<open>The trade that the pretended broker fills an accepted decision with.\<close>

definition filled :: "decision \<Rightarrow> trade" where
  "filled d = \<lparr>t_id = 0, t_volume = d_amount d, t_price = d_price d, t_type = d_type d,
     t_timestamp = d_timestamp d, t_decision_id = d_id d, t_buy_order_id = 0, t_sell_order_id = 0\<rparr>"

lemma pretend_send_filled: "pretend_send pb d = ([filled d], d\<lparr>d_status := PASSED\<rparr>)"
  by (simp add: pretend_send_def filled_def mk_trade_def Let_def)

definition broker_feeds :: "'h history_ops \<Rightarrow> nat list \<Rightarrow> 'h store \<Rightarrow> item list \<Rightarrow> 'h store" where
  "broker_feeds ops histories st is = foldl (broker_feed ops histories) st is"

lemma broker_feeds_at:
  "distinct hs \<Longrightarrow> a \<in> set hs \<Longrightarrow> broker_feeds ops hs st is a = foldl (feed_item ops) (st a) is"
  unfolding broker_feeds_def by (induction "is" arbitrary: st) (simp_all add: broker_feed_at)

text \<open>What the histories are told of a decision: first as it was, if it changed, then as it is.\<close>

definition decision_items :: "decision \<Rightarrow> decision \<Rightarrow> item list" where
  "decision_items d d' = (if decision_ne d d' then [Decision_item d] else []) @ [Decision_item d']"

lemma execute_rejected:
  assumes "d_type d \<noteq> WAIT" "broker_validate ops hs st d = Some (False, d')"
  shows "broker_execute ops bops br hs st d =
    Some (d'\<lparr>d_status := CANCELLED\<rparr>,
      broker_feeds ops hs st (decision_items d (d'\<lparr>d_status := CANCELLED\<rparr>)))"
  using assms by (simp add: broker_execute_def decision_items_def broker_feeds_def Let_def)

lemma pretend_execute_accepted:
  assumes "broker_validate ops hs st d = Some (True, d')"
    and "broker_balance_at ops hs st (d_timestamp d) = Some b"
  shows "pretend_execute ops pb hs st d =
    Some (d'\<lparr>d_status := PASSED\<rparr>,
      broker_feeds ops hs st
        ([Trade_item (filled d'),
          Balance_item (trade_change (d_type d) (pretend_commission pb (filled d')) (filled d') b)] @
         decision_items d (d'\<lparr>d_status := PASSED\<rparr>)))"
proof -
  have "t_timestamp (filled d') = d_timestamp d"
    using validate_keeps(3)[OF assms(1)] by (simp add: filled_def)
  then show ?thesis
    using assms validate_wait[OF assms(1)] validate_keeps(1)[OF assms(1)]
    by (simp add: pretend_execute_def broker_execute_def pretend_ops_def pretend_send_filled
        book_single decision_items_def broker_feeds_def Let_def del: broker_book.simps)
qed

lemma validate_defined:
  assumes "broker_balance_at ops hs st (d_timestamp d) = Some b"
  obtains ok d' where "broker_validate ops hs st d = Some (ok, d')"
proof (cases "broker_validate ops hs st d")
  case None
  then show ?thesis using assms by (simp add: broker_validate_def Let_def split: if_splits)
qed (use that in auto)

section \<open>The ledger\<close>

text \<open>Each change is consolidated on top of the one before it.\<close>

fun ledger :: "balance_change list \<Rightarrow> bool" where
  "ledger (x # y # zs) =
     (bc_consolidated y = balance_add (bc_consolidated x) (bc_delta y) \<and> ledger (y # zs))"
| "ledger _ = True"

lemma ledger_snoc:
  "xs \<noteq> [] \<Longrightarrow> ledger (xs @ [y]) \<longleftrightarrow>
     ledger xs \<and> bc_consolidated y = balance_add (bc_consolidated (last xs)) (bc_delta y)"
  by (induction xs rule: ledger.induct) auto

lemma ledger_sum:
  "ledger xs \<Longrightarrow> xs \<noteq> [] \<Longrightarrow>
     bc_consolidated (last xs) = foldl balance_add (bc_consolidated (hd xs)) (map bc_delta (tl xs))"
  by (induction xs rule: ledger.induct) auto

definition increasing :: "balance_change list \<Rightarrow> bool" where
  "increasing xs = sorted_wrt (\<lambda>x y. bc_timestamp x < bc_timestamp y) xs"

lemma latest_increasing: "increasing xs \<Longrightarrow> xs \<noteq> [] \<Longrightarrow> latest_by bc_timestamp xs = Some (last xs)"
  unfolding increasing_def
proof (induction xs rule: rev_induct)
  case (snoc x xs)
  have step: "latest_by bc_timestamp (xs @ [x]) = (case latest_by bc_timestamp xs of None \<Rightarrow> Some x
      | Some y \<Rightarrow> if bc_timestamp x < bc_timestamp y then latest_by bc_timestamp xs else Some x)"
    unfolding latest_by_def by simp
  show ?case
  proof (cases "xs = []")
    case True
    then show ?thesis by (simp add: latest_by_def)
  next
    case False
    then have "bc_timestamp (last xs) < bc_timestamp x" using snoc.prems by (simp add: sorted_wrt_append)
    then have "\<not> bc_timestamp x < bc_timestamp (last xs)"
      using d_less_trans d_less_irrefl by blast
    then show ?thesis using False snoc step by (simp add: sorted_wrt_append)
  qed
qed simp

lemma d_less_not_eq: "(x :: double) < y \<Longrightarrow> \<not> d_eq x y"
  by (auto simp: less_double_def d_eq_def)

lemma lookup_last:
  assumes "increasing xs" "xs \<noteq> []" "\<not> isnan ts" "\<forall>x \<in> set xs. \<not> isnan (bc_timestamp x)"
    and "\<not> ts < bc_timestamp (last xs)"
  shows "balance_lookup xs ts = Some (bc_consolidated (last xs))"
proof -
  obtain ys y where xs: "xs = ys @ [y]" using assms(2) by (cases xs rule: rev_cases) auto
  have y: "\<not> ts < bc_timestamp y" "\<not> isnan (bc_timestamp y)" using assms by (auto simp: xs)
  have lt: "bc_timestamp x < ts" if "x \<in> set ys" for x
  proof -
    have "bc_timestamp x < bc_timestamp y" using assms(1) that by (simp add: xs increasing_def sorted_wrt_append)
    then show ?thesis using y(1) assms(3) by (rule d_less_not_less_trans)
  qed
  then have ne: "filter (\<lambda>x. d_eq (bc_timestamp x) ts) ys = []"
    by (auto simp: filter_empty_conv dest: d_less_not_eq)
  show ?thesis
  proof (cases "bc_timestamp y < ts")
    case True
    then have f: "filter (\<lambda>x. bc_timestamp x < ts) xs = xs" "filter (\<lambda>x. d_eq (bc_timestamp x) ts) xs = []"
      using lt ne d_less_not_eq by (auto simp: xs)
    show ?thesis
      unfolding balance_lookup_def f latest_increasing[OF assms(1,2)] by simp
  next
    case False
    then have f: "filter (\<lambda>x. d_eq (bc_timestamp x) ts) xs = [y]"
      using ne y assms(3) by (simp add: xs d_eq_equiv)
    show ?thesis
      unfolding balance_lookup_def f by (simp add: xs)
  qed
qed

text \<open>The invariant of the history of a pretended broker whose decisions come in strict order of time.\<close>

definition book_inv :: "memory_history \<Rightarrow> bool" where
  "book_inv h \<longleftrightarrow> mh_inv h \<and> mh_balance_changes h \<noteq> [] \<and> increasing (mh_balance_changes h) \<and>
     ledger (mh_balance_changes h) \<and> (\<forall>x \<in> set (mh_balance_changes h). \<not> isnan (bc_timestamp x)) \<and>
     length (mh_balance_changes h) = Suc (length (mh_trades h))"

definition last_time :: "memory_history \<Rightarrow> timestamp" where
  "last_time h = bc_timestamp (last (mh_balance_changes h))"

definition first_balance :: "memory_history \<Rightarrow> balance" where
  "first_balance h = bc_consolidated (hd (mh_balance_changes h))"

lemma book_balance:
  assumes "book_inv h" "\<not> isnan ts" "\<not> ts < last_time h"
  shows "mh_balance_at_timestamp h ts = Some (bc_consolidated (last (mh_balance_changes h)))"
  using assms balance_at_lookup[of h ts] lookup_last[of "mh_balance_changes h" ts]
  by (simp add: book_inv_def last_time_def)

lemma book_inv_trade:
  assumes "book_inv h" "last_time h < bc_timestamp bc"
    and "bc_consolidated bc = balance_add (bc_consolidated (last (mh_balance_changes h))) (bc_delta bc)"
  shows "book_inv (mh_feed_balance_change (mh_feed_trade h t) bc)"
    and "last_time (mh_feed_balance_change (mh_feed_trade h t) bc) = bc_timestamp bc"
    and "first_balance (mh_feed_balance_change (mh_feed_trade h t) bc) = first_balance h"
proof -
  have bc: "\<not> isnan (bc_timestamp bc)" using assms(2) d_less_not_nan by blast
  have "bc_timestamp x < bc_timestamp bc" if "x \<in> set (mh_balance_changes h)" for x
  proof -
    obtain ys y where "mh_balance_changes h = ys @ [y]"
      using assms(1) by (cases "mh_balance_changes h" rule: rev_cases) (auto simp: book_inv_def)
    then show ?thesis using assms(1,2) that d_less_trans
      by (auto simp: book_inv_def increasing_def sorted_wrt_append last_time_def)
  qed
  then show "book_inv (mh_feed_balance_change (mh_feed_trade h t) bc)"
    using assms bc mh_inv_feed
    by (simp add: book_inv_def ledger_snoc increasing_def sorted_wrt_append)
      (simp add: mh_feed_trade_def mh_feed_balance_change_def ledger_snoc sorted_wrt_append)
  show "last_time (mh_feed_balance_change (mh_feed_trade h t) bc) = bc_timestamp bc"
    "first_balance (mh_feed_balance_change (mh_feed_trade h t) bc) = first_balance h"
    using assms(1) by (simp_all add: last_time_def first_balance_def book_inv_def memory_feed_defs)
qed

lemma book_inv_decisions:
  assumes "book_inv h"
  shows "book_inv (foldl (feed_item memory_ops) h (decision_items d d'))"
    and "last_time (foldl (feed_item memory_ops) h (decision_items d d')) = last_time h"
    and "first_balance (foldl (feed_item memory_ops) h (decision_items d d')) = first_balance h"
  using assms mh_inv_feed(4)
  by (simp_all add: decision_items_def book_inv_def last_time_def first_balance_def)
    (simp_all add: mh_feed_decision_def)

subsection \<open>Runs of decisions\<close>

primrec pretend_run ::
  "'h history_ops \<Rightarrow> pretend_broker \<Rightarrow> nat list \<Rightarrow> decision list \<Rightarrow> 'h store \<Rightarrow> 'h store option" where
  "pretend_run ops pb histories [] st = Some st"
| "pretend_run ops pb histories (d # ds) st =
     Option.bind (pretend_execute ops pb histories st d) (\<lambda>(d', st). pretend_run ops pb histories ds st)"

lemma filled_timestamp [simp]: "t_timestamp (filled d) = d_timestamp d"
  by (simp add: filled_def)

lemma trade_change_simps [simp]:
  "bc_timestamp (trade_change type com t b) = t_timestamp t"
  "bc_consolidated (trade_change type com t b) = balance_add b (bc_delta (trade_change type com t b))"
  by (simp_all add: trade_change_def Let_def)

lemma execute_book:
  assumes hs: "distinct hs" "hs = a # hs'" and inv: "book_inv (st a)"
    and time: "last_time (st a) < d_timestamp d"
  shows "\<exists>d' st'. pretend_execute memory_ops pb hs st d = Some (d', st') \<and> book_inv (st' a) \<and>
    first_balance (st' a) = first_balance (st a) \<and> \<not> d_timestamp d < last_time (st' a)"
proof (cases "d_type d = WAIT")
  case True
  then show ?thesis using inv time d_less_trans[of "d_timestamp d" "last_time (st a)" "d_timestamp d"]
    by (auto simp: pretend_execute_def broker_execute_def)
next
  case False
  have a: "a \<in> set hs" using hs by simp
  have nt: "\<not> d_timestamp d < last_time (st a)"
    using time d_less_trans d_less_irrefl by blast
  have "\<not> isnan (d_timestamp d)" using time d_less_not_nan by blast
  then have b: "broker_balance_at memory_ops hs st (d_timestamp d) =
      Some (bc_consolidated (last (mh_balance_changes (st a))))"
    using book_balance[OF inv _ nt] hs by (simp add: broker_balance_at_def)
  then obtain ok d' where v: "broker_validate memory_ops hs st d = Some (ok, d')"
    by (rule validate_defined)
  note d' = validate_keeps[OF v]
  show ?thesis
  proof (cases ok)
    case True
    let ?bc = "trade_change (d_type d) (pretend_commission pb (filled d')) (filled d')
        (bc_consolidated (last (mh_balance_changes (st a))))"
    let ?h = "mh_feed_balance_change (mh_feed_trade (st a) (filled d')) ?bc"
    have "last_time (st a) < bc_timestamp ?bc" using time d' by simp
    note h = book_inv_trade[OF inv this, of "filled d'"]
    have "book_inv ?h" "last_time ?h = d_timestamp d" "first_balance ?h = first_balance (st a)"
      using h d' by simp_all
    then show ?thesis
      using pretend_execute_accepted[of "memory_ops" hs st d d' _ pb, OF _ b] v True book_inv_decisions d'(3)
        d_less_irrefl
      by (simp add: broker_feeds_at[OF hs(1) a])
  next
    case rej: False
    then show ?thesis
      using execute_rejected[OF False, of "memory_ops" hs st d' pretend_ops pb] v inv nt
      by (simp add: broker_feeds_at[OF hs(1) a] pretend_execute_def book_inv_decisions)
  qed
qed

lemma run_book:
  assumes "distinct hs" "hs = a # hs'" "book_inv (st a)"
    and "sorted_wrt (\<lambda>x y. d_timestamp x < d_timestamp y) ds"
    and "\<forall>d \<in> set ds. last_time (st a) < d_timestamp d"
  shows "\<exists>st'. pretend_run memory_ops pb hs ds st = Some st' \<and> book_inv (st' a) \<and>
    first_balance (st' a) = first_balance (st a) \<and>
    (\<forall>t. \<not> t < last_time (st a) \<longrightarrow> (\<forall>d \<in> set ds. \<not> t < d_timestamp d) \<longrightarrow> \<not> isnan t \<longrightarrow>
      \<not> t < last_time (st' a)) \<and>
    (\<forall>t. last_time (st a) < t \<longrightarrow> (\<forall>d \<in> set ds. d_timestamp d < t) \<longrightarrow> last_time (st' a) < t)"
  using assms(3-5)
proof (induction ds arbitrary: st)
  case (Cons d ds)
  obtain d' st1 where st1: "pretend_execute memory_ops pb hs st d = Some (d', st1)" "book_inv (st1 a)"
    "first_balance (st1 a) = first_balance (st a)" "\<not> d_timestamp d < last_time (st1 a)"
    using execute_book[of hs a hs' st d pb, OF assms(1,2)] Cons.prems(1,3) by auto
  have nn: "\<not> isnan (last_time (st1 a))" using st1(2) by (simp add: book_inv_def last_time_def)
  have "last_time (st1 a) < d_timestamp e" if "e \<in> set ds" for e
    using Cons.prems(2) that st1(4) nn by (auto simp: less_double_def)
  then obtain st' where st': "pretend_run memory_ops pb hs ds st1 = Some st'" "book_inv (st' a)"
    "first_balance (st' a) = first_balance (st1 a)"
    "\<forall>t. \<not> t < last_time (st1 a) \<longrightarrow> (\<forall>d \<in> set ds. \<not> t < d_timestamp d) \<longrightarrow> \<not> isnan t \<longrightarrow>
      \<not> t < last_time (st' a)"
    "\<forall>t. last_time (st1 a) < t \<longrightarrow> (\<forall>d \<in> set ds. d_timestamp d < t) \<longrightarrow> last_time (st' a) < t"
    using Cons.IH[of st1] st1(2) Cons.prems(2) by auto
  have "\<not> t < last_time (st1 a)" if "\<not> t < d_timestamp d" "\<not> isnan t" for t
    using that st1(4) Cons.prems(3) by (auto simp: less_double_def)
  moreover have "last_time (st1 a) < t" if "d_timestamp d < t" for t
    using that st1(4) nn by (auto simp: less_double_def)
  ultimately show ?case using st1 st' by auto
qed auto

text \<open>The store in which every history is empty, as the histories of a fresh run are.\<close>

lemma pretend_init_book:
  assumes "distinct hs" "hs = a # hs'" "\<not> isnan t0"
  shows "pretend_init memory_ops hs (\<lambda>_. mh_empty) t0 liq com = (pb, st) \<Longrightarrow>
    book_inv (st a) \<and> last_time (st a) = t0 \<and>
    first_balance (st a) = \<lparr>liquidity = liq, stock = 0, commission = 0\<rparr>"
  using assms mh_inv_feed(1)[OF mh_inv_empty]
  by (auto simp: pretend_init_def broker_feed_at book_inv_def last_time_def first_balance_def increasing_def)
    (auto simp: memory_feed_defs mh_empty_def mk_balance_change_def)

section \<open>Properties\<close>

text \<open>
  C1: A pretended broker that is initialised and then executes decisions in strict order of
  time never fails. In the first history the balance changes form a ledger, one change for
  the initial balance and one for each trade, and at any time from the last decision on the
  balance is the initial liquidity with the deltas of all changes added up in order.
\<close>

theorem pretend_ledger:
  assumes "distinct hs" "hs = a # hs'" "\<not> isnan t0"
    and "pretend_init memory_ops hs (\<lambda>_. mh_empty) t0 liq com = (pb, st)"
    and "sorted_wrt (\<lambda>x y. d_timestamp x < d_timestamp y) ds" "\<forall>d \<in> set ds. t0 < d_timestamp d"
    and "\<not> isnan t" "\<not> t < t0" "\<forall>d \<in> set ds. \<not> t < d_timestamp d"
  shows "\<exists>st' changes. pretend_run memory_ops pb hs ds st = Some st' \<and>
    mh_get_balance_changes (st' a) = Some changes \<and> ledger changes \<and>
    length changes = Suc (length (mh_trades (st' a))) \<and>
    mh_balance_at_timestamp (st' a) t =
      Some (foldl balance_add \<lparr>liquidity = liq, stock = 0, commission = 0\<rparr> (map bc_delta (tl changes)))"
proof -
  note init = pretend_init_book[OF assms(1,2,3,4)]
  then obtain st' where st': "pretend_run memory_ops pb hs ds st = Some st'" "book_inv (st' a)"
    "first_balance (st' a) = first_balance (st a)" "\<not> t < last_time (st' a)"
    using run_book[of hs a hs' st ds pb] assms by auto
  show ?thesis
    using st' init book_balance[OF st'(2) assms(7) st'(4)] ledger_sum[of "mh_balance_changes (st' a)"]
    by (intro exI[of _ st'] exI[of _ "mh_balance_changes (st' a)"])
      (simp add: mh_get_balance_changes_def visited_forward book_inv_def first_balance_def)
qed

definition sample_decision :: "action_type \<Rightarrow> double \<Rightarrow> double \<Rightarrow> double \<Rightarrow> decision" where
  "sample_decision type ts price amount =
     (fst (mk_decision 0 0))\<lparr>d_type := type, d_timestamp := ts, d_price := price, d_amount := amount\<rparr>"

lemma sample_decision_fields [simp]:
  "d_type (sample_decision type ts price amount) = type"
  "d_timestamp (sample_decision type ts price amount) = ts"
  "d_price (sample_decision type ts price amount) = price"
  "d_amount (sample_decision type ts price amount) = amount"
  by (simp_all add: sample_decision_def)

lemma lit_facts:
  "\<not> isnan (lit 1)" "\<not> isnan (lit 2)" "\<not> isnan (lit 3)" "lit 1 < lit 2" "lit 2 < lit 3" "lit 1 < lit 3"
  "\<not> lit 3 < lit 1" "\<not> lit 3 < lit 2" "\<not> lit 3 < lit 3" "\<not> lit 2 < lit 1"
  by code_simp+

theorem pretend_ledger_witness:
  "case pretend_init memory_ops [0] (\<lambda>_. mh_empty) (lit 1) (lit 1000) (dec 25 4) of (pb, st) \<Rightarrow>
    \<exists>st' changes. pretend_run memory_ops pb [0]
        [sample_decision BUY (lit 2) (lit 10) (lit 2), sample_decision SELL (lit 3) (lit 11) NAN] st = Some st' \<and>
      mh_get_balance_changes (st' 0) = Some changes \<and> ledger changes \<and>
      length changes = Suc (length (mh_trades (st' 0))) \<and>
      mh_balance_at_timestamp (st' 0) (lit 3) = Some (foldl balance_add
        \<lparr>liquidity = lit 1000, stock = 0, commission = 0\<rparr> (map bc_delta (tl changes)))"
proof -
  obtain pb st where i: "pretend_init memory_ops [0] (\<lambda>_. mh_empty) (lit 1) (lit 1000) (dec 25 4) = (pb, st)"
    by fastforce
  show ?thesis
    unfolding i prod.case
    by (rule pretend_ledger[OF _ _ _ i]) (simp_all add: lit_facts)
qed

text \<open>
  Feeding an item to a broker feeds it exactly once to every history that was registered,
  however often each was registered, and leaves every other history alone; the balance the
  broker works with is that of the history with the least address.
\<close>

theorem broker_feed_once:
  "let hs = foldl broker_historize [] as in
     (\<forall>a. broker_feed ops hs st i a = (if a \<in> set as then feed_item ops (st a) i else st a)) \<and>
     broker_balance_at ops hs st ts =
       (if as = [] then Some mk_balance else get_balance_at_timestamp ops (st (Min (set as))) ts)"
proof -
  let ?hs = "foldl broker_historize [] as"
  have hs: "set_sorted (<) ?hs \<and> distinct ?hs \<and> set ?hs = set as"
  proof (induction as rule: rev_induct)
    case (snoc a as)
    then show ?case using historize_sorted[of "foldl broker_historize [] as" a] by (simp add: historize_set)
  qed (simp add: set_sorted_def)
  have "hd ?hs = Min (set as)" if "as \<noteq> []"
  proof -
    have "?hs \<noteq> []" using hs that by auto
    then obtain a r where e: "?hs = a # r" by (cases ?hs) auto
    then have "Min (set ?hs) = a" using hs Min_set_sorted[of a r] by simp
    then show ?thesis using e hs by simp
  qed
  moreover have "?hs = [] \<longleftrightarrow> as = []" using hs by (metis set_empty)
  ultimately show ?thesis
    using hs by (auto simp: broker_feed_at broker_balance_at_def Let_def split: list.split)
qed

text \<open>
  C14: A decision that is not to wait and that validation refuses changes no balance: the
  registered histories are told of the decision as it was, when that differs, and of the
  cancelled decision, and of nothing else.
\<close>

theorem execute_refused:
  assumes "distinct hs" "a \<in> set hs" "d_type d \<noteq> WAIT"
    and "broker_validate memory_ops hs st d = Some (False, d')"
  shows "\<exists>st'. broker_execute memory_ops bops br hs st d = Some (d'\<lparr>d_status := CANCELLED\<rparr>, st') \<and>
    mh_trades (st' a) = mh_trades (st a) \<and> mh_balance_changes (st' a) = mh_balance_changes (st a) \<and>
    mh_decisions (st' a) = mh_decisions (st a) @
      (if decision_ne d (d'\<lparr>d_status := CANCELLED\<rparr>) then [d] else []) @ [d'\<lparr>d_status := CANCELLED\<rparr>]"
  using execute_rejected[OF assms(3,4), of bops br]
  by (simp add: broker_feeds_at[OF assms(1,2)] decision_items_def mh_feed_decision_def)

theorem execute_refused_witness:
  "\<exists>st'. broker_execute memory_ops pretend_ops \<lparr>pb_commission = 0\<rparr> [0] (\<lambda>_. mh_empty)
      (sample_decision BUY (lit 1) NAN (lit 2)) =
      Some ((sample_decision BUY (lit 1) NAN (lit 2))\<lparr>d_status := CANCELLED\<rparr>, st') \<and>
    mh_trades (st' 0) = mh_trades mh_empty \<and> mh_balance_changes (st' 0) = mh_balance_changes mh_empty \<and>
    mh_decisions (st' 0) = mh_decisions mh_empty @
      (if decision_ne (sample_decision BUY (lit 1) NAN (lit 2))
           ((sample_decision BUY (lit 1) NAN (lit 2))\<lparr>d_status := CANCELLED\<rparr>)
       then [sample_decision BUY (lit 1) NAN (lit 2)] else []) @
      [(sample_decision BUY (lit 1) NAN (lit 2))\<lparr>d_status := CANCELLED\<rparr>]"
  using execute_refused[of "[0]" 0 "sample_decision BUY (lit 1) NAN (lit 2)" "\<lambda>_. mh_empty"
      "sample_decision BUY (lit 1) NAN (lit 2)" pretend_ops "\<lparr>pb_commission = 0\<rparr>"]
  by (simp add: broker_validate_def)

text \<open>
  Validation accepts a decision only if it buys or sells at a price that is a number and
  its amount, which defaults to what the balance pays for, is neither negative nor zero; with
  a balance of numbers the account is then worth at least its commission.
\<close>

lemma validate_accepts:
  assumes "broker_validate ops hs st d = Some (True, d')"
  shows "d_type d' \<noteq> WAIT \<and> \<not> isnan (d_price d') \<and> \<not> d_amount d' < 0 \<and> \<not> d_eq (d_amount d') 0 \<and>
    (\<exists>b. broker_balance_at ops hs st (d_timestamp d) = Some b \<and> \<not> liquidity b < 0 \<and>
      (isnan (liquidity b + stock b * d_price d) \<or> isnan (commission b) \<or>
       commission b \<le> liquidity b + stock b * d_price d) \<and>
      d' = (if isnan (d_amount d) then d\<lparr>d_amount := default_amount b d\<rparr> else d))"
  using assms d_le_not_less
  by (auto simp: broker_validate_def Let_def split: if_splits Option.bind_splits)







end
