(* ===== verification/Bots.thy ===== *)
theory Bots
  imports Broker
begin

text \<open>
  \<open>src/bots\<close>: a bot decides at a timestamp and has its broker execute the decision;
  \<open>RandomBot\<close> trades at random at the average price of the last minute.

  The C function \<open>rand\<close> is a parameter that passes its state on; it returns an integer
  between 0 and \<open>RAND_MAX\<close>, as the standard says. The static counter of decision
  identifiers is part of the state.
\<close>

definition RAND_MAX :: int where
  "RAND_MAX = 2147483647"

record 'r env =
  env_rand :: 'r
  env_last_id :: uint64

text \<open>The constructor of a decision draws its key and takes the next identifier.\<close>

definition new_decision :: "('r \<Rightarrow> int \<times> 'r) \<Rightarrow> 'r env \<Rightarrow> decision \<times> 'r env" where
  "new_decision rand e =
     (let (key, r) = rand (env_rand e);
          (d, last_id) = mk_decision (env_last_id e) (word_of_int key)
      in (d, \<lparr>env_rand = r, env_last_id = last_id\<rparr>))"

definition draw :: "('r \<Rightarrow> int \<times> 'r) \<Rightarrow> 'r env \<Rightarrow> int \<times> 'r env" where
  "draw rand e = (let (x, r) = rand (env_rand e) in (x, e\<lparr>env_rand := r\<rparr>))"

text \<open>
  A concrete bot is its \<open>decide\<close>: the state of the bot, the environment and the history it
  reads give the decision.
\<close>

type_synonym ('b, 'r, 'h) decide =
  "'b \<Rightarrow> 'r env \<Rightarrow> 'h \<Rightarrow> timestamp \<Rightarrow> balance \<Rightarrow> (decision \<times> 'b \<times> 'r env) option"

definition decide_and_execute where
  "decide_and_execute decide ops bops broker histories history bt e st ts =
     Option.bind (get_balance_at_timestamp ops (st history) ts) (\<lambda>balance.
     Option.bind (decide bt e (st history) ts balance) (\<lambda>(d, bt, e).
     Option.bind (broker_execute ops bops broker histories st d) (\<lambda>(d, st).
       Some (d, bt, e, st))))"

section \<open>The class RandomBot\<close>

record random_bot =
  rb_probability :: double
  rb_last_price :: double

definition mk_random_bot :: "double \<Rightarrow> random_bot" where
  "mk_random_bot probability = \<lparr>rb_probability = probability, rb_last_price = NAN\<rparr>"

definition random_decide ::
  "('r \<Rightarrow> int \<times> 'r) \<Rightarrow> 'h history_ops \<Rightarrow> (random_bot, 'r, 'h) decide" where
  "random_decide rand ops bt e h ts balance =
     (let (d, e) = new_decision rand e; d = d\<lparr>d_amount := NAN\<rparr>
      in Option.bind (trade_summary_of ops h (ts - lit 60) ts) (\<lambda>s.
        let d = d\<lparr>d_price := ts_average_price s\<rparr>;
            d = (if isnan (d_price d) then d\<lparr>d_price := rb_last_price bt\<rparr> else d);
            bt = bt\<lparr>rb_last_price := d_price d\<rparr>;
            (x, e) = draw rand e
        in if rb_probability bt * lit RAND_MAX < lit x
           then Some (d\<lparr>d_type := WAIT\<rparr>, bt, e)
           else let (y, e) = draw rand e;
                    d = d\<lparr>d_confidence := lit y / lit RAND_MAX, d_timestamp := ts\<rparr>
                in if isnan (d_price d) then Some (d\<lparr>d_type := WAIT\<rparr>, bt, e)
                   else let (z, e) = draw rand e
                        in Some (d\<lparr>d_type := (if z mod 2 \<noteq> 0 then BUY else SELL)\<rparr>, bt, e)))"

section \<open>What a random bot decides\<close>

text \<open>The price the bot quotes: the average of the last minute, or the one it quoted last.\<close>

definition quoted_price :: "'h history_ops \<Rightarrow> 'h \<Rightarrow> random_bot \<Rightarrow> timestamp \<Rightarrow> double option" where
  "quoted_price ops h bt ts = map_option
     (\<lambda>s. if isnan (ts_average_price s) then rb_last_price bt else ts_average_price s)
     (trade_summary_of ops h (ts - lit 60) ts)"

lemma new_decision_fields:
  assumes "new_decision rand e = (d, e')"
  shows "d_id d = env_last_id e + 1" "env_last_id e' = env_last_id e + 1" "d_status d = PENDING"
  using assms by (auto simp: new_decision_def mk_decision_def Let_def split: prod.splits)

lemma random_decide_defined:
  "quoted_price ops h bt ts = Some p \<Longrightarrow> random_decide rand ops bt e h ts b \<noteq> None"
  by (auto simp: random_decide_def quoted_price_def Let_def split: prod.splits)

lemma random_decide_cases:
  assumes "random_decide rand ops bt e h ts b = Some (d, bt', e')"
  shows "quoted_price ops h bt ts = Some (d_price d)" "rb_last_price bt' = d_price d"
    "rb_probability bt' = rb_probability bt" "isnan (d_amount d)" "d_status d = PENDING"
    "d_id d = env_last_id e + 1" "env_last_id e' = env_last_id e + 1"
    "d_type d \<noteq> WAIT \<Longrightarrow> \<not> isnan (d_price d) \<and> d_timestamp d = ts"
proof -
  obtain d0 e0 where n: "new_decision rand e = (d0, e0)" by fastforce
  obtain s where s: "trade_summary_of ops h (ts - lit 60) ts = Some s"
    using assms n by (cases "trade_summary_of ops h (ts - lit 60) ts") (auto simp: random_decide_def)
  note new = new_decision_fields[OF n]
  have last_id: "env_last_id (snd (draw rand e1)) = env_last_id e1" for e1
    by (simp add: draw_def split: prod.split)
  have "quoted_price ops h bt ts = Some (d_price d) \<and> rb_last_price bt' = d_price d \<and>
    rb_probability bt' = rb_probability bt \<and> isnan (d_amount d) \<and> d_status d = PENDING \<and>
    d_id d = env_last_id e + 1 \<and> env_last_id e' = env_last_id e + 1 \<and>
    (d_type d \<noteq> WAIT \<longrightarrow> \<not> isnan (d_price d) \<and> d_timestamp d = ts)"
    using assms new n s last_id[of e0]
    by (auto simp: random_decide_def quoted_price_def Let_def draw_def
        split: if_splits prod.splits)
  then show "quoted_price ops h bt ts = Some (d_price d)" "rb_last_price bt' = d_price d"
    "rb_probability bt' = rb_probability bt" "isnan (d_amount d)" "d_status d = PENDING"
    "d_id d = env_last_id e + 1" "env_last_id e' = env_last_id e + 1"
    "d_type d \<noteq> WAIT \<Longrightarrow> \<not> isnan (d_price d) \<and> d_timestamp d = ts"
    by auto
qed

section \<open>Properties\<close>

text \<open>
  A random bot's decision always carries the price it quotes, the average of the trades of
  the last minute or else its previous price, and no amount; it takes the next identifier; and
  when it is not to wait, its price is a number and it is dated at the timestamp of the call.
\<close>

theorem random_decision:
  assumes "random_decide rand ops bt e h ts b = Some (d, bt', e')"
  shows "quoted_price ops h bt ts = Some (d_price d) \<and> rb_last_price bt' = d_price d \<and> isnan (d_amount d) \<and>
    d_id d = env_last_id e + 1 \<and> env_last_id e' = env_last_id e + 1 \<and>
    (d_type d = WAIT \<or> (\<not> isnan (d_price d) \<and> d_timestamp d = ts))"
  using random_decide_cases[OF assms] by blast

lemma no_trades_summary: "trade_summary_of memory_ops mh_empty b e = Some mk_trade_summary"
  by (simp add: trade_summary_of_def mh_get_trades_by_timestamp_def visited_sorted sorted_contents_def
      sorted_entries_def sorted_range_between_def mh_empty_def summarize_def)

theorem random_decision_witness:
  "\<exists>(d :: decision) (bt' :: random_bot) e'. quoted_price memory_ops mh_empty (mk_random_bot 0) 0 = Some (d_price d) \<and>
    rb_last_price bt' = d_price d \<and> isnan (d_amount d) \<and> d_id d = env_last_id \<lparr>env_rand = (), env_last_id = 7\<rparr> + 1 \<and>
    env_last_id (e' :: unit env) = env_last_id \<lparr>env_rand = (), env_last_id = 7\<rparr> + 1 \<and>
    (d_type d = WAIT \<or> (\<not> isnan (d_price d) \<and> d_timestamp d = 0))"
proof -
  have "random_decide (\<lambda>r. (0, r)) memory_ops (mk_random_bot 0) \<lparr>env_rand = (), env_last_id = 7\<rparr> mh_empty 0 mk_balance \<noteq> None"
    by (rule random_decide_defined[where p = NAN])
      (simp add: quoted_price_def no_trades_summary mk_trade_summary_def mk_random_bot_def)
  then obtain d bt' e' where "random_decide (\<lambda>r. (0, r)) memory_ops (mk_random_bot 0)
      \<lparr>env_rand = (), env_last_id = 7\<rparr> mh_empty 0 mk_balance = Some (d, bt', e')" by auto
  from random_decision[OF this] show ?thesis by blast
qed

end
