(* ===== verification/Stdio.thy ===== *)
theory Stdio
  imports Double
begin

text \<open>
  What the program uses of the formatted input and output of the standard library: printing
  integers, printing doubles as an output stream does (six significant digits), \<open>strftime\<close>
  with the format of the program, and \<open>sscanf\<close>.

  \<open>sscanf\<close> is an interpreter of directives: it returns the values of the conversions that it
  made, whose number is the result of the call.
\<close>

section \<open>Printing integers\<close>

definition digit :: "nat \<Rightarrow> char" where
  "digit n = char_of (48 + n)"

definition is_digit :: "char \<Rightarrow> bool" where
  "is_digit c = (48 \<le> (of_char c :: nat) \<and> (of_char c :: nat) \<le> 57)"

definition digit_value :: "char \<Rightarrow> nat" where
  "digit_value c = of_char c - 48"

function show_nat :: "nat \<Rightarrow> string" where
  "show_nat n = (if n < 10 then [digit n] else show_nat (n div 10) @ [digit (n mod 10)])"
  by pat_completeness auto
termination
  by (relation "measure (\<lambda>n. n)") auto

declare show_nat.simps [simp del]

definition show_int :: "int \<Rightarrow> string" where
  "show_int i = (if i < 0 then CHR ''-'' # show_nat (nat (- i)) else show_nat (nat i))"

definition show_u64 :: "uint64 \<Rightarrow> string" where
  "show_u64 w = show_nat (unat w)"

definition digits_value :: "string \<Rightarrow> nat" where
  "digits_value s = foldl (\<lambda>v c. 10 * v + digit_value c) 0 s"

text \<open>At least \<open>w\<close> characters, padded with zeros on the left, as \<open>%0wd\<close>.\<close>

definition pad0 :: "nat \<Rightarrow> string \<Rightarrow> string" where
  "pad0 w s = replicate (w - length s) CHR ''0'' @ s"

lemma digit_simps [simp]: "n < 10 \<Longrightarrow> is_digit (digit n)" "n < 10 \<Longrightarrow> digit_value (digit n) = n"
  by (simp_all add: is_digit_def digit_def digit_value_def take_bit_nat_eq_self)

lemma digits_value_snoc: "digits_value (s @ [c]) = 10 * digits_value s + digit_value c"
  by (simp add: digits_value_def)

lemma show_nat_digits [simp]: "list_all is_digit (show_nat n)" and show_nat_not_empty [simp]: "show_nat n \<noteq> []"
  and show_nat_value [simp]: "digits_value (show_nat n) = n"
proof (induction n rule: show_nat.induct)
  case (1 n)
  { case 1 show ?case using "1.IH"(1) by (subst show_nat.simps) simp }
  { case 2 show ?case by (subst show_nat.simps) simp }
  { case 3 show ?case
    proof (cases "n < 10")
      case True
      then show ?thesis by (subst show_nat.simps) (simp add: digits_value_def)
    next
      case False
      then show ?thesis using "1.IH"(3) by (subst show_nat.simps) (simp add: digits_value_snoc)
    qed
  }
qed

lemma show_nat_inj: "show_nat m = show_nat n \<Longrightarrow> m = n"
  by (metis show_nat_value)

text \<open>A string of digits is split off what follows it, when that does not start with a digit.\<close>

definition starts_with_digit :: "string \<Rightarrow> bool" where
  "starts_with_digit s = (s \<noteq> [] \<and> is_digit (hd s))"

lemma starts_with_digit_simps [simp]:
  "\<not> starts_with_digit []" "starts_with_digit (c # s) = is_digit c"
  by (simp_all add: starts_with_digit_def)

lemma span_digits:
  assumes "list_all is_digit d" "\<not> starts_with_digit rest"
  shows "takeWhile is_digit (d @ rest) = d" "dropWhile is_digit (d @ rest) = rest"
  using assms by (induction d) (auto simp: starts_with_digit_def takeWhile_eq_Nil_iff dropWhile_eq_self_iff)

section \<open>Printing doubles\<close>

text \<open>
  A stream prints a double as \<open>printf\<close> with \<open>%g\<close>: six significant digits, correctly rounded,
  without trailing zeros; in scientific notation when the decimal exponent is below \<open>-4\<close> or
  above \<open>5\<close>. The decimal exponent is found by searching.
\<close>

function dec_up :: "int \<Rightarrow> int \<Rightarrow> int \<Rightarrow> int" where
  "dec_up n d k = (if 0 < d \<and> 10 * d \<le> n then dec_up n (10 * d) (k + 1) else k)"
  by pat_completeness auto
termination
  by (relation "measure (\<lambda>(n, d, k). nat (n - d))") auto

function dec_down :: "int \<Rightarrow> int \<Rightarrow> int \<Rightarrow> int" where
  "dec_down n d k = (if 0 < n \<and> n < d then dec_down (10 * n) d (k - 1) else k)"
  by pat_completeness auto
termination
  by (relation "measure (\<lambda>(n, d, k). nat (d - n))") auto

declare dec_up.simps [simp del] dec_down.simps [simp del]

text \<open>The exponent \<open>k\<close> with \<open>10 ^ k \<le> n / d < 10 ^ (k + 1)\<close>.\<close>

definition dec_exp :: "int \<Rightarrow> int \<Rightarrow> int" where
  "dec_exp n d = (if n < d then dec_down n d 0 else dec_up n d 0)"

definition scaled10 :: "int \<Rightarrow> int \<Rightarrow> int \<Rightarrow> int \<times> int" where
  "scaled10 n d k = (if 0 \<le> k then (n * 10 ^ nat k, d) else (n, d * 10 ^ nat (- k)))"

text \<open>The six digits and the decimal exponent.\<close>

definition six_digits :: "int \<Rightarrow> int \<Rightarrow> int \<times> int" where
  "six_digits n d =
     (let k = dec_exp n d; (n', d') = scaled10 n d (5 - k); m = div_even n' d'
      in if m = 10 ^ 6 then (10 ^ 5, k + 1) else (m, k))"

definition strip0 :: "string \<Rightarrow> string" where
  "strip0 s = rev (dropWhile (\<lambda>c. c = CHR ''0'') (rev s))"

definition with_fraction :: "string \<Rightarrow> string \<Rightarrow> string" where
  "with_fraction whole fraction =
     (if strip0 fraction = [] then whole else whole @ CHR ''.'' # strip0 fraction)"

definition show_magnitude :: "int \<Rightarrow> int \<Rightarrow> string" where
  "show_magnitude n d =
     (let (m, k) = six_digits n d; s = pad0 6 (show_nat (nat m))
      in if k < -4 \<or> 6 \<le> k
         then with_fraction (take 1 s) (drop 1 s) @ CHR ''e'' #
              (if k < 0 then CHR ''-'' else CHR ''+'') # pad0 2 (show_nat (nat \<bar>k\<bar>))
         else if k < 0 then with_fraction ''0'' (replicate (nat (- k) - 1) CHR ''0'' @ s)
         else with_fraction (take (nat k + 1) s) (drop (nat k + 1) s))"

definition show_double :: "double \<Rightarrow> string" where
  "show_double x =
     (if d_neg x then ''-'' else '''') @
     (if isnan x then ''nan'' else if isinf x then ''inf''
      else if d_zero x then ''0''
      else case scaled (mag_sig (d_mag x)) 1 (d_exp x) of (n, d) \<Rightarrow> show_magnitude n d)"

section \<open>Broken-down time\<close>

record tm =
  tm_sec :: int
  tm_min :: int
  tm_hour :: int
  tm_mday :: int
  tm_mon :: int
  tm_year :: int

text \<open>\<open>strftime\<close> with the format \<open>%Y-%m-%dT%H:%M:%S\<close>; a buffer of 32 bytes is always enough.\<close>

definition strftime_iso :: "tm \<Rightarrow> string" where
  "strftime_iso t =
     show_int (tm_year t + 1900) @ ''-'' @ pad0 2 (show_int (tm_mon t + 1)) @ ''-'' @
     pad0 2 (show_int (tm_mday t)) @ ''T'' @ pad0 2 (show_int (tm_hour t)) @ '':'' @
     pad0 2 (show_int (tm_min t)) @ '':'' @ pad0 2 (show_int (tm_sec t))"

section \<open>Scanning\<close>

definition is_space :: "char \<Rightarrow> bool" where
  "is_space c = ((of_char c :: nat) \<in> {9, 10, 11, 12, 13, 32})"

definition skip_space :: "string \<Rightarrow> string" where
  "skip_space = dropWhile is_space"

text \<open>An optional sign.\<close>

fun scan_sign :: "string \<Rightarrow> bool \<times> string" where
  "scan_sign (c # s) = (if c = CHR ''-'' then (True, s) else if c = CHR ''+'' then (False, s) else (False, c # s))"
| "scan_sign [] = (False, [])"

definition scan_digits :: "string \<Rightarrow> (string \<times> string) option" where
  "scan_digits s = (let d = takeWhile is_digit s in if d = [] then None else Some (d, dropWhile is_digit s))"

text \<open>
  \<open>%d\<close>: the digits are read as a 64-bit \<open>long\<close>, with saturation, and stored in 32 bits;
  \<open>%lu\<close> is read as a 64-bit \<open>unsigned long\<close>.
\<close>

definition to_int32 :: "int \<Rightarrow> int" where
  "to_int32 v = sint (word_of_int (max (- (2 ^ 63)) (min (2 ^ 63 - 1) v)) :: 32 word)"

definition scan_int :: "string \<Rightarrow> (int \<times> string) option" where
  "scan_int s = (case scan_sign (skip_space s) of (neg, s) \<Rightarrow>
     map_option (\<lambda>(d, rest). (to_int32 (if neg then - int (digits_value d) else int (digits_value d)), rest))
       (scan_digits s))"

definition scan_u64 :: "string \<Rightarrow> (uint64 \<times> string) option" where
  "scan_u64 s = (case scan_sign (skip_space s) of (neg, s) \<Rightarrow>
     map_option (\<lambda>(d, rest).
         ((if 2 ^ 64 \<le> digits_value d then - 1
           else if neg then - of_nat (digits_value d) else of_nat (digits_value d)), rest))
       (scan_digits s))"

text \<open>
  \<open>%lf\<close>: the longest prefix that could begin a number is taken, and fails when it is not one.
  Numbers are decimal or hexadecimal, \<open>inf\<close>, \<open>infinity\<close> and \<open>nan\<close> in any case.
\<close>

definition is_hex :: "char \<Rightarrow> bool" where
  "is_hex c = (is_digit c \<or> (let n = (of_char c :: nat) in (65 \<le> n \<and> n \<le> 70) \<or> (97 \<le> n \<and> n \<le> 102)))"

definition hex_value :: "char \<Rightarrow> nat" where
  "hex_value c = (if is_digit c then digit_value c
     else if (of_char c :: nat) \<le> 70 then of_char c - 55 else of_char c - 87)"

definition lower :: "char \<Rightarrow> char" where
  "lower c = (let n = (of_char c :: nat) in if 65 \<le> n \<and> n \<le> 90 then char_of (n + 32) else c)"

definition base_value :: "nat \<Rightarrow> string \<Rightarrow> nat" where
  "base_value b s = foldl (\<lambda>v c. b * v + hex_value c) 0 s"

text \<open>The significand and the number of digits after the point; at least one digit.\<close>

definition scan_significand :: "nat \<Rightarrow> (char \<Rightarrow> bool) \<Rightarrow> string \<Rightarrow> (nat \<times> nat \<times> string) option" where
  "scan_significand b is_dig s =
     (let w = takeWhile is_dig s; s1 = dropWhile is_dig s;
          (f, s2) = (case s1 of c # s' \<Rightarrow> if c = CHR ''.'' then (takeWhile is_dig s', dropWhile is_dig s') else ([], s1)
                     | [] \<Rightarrow> ([], []))
      in if w = [] \<and> f = [] then None else Some (base_value b (w @ f), length f, s2))"

definition scan_exponent :: "char \<Rightarrow> string \<Rightarrow> (int \<times> string) option" where
  "scan_exponent e s = (case s of [] \<Rightarrow> Some (0, [])
     | c # s' \<Rightarrow> if lower c = e
         then (case scan_sign s' of (neg, s'') \<Rightarrow>
           map_option (\<lambda>(d, rest). (if neg then - int (digits_value d) else int (digits_value d), rest))
             (scan_digits s''))
         else Some (0, s))"

definition decimal_double :: "bool \<Rightarrow> int \<Rightarrow> int \<Rightarrow> double" where
  "decimal_double neg m e =
     (if 0 \<le> e then d_round neg (m * 10 ^ nat e) 1 0 else d_round neg m (10 ^ nat (- e)) 0)"

definition scan_unsigned_double :: "bool \<Rightarrow> string \<Rightarrow> (double \<times> string) option" where
  "scan_unsigned_double neg s =
     (if map lower (take 1 s) = ''n''
      then (if map lower (take 3 s) = ''nan'' then Some ((if neg then - NAN else NAN), drop 3 s) else None)
      else if map lower (take 1 s) = ''i''
      then (if map lower (take 8 s) = ''infinity'' then Some (d_inf neg, drop 8 s)
            else if map lower (take 4 s) = ''infi'' then None
            else if map lower (take 3 s) = ''inf'' then Some (d_inf neg, drop 3 s) else None)
      else if map lower (take 2 s) = ''0x''
      then Option.bind (scan_significand 16 is_hex (drop 2 s)) (\<lambda>(m, k, s).
           map_option (\<lambda>(e, rest). (d_round neg (int m) 1 (e - 4 * int k), rest)) (scan_exponent CHR ''p'' s))
      else Option.bind (scan_significand 10 is_digit s) (\<lambda>(m, k, s).
           map_option (\<lambda>(e, rest). (decimal_double neg (int m) (e - int k), rest)) (scan_exponent CHR ''e'' s)))"

definition scan_double :: "string \<Rightarrow> (double \<times> string) option" where
  "scan_double s = (case scan_sign (skip_space s) of (neg, s) \<Rightarrow> scan_unsigned_double neg s)"

text \<open>The directives of a format string, and the values that conversions give.\<close>

datatype directive = Lit char | Space | Conv_set "char \<Rightarrow> bool" | Conv_int | Conv_u64 | Conv_char
  | Conv_double | Conv_string

datatype scanned = In_string string | In_int int | In_u64 uint64 | In_char char | In_double double

fun sscanf :: "directive list \<Rightarrow> string \<Rightarrow> scanned list" where
  "sscanf [] s = []"
| "sscanf (Lit c # ds) s = (case s of [] \<Rightarrow> [] | c' # s' \<Rightarrow> if c = c' then sscanf ds s' else [])"
| "sscanf (Space # ds) s = sscanf ds (skip_space s)"
| "sscanf (Conv_set P # ds) s =
     (let w = takeWhile P s in if w = [] then [] else In_string w # sscanf ds (dropWhile P s))"
| "sscanf (Conv_string # ds) s =
     (let s = skip_space s; w = takeWhile (\<lambda>c. \<not> is_space c) s
      in if w = [] then [] else In_string w # sscanf ds (dropWhile (\<lambda>c. \<not> is_space c) s))"
| "sscanf (Conv_int # ds) s = (case scan_int s of None \<Rightarrow> [] | Some (v, s') \<Rightarrow> In_int v # sscanf ds s')"
| "sscanf (Conv_u64 # ds) s = (case scan_u64 s of None \<Rightarrow> [] | Some (v, s') \<Rightarrow> In_u64 v # sscanf ds s')"
| "sscanf (Conv_double # ds) s = (case scan_double s of None \<Rightarrow> [] | Some (v, s') \<Rightarrow> In_double v # sscanf ds s')"
| "sscanf (Conv_char # ds) s = (case s of [] \<Rightarrow> [] | c # s' \<Rightarrow> In_char c # sscanf ds s')"

text \<open>The literal characters of a format, where a blank stands for any white space.\<close>

definition lits :: "string \<Rightarrow> directive list" where
  "lits s = map (\<lambda>c. if is_space c then Space else Lit c) s"

end
