(* ===== verification/Double_Int.thy ===== *)
theory Double_Int
  imports Double
begin

text \<open>
  Integers in doubles: below \<open>2 ^ 53\<close> in magnitude an integer converts to a double without
  loss, is read back by truncation, and adds exactly.
\<close>

lemma lit_mag:
  assumes "n \<noteq> 0" "\<bar>n\<bar> < 2 ^ 53"
  obtains j where "0 \<le> j" "j \<le> 52" "2 ^ 52 \<le> \<bar>n\<bar> * 2 ^ nat j" "\<bar>n\<bar> * 2 ^ nat j < 2 ^ 53"
    and "d_mag (lit n) = (1074 - j) * 2 ^ 52 + \<bar>n\<bar> * 2 ^ nat j" "d_neg (lit n) = (n < 0)"
proof -
  define a where "a = \<bar>n\<bar>"
  have a: "0 < a" "a < 2 ^ 53" using assms by (simp_all add: a_def)
  define k where "k = flog a 1"
  have k: "2 powi k \<le> (of_int a :: rat)" "(of_int a :: rat) < 2 powi (k + 1)"
    using flog_bounds[of a 1] a(1) by (simp_all add: k_def)
  have k0: "0 \<le> k"
  proof (rule ccontr)
    assume "\<not> 0 \<le> k"
    then have "(2 :: rat) powi (k + 1) \<le> 2 powi 0" by (intro powi_le) simp
    then show False using k(2) a(1) by simp
  qed
  have k52: "k \<le> 52"
  proof (rule ccontr)
    assume "\<not> k \<le> 52"
    then have "(2 :: rat) powi 53 \<le> 2 powi k" by (intro powi_le) simp
    then have "(2 ^ 53 :: rat) \<le> of_int a" using k(1) by (simp add: power_int_def)
    then have "of_int (2 ^ 53) \<le> (of_int a :: rat)" by simp
    then show False using a(2) by (simp only: of_int_le_iff)
  qed
  have kn: "(2 :: int) ^ nat k \<le> a" "a < 2 ^ nat (k + 1)"
    using k k0 by (simp_all add: powi_nat)
  define j where "j = 52 - k"
  have j: "0 \<le> j" "j \<le> 52" using k0 k52 by (simp_all add: j_def)
  have p: "(2 :: int) ^ nat k * 2 ^ nat j = 2 ^ 52" "(2 :: int) ^ nat (k + 1) * 2 ^ nat j = 2 ^ 53"
    using k0 k52 by (simp_all flip: power_add nat_add_distrib add: j_def)
  have bounds: "2 ^ 52 \<le> a * 2 ^ nat j" "a * 2 ^ nat j < 2 ^ 53"
    using mult_right_mono[OF kn(1), of "2 ^ nat j"] mult_strict_right_mono[OF kn(2), of "2 ^ nat j"]
    by (simp_all only: p zero_le_power zero_less_power zero_le_numeral zero_less_numeral)
  have x: "max (-1074) (flog a 1 + 0 - 52) = - j" using j by (simp add: j_def k_def)
  have "round_mag a 1 0 = min inf_mag ((1074 - j) * 2 ^ 52 + a * 2 ^ nat j)"
    unfolding round_mag_def x Let_def using a(1) j(1) by (simp add: scaled_def div_even_def)
  also have "\<dots> = (1074 - j) * 2 ^ 52 + a * 2 ^ nat j"
  proof -
    have "(1074 - j) * 2 ^ 52 + a * 2 ^ nat j \<le> 1074 * 2 ^ 52 + 2 ^ 53" using bounds j by simp
    then show ?thesis by (simp add: inf_mag_def)
  qed
  finally have "d_mag (lit n) = (1074 - j) * 2 ^ 52 + a * 2 ^ nat j" "d_neg (lit n) = (n < 0)"
    using d_round_fields[of "\<bar>n\<bar>" 1 "n < 0" 0] by (simp_all add: lit_def a_def)
  then show ?thesis using that[of j] j bounds by (simp add: a_def)
qed

lemma lit_0: "lit 0 = 0"
  by (simp add: lit_def d_round_def round_mag_def d_make_def zero_double_def)

lemma lit_exact:
  assumes "\<bar>n\<bar> < 2 ^ 53"
  shows "d_val (lit n) = of_int n" and "isfinite (lit n)"
proof -
  have "d_val (lit n) = of_int n \<and> isfinite (lit n)"
  proof (cases "n = 0")
    case True
    then show ?thesis by (simp add: lit_0)
  next
    case False
    obtain j where j: "0 \<le> j" "j \<le> 52" "2 ^ 52 \<le> \<bar>n\<bar> * 2 ^ nat j" "\<bar>n\<bar> * 2 ^ nat j < 2 ^ 53"
      "d_mag (lit n) = (1074 - j) * 2 ^ 52 + \<bar>n\<bar> * 2 ^ nat j" "d_neg (lit n) = (n < 0)"
      using lit_mag[OF False assms] by blast
    let ?s = "\<bar>n\<bar> * 2 ^ nat j"
    have q: "d_mag (lit n) div 2 ^ 52 = 1075 - j" and r: "d_mag (lit n) mod 2 ^ 52 = ?s - 2 ^ 52"
    proof -
      have e: "d_mag (lit n) = (?s - 2 ^ 52) + (1075 - j) * 2 ^ 52" by (simp add: j(5) algebra_simps)
      have two52: "(2 :: int) ^ 52 \<noteq> 0" by simp
      have "0 \<le> ?s - 2 ^ 52" "?s - 2 ^ 52 < 2 ^ 52" using j(3,4) by simp_all
      then show "d_mag (lit n) div 2 ^ 52 = 1075 - j" "d_mag (lit n) mod 2 ^ 52 = ?s - 2 ^ 52"
        unfolding e div_mult_self1[OF two52] mod_mult_self1 by (simp_all only: div_pos_pos_trivial mod_pos_pos_trivial add.right_neutral)
    qed
    have "mag_exp (d_mag (lit n)) = - j" "mag_sig (d_mag (lit n)) = ?s"
      using j(2) unfolding mag_exp_def mag_sig_def q r Let_def by simp_all
    moreover have "(of_int ?s :: rat) * 2 powi (- j) = of_int \<bar>n\<bar>"
      using j(1) by (simp add: power_int_def field_simps)
    ultimately have "mag_val (d_mag (lit n)) = of_int \<bar>n\<bar>" by (simp add: mag_val_def)
    moreover have "isfinite (lit n)"
    proof -
      have "d_mag (lit n) < 1074 * 2 ^ 52 + 2 ^ 53" using j by simp
      then show ?thesis by (simp add: isfinite_def inf_mag_def)
    qed
    ultimately show ?thesis by (simp add: d_val_mag j(6))
  qed
  then show "d_val (lit n) = of_int n" "isfinite (lit n)" by simp_all
qed

lemma d_trunc_val:
  assumes "isfinite x" "d_val x = of_int n"
  shows "d_trunc x = Some n"
proof -
  obtain a d where ad: "scaled (mag_sig (d_mag x)) 1 (d_exp x) = (a, d)" by fastforce
  have v: "0 < d" "(of_int a / of_int d :: rat) = mag_val (d_mag x)"
    using scaled_value[OF ad] by (simp_all add: mag_val_def d_exp_def)
  then have "(of_int a / of_int d :: rat) = of_int \<bar>n\<bar>" using d_val_abs[of x] assms(2) by simp
  then have "(of_int a :: rat) = of_int (\<bar>n\<bar> * d)" using v(1) by (simp add: field_simps)
  then have "a = \<bar>n\<bar> * d" by (simp only: of_int_eq_iff)
  then have q: "a div d = \<bar>n\<bar>" using v(1) by simp
  have "n < 0 \<longrightarrow> d_neg x" "0 < n \<longrightarrow> \<not> d_neg x"
    using assms(2) mag_val_nonneg[of "d_mag x"] by (auto simp: d_val_mag split: if_splits)
  then show ?thesis using assms(1) by (auto simp: d_trunc_def ad q)
qed

lemma d_trunc_lit: "\<bar>n\<bar> < 2 ^ 53 \<Longrightarrow> d_trunc (lit n) = Some n"
  by (rule d_trunc_val) (simp_all add: lit_exact)

lemma key_val_eq: "d_key x = d_key y \<Longrightarrow> d_val x = d_val y"
  using d_mag_nonneg[of x] d_mag_nonneg[of y]
  by (cases "d_neg x"; cases "d_neg y") (auto simp: d_key_def d_val_mag eq_neg_iff_add_eq_0 neg_eq_iff_add_eq_0 add_nonneg_eq_0_iff)

lemma d_trunc_plus_lit:
  assumes "\<bar>a\<bar> < 2 ^ 53" "\<bar>b\<bar> < 2 ^ 53" "\<bar>a + b\<bar> < 2 ^ 53"
  shows "d_trunc (lit a + lit b) = Some (a + b)"
proof (rule d_trunc_val)
  have s: "signed_round (of_int (a + b)) (d_key (lit a + lit b))" "\<not> isnan (lit a + lit b)"
    using plus_value[of "lit a" "lit b"] assms by (simp_all add: lit_exact)
  have l: "signed_round (of_int (a + b)) (d_key (lit (a + b)))"
    using d_key_value[of "lit (a + b)"] assms(3) by (simp add: lit_exact)
  have k: "d_key (lit a + lit b) = d_key (lit (a + b))"
    using signed_round_mono[OF s(1) l] signed_round_mono[OF l s(1)] by simp
  then show "d_val (lit a + lit b) = of_int (a + b)"
    using key_val_eq lit_exact(1)[OF assms(3)] by metis
  have "d_mag (lit a + lit b) = d_mag (lit (a + b))"
    using arg_cong[OF k, of abs] by (simp add: d_key_def split: if_splits)
  then show "isfinite (lit a + lit b)" using lit_exact(2)[OF assms(3)] by (simp add: isfinite_def)
qed

end
