(* ===== verification/Model_Text.thy ===== *)
theory Model_Text
  imports Models Stdio Double_Int "HOL-Library.Monad_Syntax"
begin

text \<open>
  The text of the value types of \<open>src/models\<close>: the calendar constructors of \<open>Timestamp\<close>, its
  conversion to a string, the stream output operators of the structures, and the \<open>parse\<close>
  methods that read the text back.

  The time zone of the process is a parameter: \<open>localtime_r\<close> and \<open>mktime\<close>. \<open>None\<close> stands for
  the undefined conversion of a double that an integer type cannot hold, and for a time that
  \<open>localtime_r\<close> refuses, which leaves the broken-down time uninitialised.
\<close>

section \<open>Timestamps\<close>

record time_zone =
  localtime :: "int \<Rightarrow> tm option"
  mktime :: "tm \<Rightarrow> int"

text \<open>The conversion of a double to a signed integer of the given width.\<close>

definition d_to_signed :: "nat \<Rightarrow> double \<Rightarrow> int option" where
  "d_to_signed w x = Option.bind (d_trunc x) (\<lambda>i. if - (2 ^ (w - 1)) \<le> i \<and> i < 2 ^ (w - 1) then Some i else None)"

definition ts_of_tm :: "time_zone \<Rightarrow> tm \<Rightarrow> timestamp" where
  "ts_of_tm tz t = lit (mktime tz t)"

text \<open>The seconds enter the broken-down time and are added once more.\<close>

definition ts_of_date ::
  "time_zone \<Rightarrow> int \<Rightarrow> 8 word \<Rightarrow> 8 word \<Rightarrow> 8 word \<Rightarrow> 8 word \<Rightarrow> double \<Rightarrow> timestamp option" where
  "ts_of_date tz year month day hours minutes seconds = do {
     sec \<leftarrow> d_to_signed 32 seconds;
     let t = \<lparr>tm_sec = sec, tm_min = uint minutes, tm_hour = uint hours, tm_mday = uint day,
       tm_mon = uint month - 1, tm_year = year - 1900\<rparr>;
     Some (seconds + lit (mktime tz t)) }"

definition ts_of_timeval :: "int \<Rightarrow> int \<Rightarrow> timestamp" where
  "ts_of_timeval tv_sec tv_usec = lit tv_sec + lit tv_usec * dec 1 6"

text \<open>The default constructor: the UTC time is broken down and read back as local time.\<close>

definition ts_now :: "time_zone \<Rightarrow> (int \<Rightarrow> tm) \<Rightarrow> int \<Rightarrow> int \<Rightarrow> timestamp" where
  "ts_now tz gmtime tv_sec tv_usec = lit (mktime tz (gmtime tv_sec)) + lit tv_usec * dec 1 6"

definition ts_string :: "time_zone \<Rightarrow> timestamp \<Rightarrow> string option" where
  "ts_string tz v =
     (if isnan v then Some ''????-??-??T??:??:??''
      else Option.bind (d_to_signed 64 v) (\<lambda>t. map_option strftime_iso (localtime tz t)))"

definition show_span :: "time_zone \<Rightarrow> timestamp_span \<Rightarrow> string option" where
  "show_span tz s = do {
     from \<leftarrow> ts_string tz (span_from s);
     to \<leftarrow> ts_string tz (span_to s);
     Some (''<TimestampSpan from='' @ from @ '' to='' @ to @ ''>'') }"

section \<open>Prices\<close>

text \<open>The operator \<open>%\<close> of the language: the remainder has the sign of the dividend.\<close>

definition c_rem :: "int \<Rightarrow> int \<Rightarrow> int" where
  "c_rem a b = sgn a * (\<bar>a\<bar> mod \<bar>b\<bar>)"

text \<open>The decimals of a price: hundredths, padded with a zero on the right.\<close>

definition price_decimals :: "double \<Rightarrow> string option" where
  "price_decimals price = map_option (\<lambda>c.
     let decimals = show_int (c_rem c 100) in if length decimals < 2 then decimals @ ''0'' else decimals)
     (d_to_signed 32 (lit 100 * price))"

definition show_price :: "double \<Rightarrow> string option" where
  "show_price price = do {
     decimals \<leftarrow> price_decimals price;
     units \<leftarrow> d_to_signed 32 price;
     Some (show_int units @ ''.'' @ decimals) }"

section \<open>Stream output\<close>

definition show_balance :: "balance \<Rightarrow> string" where
  "show_balance b = ''(liquidity='' @ show_double (liquidity b) @ '' stock='' @ show_double (stock b) @
     '' commission='' @ show_double (commission b) @ '')''"

fun show_origin_type :: "origin_type \<Rightarrow> string" where
  "show_origin_type OriginUnknown = ''UNKNOWN''"
| "show_origin_type OriginInit = ''INIT''"
| "show_origin_type OriginUpdate = ''UPDATE''"
| "show_origin_type OriginTrade = ''TRADE''"

definition show_origin :: "balance_change_origin \<Rightarrow> string" where
  "show_origin g = show_origin_type (origin_type g) @
     (if origin_id g \<noteq> 0 then ''-'' @ show_u64 (origin_id g) else '''')"

definition show_balance_change :: "time_zone \<Rightarrow> balance_change \<Rightarrow> string option" where
  "show_balance_change tz bc = map_option (\<lambda>ts.
     ''<BalanceChange origin='' @ show_origin (bc_origin bc) @ '' delta='' @ show_balance (bc_delta bc) @
     '' consolidated='' @ show_balance (bc_consolidated bc) @ '' timestamp='' @ ts @ '')'')
     (ts_string tz (bc_timestamp bc))"

fun show_status :: "decision_status \<Rightarrow> string" where
  "show_status CANCELLED = ''CANCELLED''"
| "show_status PENDING = ''PENDING  ''"
| "show_status PASSED = ''PASSED   ''"

definition show_decision :: "time_zone \<Rightarrow> decision \<Rightarrow> string option" where
  "show_decision tz d = map_option (\<lambda>ts.
     ''<Decision type='' @ show_action (d_type d) @ '' status='' @ show_status (d_status d) @
     '' timestamp='' @ ts @ '' price='' @ show_double (d_price d) @ '' amount='' @ show_double (d_amount d) @
     '' order_id='' @ show_u64 (d_order_id d)) (ts_string tz (d_timestamp d))"

definition show_order :: "time_zone \<Rightarrow> order \<Rightarrow> string option" where
  "show_order tz r = do {
     price \<leftarrow> show_price (o_price r);
     ts \<leftarrow> ts_string tz (o_timestamp r);
     Some (''<Order id='' @ show_u64 (o_id r) @ '' timestamp='' @ ts @ '' type='' @ show_action (o_type r) @
       '' price='' @ price @ '' amount='' @ show_double (o_amount r) @ ''>'') }"

text \<open>The buy order is printed a second time in the place of the decision.\<close>

definition show_trade :: "time_zone \<Rightarrow> trade \<Rightarrow> string option" where
  "show_trade tz t = do {
     price \<leftarrow> show_price (t_price t);
     ts \<leftarrow> ts_string tz (t_timestamp t);
     Some (''<Trade id='' @ show_u64 (t_id t) @ '' decision_id='' @ show_u64 (t_buy_order_id t) @
       '' buy_order_id='' @ show_u64 (t_buy_order_id t) @ '' sell_order_id='' @ show_u64 (t_sell_order_id t) @
       '' timestamp='' @ ts @ '' type='' @ show_action (t_type t) @ '' price='' @ price @
       '' volume='' @ show_double (t_volume t) @ ''>'') }"

definition show_summary_part :: "summary_part \<Rightarrow> string" where
  "show_summary_part p = ''(count='' @ show_u64 (sp_count p) @ '' volume='' @ show_double (sp_volume p) @
     '' average_price='' @ show_double (sp_average_price p) @ '')''"

definition show_trade_summary :: "time_zone \<Rightarrow> trade_summary \<Rightarrow> string option" where
  "show_trade_summary tz s = do {
     from \<leftarrow> ts_string tz (span_from (ts_span s));
     to \<leftarrow> ts_string tz (span_to (ts_span s));
     Some (''<TradeSummary from='' @ from @ '' to='' @ to @ '' buys='' @ show_summary_part (ts_buys s) @
       '' sells='' @ show_summary_part (ts_sells s) @ '' spread='' @ show_double (ts_spread s) @ ''>'') }"

section \<open>Parsing\<close>

definition balance_change_parse :: "string \<Rightarrow> balance_change \<Rightarrow> bool \<times> balance_change" where
  "balance_change_parse source bc = (False, bc)"

definition order_parse :: "string \<Rightarrow> order \<Rightarrow> bool \<times> order" where
  "order_parse source r = (False, r)"

definition decision_parse :: "string \<Rightarrow> decision \<Rightarrow> bool \<times> decision" where
  "decision_parse source d = (False, d)"

text \<open>The format of \<open>Trade::parse\<close>, which has sixteen conversions.\<close>

definition trade_format :: "directive list" where
  "trade_format =
     lits ''<Trade id='' @ [Conv_u64] @ lits '' decision_id='' @ [Conv_u64] @ lits '' buy_order_id='' @ [Conv_u64] @
     lits '' sell_order_id='' @ [Conv_u64] @ lits '' timestamp='' @ [Conv_int] @ lits ''-'' @ [Conv_int] @
     lits ''-'' @ [Conv_int] @ lits ''T'' @ [Conv_int] @ lits '':'' @ [Conv_int] @ lits '':'' @ [Conv_int] @
     lits '' type='' @ [Conv_char, Conv_char, Conv_char, Conv_char] @ lits '' price='' @ [Conv_double] @
     lits '' volume='' @ [Conv_double] @ lits ''>''"

text \<open>The assignments of \<open>sscanf\<close> to the members, which happen whether or not \<open>parse\<close> succeeds.\<close>

fun assign_scanned :: "nat \<Rightarrow> scanned \<Rightarrow> trade \<Rightarrow> trade" where
  "assign_scanned k (In_u64 v) t =
     (if k = 0 then t\<lparr>t_id := v\<rparr> else if k = 1 then t\<lparr>t_decision_id := v\<rparr>
      else if k = 2 then t\<lparr>t_buy_order_id := v\<rparr> else t\<lparr>t_sell_order_id := v\<rparr>)"
| "assign_scanned k (In_double v) t = (if k = 14 then t\<lparr>t_price := v\<rparr> else t\<lparr>t_volume := v\<rparr>)"
| "assign_scanned k _ t = t"

definition assign_all :: "scanned list \<Rightarrow> trade \<Rightarrow> trade" where
  "assign_all vs t = fold (\<lambda>(k, v). assign_scanned k v) (enumerate 0 vs) t"

definition scanned_int :: "scanned \<Rightarrow> int" where
  "scanned_int v = (case v of In_int i \<Rightarrow> i | _ \<Rightarrow> 0)"

definition scanned_tm :: "scanned list \<Rightarrow> tm" where
  "scanned_tm vs = \<lparr>tm_sec = scanned_int (vs ! 9), tm_min = scanned_int (vs ! 8), tm_hour = scanned_int (vs ! 7),
     tm_mday = scanned_int (vs ! 6), tm_mon = scanned_int (vs ! 5) - 1, tm_year = scanned_int (vs ! 4) - 1900\<rparr>"

text \<open>The member \<open>tm_isdst\<close> of the time is not initialised: \<open>tz\<close> reads it as it happens to be.\<close>

definition trade_parse :: "time_zone \<Rightarrow> string \<Rightarrow> trade \<Rightarrow> bool \<times> trade" where
  "trade_parse tz source t =
     (let vs = sscanf trade_format source; t = assign_all vs t
      in if length vs \<noteq> 15 then (False, t)
         else let t = t\<lparr>t_timestamp := ts_of_tm tz (scanned_tm vs)\<rparr>
              in if vs ! 10 = In_char CHR ''W'' then (True, t\<lparr>t_type := WAIT\<rparr>)
                 else if vs ! 10 = In_char CHR ''S'' then (True, t\<lparr>t_type := SELL\<rparr>)
                 else if vs ! 10 = In_char CHR ''B'' then (True, t\<lparr>t_type := BUY\<rparr>)
                 else (False, t))"

section \<open>Scanning what was printed\<close>

lemma digit_not_space: "is_digit c \<Longrightarrow> \<not> is_space c"
  by (auto simp: is_digit_def is_space_def)

lemma digit_not_sign: "is_digit c \<Longrightarrow> c \<noteq> CHR ''-'' \<and> c \<noteq> CHR ''+'' \<and> c \<noteq> CHR ''.''"
  by (auto simp: is_digit_def)

lemma scan_sign_digits: "list_all is_digit d \<Longrightarrow> d \<noteq> [] \<Longrightarrow> scan_sign (d @ rest) = (False, d @ rest)"
  using digit_not_sign by (cases d) auto

lemma skip_space_digits: "list_all is_digit d \<Longrightarrow> d \<noteq> [] \<Longrightarrow> skip_space (d @ rest) = d @ rest"
  using digit_not_space by (cases d) (auto simp: skip_space_def)

lemma scan_digits_app:
  "list_all is_digit d \<Longrightarrow> d \<noteq> [] \<Longrightarrow> \<not> starts_with_digit rest \<Longrightarrow> scan_digits (d @ rest) = Some (d, rest)"
  by (simp add: scan_digits_def span_digits)

lemma scan_u64_show:
  assumes "\<not> starts_with_digit rest"
  shows "scan_u64 (show_u64 w @ rest) = Some (w, rest)"
proof -
  have "\<not> 2 ^ 64 \<le> unat w" using unsigned_less[of w, where 'a = nat] by simp
  then show ?thesis
    using assms by (simp add: scan_u64_def show_u64_def skip_space_digits scan_sign_digits scan_digits_app)
qed

lemma to_int32_id: "- (2 ^ 31) \<le> i \<Longrightarrow> i < 2 ^ 31 \<Longrightarrow> to_int32 i = i"
  by (simp add: to_int32_def int_word_sint)

lemma pad0_digits:
  "list_all is_digit s \<Longrightarrow> list_all is_digit (pad0 w s)" "s \<noteq> [] \<Longrightarrow> pad0 w s \<noteq> []"
  "digits_value (pad0 w s) = digits_value s"
proof -
  have "is_digit CHR ''0''" "digit_value CHR ''0'' = 0" by (simp_all add: is_digit_def digit_value_def)
  then show "list_all is_digit s \<Longrightarrow> list_all is_digit (pad0 w s)"
    by (auto simp: pad0_def list_all_iff)
  have "digits_value (replicate n CHR ''0'' @ s) = digits_value s" for n
    by (induction n) (simp_all add: digits_value_def digit_value_def)
  then show "digits_value (pad0 w s) = digits_value s" by (simp add: pad0_def)
qed (simp add: pad0_def)

lemma scan_int_digits:
  assumes "list_all is_digit d" "d \<noteq> []" "digits_value d < 2 ^ 31" "\<not> starts_with_digit rest"
  shows "scan_int (d @ rest) = Some (int (digits_value d), rest)"
  using assms by (simp add: scan_int_def skip_space_digits scan_sign_digits scan_digits_app to_int32_id)

lemma scan_int_padded:
  assumes "0 \<le> i" "i < 2 ^ 31" "\<not> starts_with_digit rest"
  shows "scan_int (pad0 w (show_int i) @ rest) = Some (i, rest)"
    and "scan_int (show_int i @ rest) = Some (i, rest)"
  using assms scan_int_digits[of "pad0 w (show_nat (nat i))" rest] scan_int_digits[of "show_nat (nat i)" rest]
  by (simp_all add: show_int_def pad0_digits)

text \<open>A double is read back as some number whatever follows it, unless that continues it.\<close>

definition number_end :: "string \<Rightarrow> bool" where
  "number_end s = (s = [] \<or> (let c = hd s in \<not> is_digit c \<and> c \<noteq> CHR ''.'' \<and> lower c \<notin> {CHR ''e'', CHR ''x'', CHR ''i''}))"

lemma number_end_simps [simp]:
  "number_end []"
  "number_end (c # s) \<longleftrightarrow> \<not> is_digit c \<and> c \<noteq> CHR ''.'' \<and> lower c \<notin> {CHR ''e'', CHR ''x'', CHR ''i''}"
  by (simp_all add: number_end_def)

lemma lower_digit: "is_digit c \<Longrightarrow> lower c = c"
  by (auto simp: is_digit_def lower_def Let_def)

lemma digit_not_letter: "is_digit c \<Longrightarrow> lower c \<noteq> CHR ''n'' \<and> lower c \<noteq> CHR ''i'' \<and> lower c \<noteq> CHR ''x''"
  by (auto simp: lower_digit is_digit_def)

lemma not_hex_prefix:
  assumes "list_all is_digit d" "d \<noteq> []" "rest = [] \<or> lower (hd rest) \<noteq> CHR ''x''"
  shows "map lower (take 1 (d @ rest)) \<noteq> ''n''" "map lower (take 1 (d @ rest)) \<noteq> ''i''"
    "map lower (take 2 (d @ rest)) \<noteq> ''0x''"
proof -
  obtain c d' where d: "d = c # d'" using assms(2) by (cases d) auto
  then show "map lower (take 1 (d @ rest)) \<noteq> ''n''" "map lower (take 1 (d @ rest)) \<noteq> ''i''"
    using assms(1) digit_not_letter[of c] by auto
  show "map lower (take 2 (d @ rest)) \<noteq> ''0x''"
  proof (cases d')
    case Nil
    then show ?thesis using assms(3) d by (cases rest) (auto simp: take_Cons')
  next
    case (Cons x xs)
    then show ?thesis using assms(1) d digit_not_letter[of x] by (auto simp: take_Cons')
  qed
qed

lemma scan_significand_plain:
  assumes "list_all is_digit d" "d \<noteq> []" "\<not> starts_with_digit rest" "rest = [] \<or> hd rest \<noteq> CHR ''.''"
  shows "scan_significand 10 is_digit (d @ rest) = Some (base_value 10 d, 0, rest)"
  unfolding scan_significand_def Let_def span_digits[OF assms(1,3)]
  using assms(2,4) by (cases rest) simp_all

lemma scan_significand_point:
  assumes "list_all is_digit d" "d \<noteq> []" "list_all is_digit f" "\<not> starts_with_digit rest"
  shows "scan_significand 10 is_digit (d @ CHR ''.'' # f @ rest) = Some (base_value 10 (d @ f), length f, rest)"
proof -
  have "\<not> starts_with_digit (CHR ''.'' # f @ rest)" by (simp add: is_digit_def)
  note span_digits[OF assms(1) this] span_digits[OF assms(3,4)]
  then show ?thesis using assms(2) by (simp add: scan_significand_def Let_def)
qed

text \<open>A fraction, an exponent, and the number that they end.\<close>

definition is_fraction :: "string \<Rightarrow> bool" where
  "is_fraction s = (s = [] \<or> (hd s = CHR ''.'' \<and> list_all is_digit (tl s)))"

definition is_exponent :: "string \<Rightarrow> bool" where
  "is_exponent s = (s = [] \<or> (\<exists>c d. s = CHR ''e'' # c # d \<and> (c = CHR ''-'' \<or> c = CHR ''+'') \<and> list_all is_digit d \<and> d \<noteq> []))"

lemma scan_exponent_end:
  assumes "is_exponent ex" "number_end rest"
  shows "\<exists>e. scan_exponent CHR ''e'' (ex @ rest) = Some (e, rest)"
proof (cases "ex = []")
  case True
  then show ?thesis using assms(2) by (cases rest) (auto simp: scan_exponent_def)
next
  case False
  then obtain c d where ex: "ex = CHR ''e'' # c # d" "c = CHR ''-'' \<or> c = CHR ''+''" "list_all is_digit d" "d \<noteq> []"
    using assms(1) by (auto simp: is_exponent_def)
  have "\<not> starts_with_digit rest" using assms(2) by (cases rest) auto
  moreover have "lower CHR ''e'' = CHR ''e''" by (simp add: lower_def)
  ultimately show ?thesis using ex scan_digits_app[OF ex(3,4)] by (auto simp: scan_exponent_def)
qed

lemma scan_decimal:
  assumes "list_all is_digit w" "w \<noteq> []" "is_fraction f" "is_exponent ex" "number_end rest"
  shows "\<exists>v. scan_unsigned_double neg (w @ f @ ex @ rest) = Some (v, rest)"
proof -
  have ex: "\<not> starts_with_digit (ex @ rest)" "ex @ rest = [] \<or> hd (ex @ rest) \<noteq> CHR ''.''"
    "ex @ rest = [] \<or> lower (hd (ex @ rest)) \<noteq> CHR ''x''"
  proof -
    consider "ex = []" | c d where "ex = CHR ''e'' # c # d" using assms(4) by (auto simp: is_exponent_def)
    then have "\<not> starts_with_digit (ex @ rest) \<and> (ex @ rest = [] \<or> hd (ex @ rest) \<noteq> CHR ''.'') \<and>
      (ex @ rest = [] \<or> lower (hd (ex @ rest)) \<noteq> CHR ''x'')"
    proof cases
      case 1
      then show ?thesis using assms(5) by (cases rest) auto
    next
      case 2
      have "\<not> is_digit CHR ''e''" "lower CHR ''e'' = CHR ''e''" by (simp_all add: is_digit_def lower_def)
      then show ?thesis using 2 by simp
    qed
    then show "\<not> starts_with_digit (ex @ rest)" "ex @ rest = [] \<or> hd (ex @ rest) \<noteq> CHR ''.''"
      "ex @ rest = [] \<or> lower (hd (ex @ rest)) \<noteq> CHR ''x''" by auto
  qed
  have "f @ ex @ rest = [] \<or> lower (hd (f @ ex @ rest)) \<noteq> CHR ''x''"
  proof -
    have "lower CHR ''.'' = CHR ''.''" by (simp add: lower_def)
    then show ?thesis using assms(3) ex(3) by (cases f) (auto simp: is_fraction_def)
  qed
  note p = not_hex_prefix[OF assms(1,2) this]
  obtain m k where "scan_significand 10 is_digit (w @ f @ ex @ rest) = Some (m, k, ex @ rest)"
  proof (cases "f = []")
    case True
    then show ?thesis using that scan_significand_plain[OF assms(1,2) ex(1,2)] by auto
  next
    case False
    then obtain g where "f = CHR ''.'' # g" "list_all is_digit g"
      using assms(3) by (cases f) (auto simp: is_fraction_def)
    then show ?thesis using that scan_significand_point[OF assms(1,2) _ ex(1), of g] by auto
  qed
  then show ?thesis
    using p scan_exponent_end[OF assms(4,5)] by (auto simp: scan_unsigned_double_def)
qed


lemma strip0_digits: "list_all is_digit s \<Longrightarrow> list_all is_digit (strip0 s)"
  by (auto simp: strip0_def list_all_iff dest: set_dropWhileD)

lemma with_fraction_form:
  assumes "list_all is_digit fraction"
  shows "\<exists>f. with_fraction whole fraction = whole @ f \<and> is_fraction f"
  using strip0_digits[OF assms] by (auto simp: with_fraction_def is_fraction_def)

lemma show_magnitude_form:
  "\<exists>w f ex. show_magnitude n d = w @ f @ ex \<and> list_all is_digit w \<and> w \<noteq> [] \<and> is_fraction f \<and> is_exponent ex"
proof -
  obtain m k where mk: "six_digits n d = (m, k)" by fastforce
  define s where "s = pad0 6 (show_nat (nat m))"
  have s: "list_all is_digit s" "s \<noteq> []" by (simp_all add: s_def pad0_digits)
  have sub: "list_all is_digit (take j s)" "list_all is_digit (drop j s)" "take (Suc j) s \<noteq> []" for j
    using s by (auto simp: list_all_iff dest: in_set_takeD in_set_dropD)
  have zero: "list_all is_digit (replicate j CHR ''0'' @ s)" "list_all is_digit ''0''" for j
    using s(1) by (auto simp: list_all_iff is_digit_def)
  have e0: "is_exponent []" by (simp add: is_exponent_def)
  show ?thesis
  proof (cases "k < -4 \<or> 6 \<le> k")
    case True
    define ex where "ex = CHR ''e'' # (if k < 0 then CHR ''-'' else CHR ''+'') # pad0 2 (show_nat (nat \<bar>k\<bar>))"
    obtain f where f: "with_fraction (take 1 s) (drop 1 s) = take 1 s @ f" "is_fraction f"
      using with_fraction_form sub(2) by blast
    have "is_exponent ex" by (auto simp: is_exponent_def ex_def pad0_digits)
    moreover have "show_magnitude n d = take 1 s @ f @ ex"
      using True f(1) by (simp add: show_magnitude_def mk s_def ex_def)
    ultimately show ?thesis using f(2) sub(1)[of 1] sub(3)[of 0] by (metis One_nat_def)
  next
    case False
    show ?thesis
    proof (cases "k < 0")
      case True
      obtain f where f: "with_fraction ''0'' (replicate (nat (- k) - 1) CHR ''0'' @ s) = ''0'' @ f" "is_fraction f"
        using with_fraction_form zero(1) by blast
      have "show_magnitude n d = ''0'' @ f @ []"
        using False True f(1) by (simp add: show_magnitude_def mk s_def)
      then show ?thesis using f(2) e0 zero(2) by (metis list.distinct(1))
    next
      case kpos: False
      obtain f where f: "with_fraction (take (nat k + 1) s) (drop (nat k + 1) s) = take (nat k + 1) s @ f" "is_fraction f"
        using with_fraction_form sub(2) by blast
      have "show_magnitude n d = take (nat k + 1) s @ f @ []"
        using False kpos f(1) by (simp add: show_magnitude_def mk s_def)
      then show ?thesis using f(2) e0 sub(1) sub(3) by (metis Suc_eq_plus1)
    qed
  qed
qed

lemma scan_body:
  assumes "body = ''nan'' \<or> body = ''inf'' \<or>
      (\<exists>w f ex. body = w @ f @ ex \<and> list_all is_digit w \<and> w \<noteq> [] \<and> is_fraction f \<and> is_exponent ex)"
    and "number_end rest"
  shows "\<exists>v. scan_unsigned_double neg (body @ rest) = Some (v, rest)"
    and "scan_sign (body @ rest) = (False, body @ rest)" and "skip_space (body @ rest) = body @ rest"
proof -
  consider "body = ''nan''" | "body = ''inf''" | w f ex where "body = w @ f @ ex" "list_all is_digit w" "w \<noteq> []"
    "is_fraction f" "is_exponent ex" using assms(1) by auto
  then have "(\<exists>v. scan_unsigned_double neg (body @ rest) = Some (v, rest)) \<and>
    scan_sign (body @ rest) = (False, body @ rest) \<and> skip_space (body @ rest) = body @ rest"
  proof cases
    case 1
    then show ?thesis by (simp add: scan_unsigned_double_def lower_def skip_space_def is_space_def)
  next
    case 2
    have "rest = [] \<or> lower (hd rest) \<noteq> CHR ''i''" using assms(2) by (cases rest) auto
    then have "map lower (take 4 (body @ rest)) \<noteq> ''infi''" "map lower (take 8 (body @ rest)) \<noteq> ''infinity''"
      using 2 by (cases rest; simp)+
    then show ?thesis using 2 by (simp add: scan_unsigned_double_def lower_def skip_space_def is_space_def)
  next
    case 3
    then show ?thesis
      using scan_decimal[OF 3(2-5) assms(2)] scan_sign_digits[OF 3(2,3)] skip_space_digits[OF 3(2,3)] by simp
  qed
  then show "\<exists>v. scan_unsigned_double neg (body @ rest) = Some (v, rest)"
    "scan_sign (body @ rest) = (False, body @ rest)" "skip_space (body @ rest) = body @ rest" by auto
qed

lemma scan_show_double:
  assumes "number_end rest"
  shows "\<exists>v. scan_double (show_double x @ rest) = Some (v, rest)"
proof -
  obtain n d where nd: "scaled (mag_sig (d_mag x)) 1 (d_exp x) = (n, d)" by fastforce
  define body where "body = (if isnan x then ''nan'' else if isinf x then ''inf'' else if d_zero x then ''0''
    else show_magnitude n d)"
  have "''0'' = ''0'' @ [] @ [] \<and> list_all is_digit ''0'' \<and> is_fraction [] \<and> is_exponent []"
    by (simp add: is_digit_def is_fraction_def is_exponent_def)
  then have form: "body = ''nan'' \<or> body = ''inf'' \<or>
      (\<exists>w f ex. body = w @ f @ ex \<and> list_all is_digit w \<and> w \<noteq> [] \<and> is_fraction f \<and> is_exponent ex)"
    unfolding body_def using show_magnitude_form[of n d] by (smt (verit) list.distinct(1))
  have s: "show_double x = (if d_neg x then ''-'' else '''') @ body"
    by (simp add: show_double_def body_def nd)
  note b = scan_body[OF form assms]
  show ?thesis
  proof (cases "d_neg x")
    case True
    then show ?thesis using s b(1)[of True] by (simp add: scan_double_def skip_space_def is_space_def)
  next
    case False
    then show ?thesis using s b(1)[of False] b(2,3) by (simp add: scan_double_def)
  qed
qed


lemma scan_show_price:
  assumes "list_all is_digit f" "number_end rest" "rest \<noteq> []"
  shows "\<exists>v. scan_double (show_int u @ CHR ''.'' # f @ rest) = Some (v, rest)"
proof -
  have "is_fraction (CHR ''.'' # f)" "is_exponent []" using assms(1) by (simp_all add: is_fraction_def is_exponent_def)
  note b = scan_body[OF _ assms(2), of "show_nat n @ (CHR ''.'' # f) @ []" for n]
  have b1: "\<exists>v. scan_unsigned_double neg (show_nat n @ CHR ''.'' # f @ rest) = Some (v, rest)" for neg n
    using b(1)[of n neg] \<open>is_fraction (CHR ''.'' # f)\<close> \<open>is_exponent []\<close> show_nat_digits show_nat_not_empty
    by (metis append.right_neutral append_Cons append_assoc)
  have b2: "scan_sign (show_nat n @ s) = (False, show_nat n @ s)" "skip_space (show_nat n @ s) = show_nat n @ s" for n s
    by (simp_all add: scan_sign_digits skip_space_digits)
  show ?thesis
    using b1[of True "nat (- u)"] b1[of False "nat u"]
    by (cases "u < 0") (simp_all add: show_int_def scan_double_def b2, simp add: skip_space_def is_space_def)
qed

text \<open>After a point, a minus sign ends the number.\<close>

lemma scan_price_minus:
  "\<exists>v. scan_double (show_int u @ CHR ''.'' # CHR ''-'' # rest) = Some (v, CHR ''-'' # rest)"
  using scan_show_price[of "[]" "CHR ''-'' # rest" u] by (simp add: is_digit_def lower_def)

text \<open>A broken-down time without negative fields.\<close>

definition plain_tm :: "tm \<Rightarrow> bool" where
  "plain_tm b = list_all (\<lambda>i. 0 \<le> i \<and> i < 2 ^ 31)
     [tm_sec b, tm_min b, tm_hour b, tm_mday b, tm_mon b + 1, tm_year b + 1900]"

lemma price_decimals_form:
  assumes "d_to_signed 32 (lit 100 * price) = Some c" "price_decimals price = Some decimals"
  shows "if c_rem c 100 < 0 then \<exists>d. decimals = CHR ''-'' # d else list_all is_digit decimals"
proof -
  have "is_digit CHR ''0''" by (simp add: is_digit_def)
  then show ?thesis using assms by (auto simp: price_decimals_def show_int_def Let_def split: if_splits)
qed

lemma scan_trade_text:
  assumes "d_to_signed 64 (t_timestamp t) = Some s" "localtime tz s = Some b" "plain_tm b"
    and "\<not> isnan (t_timestamp t)" "d_to_signed 32 (lit 100 * t_price t) = Some c" "show_trade tz t = Some line"
  shows "\<exists>price volume. sscanf trade_format line =
    [In_u64 (t_id t), In_u64 (t_buy_order_id t), In_u64 (t_buy_order_id t), In_u64 (t_sell_order_id t),
     In_int (tm_year b + 1900), In_int (tm_mon b + 1), In_int (tm_mday b), In_int (tm_hour b), In_int (tm_min b),
     In_int (tm_sec b)] @ map In_char (show_action (t_type t)) @ [In_double price] @
    (if c_rem c 100 < 0 then [] else [In_double volume])"
proof -
  obtain decimals units where p: "price_decimals (t_price t) = Some decimals" "d_to_signed 32 (t_price t) = Some units"
    using assms(6) by (auto simp: show_trade_def show_price_def bind_eq_Some_conv)
  note sep = is_digit_def
  have nums: "scan_u64 (show_u64 w @ CHR '' '' # r) = Some (w, CHR '' '' # r)" for w r
    by (rule scan_u64_show) (simp add: sep)
  have dash: "0 \<le> i \<Longrightarrow> i < 2 ^ 31 \<Longrightarrow> scan_int (pad0 2 (show_int i) @ CHR ''-'' # r) = Some (i, CHR ''-'' # r)"
    "0 \<le> i \<Longrightarrow> i < 2 ^ 31 \<Longrightarrow> scan_int (show_int i @ CHR ''-'' # r) = Some (i, CHR ''-'' # r)"
    "0 \<le> i \<Longrightarrow> i < 2 ^ 31 \<Longrightarrow> scan_int (pad0 2 (show_int i) @ CHR ''T'' # r) = Some (i, CHR ''T'' # r)"
    "0 \<le> i \<Longrightarrow> i < 2 ^ 31 \<Longrightarrow> scan_int (pad0 2 (show_int i) @ CHR '':'' # r) = Some (i, CHR '':'' # r)"
    "0 \<le> i \<Longrightarrow> i < 2 ^ 31 \<Longrightarrow> scan_int (pad0 2 (show_int i) @ CHR '' '' # r) = Some (i, CHR '' '' # r)" for i r
    by (rule scan_int_padded; simp add: sep)+
  obtain volume where v: "scan_double (show_double (t_volume t) @ ''>'') = Some (volume, ''>'')"
    using scan_show_double[of "''>''" "t_volume t"] by (auto simp: sep lower_def)
  let ?tail = "CHR '' '' # CHR ''v'' # CHR ''o'' # CHR ''l'' # CHR ''u'' # CHR ''m'' # CHR ''e'' # CHR ''='' # show_double (t_volume t) @ ''>''"
  obtain price where pr: "scan_double (show_int units @ CHR ''.'' # decimals @ ?tail) =
    Some (price, (if c_rem c 100 < 0 then decimals @ ?tail else ?tail))"
  proof (cases "c_rem c 100 < 0")
    case True
    then obtain d where "decimals = CHR ''-'' # d" using price_decimals_form[OF assms(5) p(1)] by auto
    then show ?thesis using that True scan_price_minus[of units "d @ ?tail"] by auto
  next
    case False
    then have "list_all is_digit decimals" using price_decimals_form[OF assms(5) p(1)] by simp
    then show ?thesis using that False scan_show_price[of decimals ?tail units] by (auto simp: sep lower_def)
  qed
  have neg: "c_rem c 100 < 0 \<Longrightarrow> \<exists>d. decimals = CHR ''-'' # d" using price_decimals_form[OF assms(5) p(1)] by simp
  have line: "line = ''<Trade id='' @ show_u64 (t_id t) @ '' decision_id='' @ show_u64 (t_buy_order_id t) @
       '' buy_order_id='' @ show_u64 (t_buy_order_id t) @ '' sell_order_id='' @ show_u64 (t_sell_order_id t) @
       '' timestamp='' @ strftime_iso b @ '' type='' @ show_action (t_type t) @ '' price='' @ show_int units @ ''.'' @
       decimals @ '' volume='' @ show_double (t_volume t) @ ''>''"
    using assms(1,2,4,6) p by (simp add: show_trade_def show_price_def ts_string_def)
  note fields = assms(3)[unfolded plain_tm_def list.pred_inject]
  show ?thesis
    unfolding line trade_format_def strftime_iso_def
    using fields neg
    by (cases "t_type t"; cases "c_rem c 100 < 0")
      (auto simp: lits_def is_space_def skip_space_def nums dash pr v)
qed


lemma d_to_signed_lit: "\<bar>n\<bar> < 2 ^ 53 \<Longrightarrow> - (2 ^ (w - 1)) \<le> n \<Longrightarrow> n < 2 ^ (w - 1) \<Longrightarrow> d_to_signed w (lit n) = Some n"
  by (simp add: d_to_signed_def d_trunc_lit)

section \<open>Properties\<close>

text \<open>Coordinated universal time, as a time zone for the examples.\<close>

definition days_from_civil :: "int \<Rightarrow> int \<Rightarrow> int \<Rightarrow> int" where
  "days_from_civil year month day =
     (let y = (if month \<le> 2 then year - 1 else year);
          yoe = y mod 400;
          doy = (153 * (if month > 2 then month - 3 else month + 9) + 2) div 5 + day - 1
      in 146097 * (y div 400) + (365 * yoe + yoe div 4 - yoe div 100 + doy) - 719468)"

definition utc_localtime :: "int \<Rightarrow> tm" where
  "utc_localtime s =
     (let z = s div 86400 + 719468;
          doe = z mod 146097;
          yoe = (doe - doe div 1460 + doe div 36524 - doe div 146096) div 365;
          doy = doe - (365 * yoe + yoe div 4 - yoe div 100);
          mp = (5 * doy + 2) div 153;
          month = (if mp < 10 then mp + 3 else mp - 9)
      in \<lparr>tm_sec = s mod 60, tm_min = s div 60 mod 60, tm_hour = s div 3600 mod 24,
          tm_mday = doy - (153 * mp + 2) div 5 + 1, tm_mon = month - 1,
          tm_year = yoe + 400 * (z div 146097) + (if month \<le> 2 then 1 else 0) - 1900\<rparr>)"

definition utc :: time_zone where
  "utc = \<lparr>localtime = (\<lambda>s. Some (utc_localtime s)),
     mktime = (\<lambda>b. tm_sec b + 60 * tm_min b + 3600 * tm_hour b +
       86400 * days_from_civil (tm_year b + 1900) (tm_mon b + 1) (tm_mday b))\<rparr>"

abbreviation (input) date_tm :: "int \<Rightarrow> 8 word \<Rightarrow> 8 word \<Rightarrow> 8 word \<Rightarrow> 8 word \<Rightarrow> int \<Rightarrow> tm" where
  "date_tm year month day hours minutes k \<equiv>
     \<lparr>tm_sec = k, tm_min = uint minutes, tm_hour = uint hours, tm_mday = uint day,
      tm_mon = uint month - 1, tm_year = year - 1900\<rparr>"

text \<open>The date of a year alone.\<close>

lemma ts_of_year:
  "ts_of_date tz year 1 1 0 0 0 =
     Some (0 + lit (mktime tz \<lparr>tm_sec = 0, tm_min = 0, tm_hour = 0, tm_mday = 1, tm_mon = 0, tm_year = year - 1900\<rparr>))"
proof -
  have "d_to_signed 32 0 = Some 0" using d_to_signed_lit[of 0 32] by (simp add: lit_0)
  then show ?thesis by (simp add: ts_of_date_def)
qed

text \<open>
  C24: A timestamp built from a date counts its seconds twice, once in \<open>mktime\<close> and once in
  the sum: in a zone that counts whole seconds, \<open>k\<close> seconds past a minute give the instant
  \<open>2 k\<close> seconds past it, and that is the instant the timestamp prints.
\<close>

theorem timestamp_seconds_twice:
  assumes "0 \<le> k" "k < 60"
    and "mktime tz (date_tm year month day hours minutes k) = mktime tz (date_tm year month day hours minutes 0) + k"
    and "\<bar>mktime tz (date_tm year month day hours minutes 0)\<bar> < 2 ^ 51"
  shows "\<exists>ts. ts_of_date tz year month day hours minutes (lit k) = Some ts \<and>
    d_trunc ts = Some (mktime tz (date_tm year month day hours minutes 0) + 2 * k) \<and>
    ts_string tz ts = map_option strftime_iso (localtime tz (mktime tz (date_tm year month day hours minutes 0) + 2 * k))"
proof -
  define m where "m = mktime tz (date_tm year month day hours minutes 0)"
  note m = assms(3,4)[folded m_def]
  have k: "d_to_signed 32 (lit k) = Some k" using assms(1,2) by (intro d_to_signed_lit) simp_all
  have t: "d_trunc (lit k + lit (m + k)) = Some (k + (m + k))" using assms(1,2) m(2) by (intro d_trunc_plus_lit) simp_all
  moreover have "m < 2251799813685248" "- 2251799813685248 < m" using m(2) by (simp_all add: abs_less_iff)
  then have "- (2 ^ 63) \<le> m + 2 * k" "m + 2 * k < 2 ^ 63" using assms(1,2) by simp_all
  ultimately have "d_to_signed 64 (lit k + lit (m + k)) = Some (m + 2 * k)" by (simp add: d_to_signed_def)
  moreover have "\<not> isnan (lit k + lit (m + k))" using t unfolding d_trunc_def by (metis isfinite_not(1) option.distinct(1))
  ultimately show ?thesis using k t unfolding m_def[symmetric] by (simp add: ts_of_date_def m ts_string_def)
qed

text \<open>Half a minute before the year 2017 the date is already in it.\<close>

theorem timestamp_seconds_twice_witness:
  "\<exists>ts. ts_of_date utc 2016 12 31 23 59 (lit 30) = Some ts \<and> ts_string utc ts = Some ''2017-01-01T00:00:00''"
proof -
  have u: "days_from_civil 2016 12 31 = 17166" "strftime_iso (utc_localtime 1483228800) = ''2017-01-01T00:00:00''"
    by code_simp+
  show ?thesis using timestamp_seconds_twice[where k = 30 and tz = utc and year = 2016 and month = 12 and day = 31 and hours = 23
      and minutes = 59] by (auto simp: utc_def u)
qed

text \<open>
  C25: The text of a trade is read back only by accident. Reading it makes all sixteen
  conversions and fails, because \<open>parse\<close> asks for fifteen; only when the price has negative
  hundredths, whose minus sign stops the scan, does it succeed, and then the volume is not
  assigned and the decision gets the identifier of the buy order.
\<close>

theorem trade_text:
  assumes "\<not> isnan (t_timestamp t)" "d_to_signed 64 (t_timestamp t) = Some s" "localtime tz s = Some b" "plain_tm b"
    and "d_to_signed 32 (lit 100 * t_price t) = Some c" "show_trade tz t = Some line"
  shows "(fst (trade_parse tz line t0) \<longleftrightarrow> c_rem c 100 < 0) \<and>
    (c_rem c 100 < 0 \<longrightarrow> t_volume (snd (trade_parse tz line t0)) = t_volume t0 \<and>
      t_decision_id (snd (trade_parse tz line t0)) = t_buy_order_id t)"
proof (intro conjI impI)
  obtain price volume where r: "sscanf trade_format line =
    [In_u64 (t_id t), In_u64 (t_buy_order_id t), In_u64 (t_buy_order_id t), In_u64 (t_sell_order_id t),
     In_int (tm_year b + 1900), In_int (tm_mon b + 1), In_int (tm_mday b), In_int (tm_hour b), In_int (tm_min b),
     In_int (tm_sec b)] @ map In_char (show_action (t_type t)) @ [In_double price] @
    (if c_rem c 100 < 0 then [] else [In_double volume])"
    using scan_trade_text[OF assms(2-4,1,5,6)] by blast
  show "fst (trade_parse tz line t0) \<longleftrightarrow> c_rem c 100 < 0"
    by (cases "t_type t") (simp_all add: trade_parse_def r Let_def)
  assume "c_rem c 100 < 0"
  then show "t_volume (snd (trade_parse tz line t0)) = t_volume t0"
    "t_decision_id (snd (trade_parse tz line t0)) = t_buy_order_id t"
    by (cases "t_type t"; simp add: trade_parse_def r Let_def assign_all_def)+
qed

definition text_trade :: "double \<Rightarrow> trade" where
  "text_trade price = \<lparr>t_id = 7, t_volume = lit 2, t_price = price, t_type = BUY, t_timestamp = 0,
     t_decision_id = 1, t_buy_order_id = 5, t_sell_order_id = 6\<rparr>"

theorem trade_text_witness:
  "\<exists>line. show_trade utc (text_trade (dec (-125) 2)) = Some line \<and>
     fst (trade_parse utc line (mk_trade 0)) \<and> t_volume (snd (trade_parse utc line (mk_trade 0))) = t_volume (mk_trade 0)"
proof -
  have c: "d_to_signed 32 (lit 100 * dec (-125) 2) = Some (-125)" "d_to_signed 32 (dec (-125) 2) = Some (-1)" by code_simp+
  have s: "\<not> isnan 0" "d_to_signed 64 0 = Some 0" by code_simp+
  have "c_rem (-125) 100 < 0" by (simp add: c_rem_def)
  obtain line where l: "show_trade utc (text_trade (dec (-125) 2)) = Some line"
    using c s by (auto simp: show_trade_def show_price_def price_decimals_def text_trade_def ts_string_def utc_def)
  have "(fst (trade_parse utc line (mk_trade 0)) \<longleftrightarrow> c_rem (-125) 100 < 0) \<and>
    (c_rem (-125) 100 < 0 \<longrightarrow> t_volume (snd (trade_parse utc line (mk_trade 0))) = t_volume (mk_trade 0) \<and>
      t_decision_id (snd (trade_parse utc line (mk_trade 0))) = t_buy_order_id (text_trade (dec (-125) 2)))"
  proof (rule trade_text[where t = "text_trade (dec (-125) 2)" and s = 0, OF _ _ _ _ _ l])
    show "localtime utc 0 = Some \<lparr>tm_sec = 0, tm_min = 0, tm_hour = 0, tm_mday = 1, tm_mon = 0, tm_year = 70\<rparr>"
      unfolding utc_def by code_simp
  qed (use c s in \<open>simp_all add: text_trade_def plain_tm_def\<close>)
  then show ?thesis using l \<open>c_rem (-125) 100 < 0\<close> by auto
qed

end
