(* ===== verification/Source.thy ===== *)
theory Source
  imports Broker Exceptions Model_Text
begin

text \<open>
  \<open>src/sources/Source.hpp\<close> and \<open>src/sources/CSVSource.hpp\<close>: a source keeps the orders it
  was told of by identifier, tells its histories of each trade with the orders behind it,
  and a cleanup thread forgets old orders that were deleted.

  The hash map of the library TBB is a parameter, an \<open>order_table\<close>; the locale
  \<open>concurrent_map\<close> states what its documentation promises of the calls the code makes. Each
  method runs as one step; steps of the caller and of the cleanup thread interleave freely.
\<close>

section \<open>The hash map\<close>

text \<open>\<open>tab_assign\<close> writes through an accessor that \<open>find\<close> gave; \<open>tab_insert\<close> keeps a present entry.\<close>

record 'm order_table =
  tab_empty :: 'm
  tab_find :: "'m \<Rightarrow> uint64 \<Rightarrow> order list option"
  tab_insert :: "'m \<Rightarrow> uint64 \<Rightarrow> order list \<Rightarrow> 'm"
  tab_assign :: "'m \<Rightarrow> uint64 \<Rightarrow> order list \<Rightarrow> 'm"
  tab_erase :: "'m \<Rightarrow> uint64 \<Rightarrow> 'm"
  tab_size :: "'m \<Rightarrow> nat"

section \<open>The class Source\<close>

record 'm source =
  src_last_timestamp :: timestamp
  src_histories :: "nat list"
  src_current_orders :: 'm
  src_deleted_orders_ids :: "uint64 list"
  src_is_running :: bool
  src_cleanup_period :: double
  src_cleanup_threshold :: double

text \<open>
  The constructor gives the last timestamp the integer 0, and of the constructors of
  \<open>Timestamp\<close> an integer picks the one that takes a year: the clock starts with the year 0 of
  the local time zone.
\<close>

definition mk_source :: "time_zone \<Rightarrow> 'm order_table \<Rightarrow> 'm source" where
  "mk_source tz T = \<lparr>src_last_timestamp = the (ts_of_date tz 0 1 1 0 0 0), src_histories = [], src_current_orders = tab_empty T,
     src_deleted_orders_ids = [], src_is_running = True, src_cleanup_period = dec 5 1,
     src_cleanup_threshold = lit 60\<rparr>"

definition source_historize :: "'m source \<Rightarrow> nat \<Rightarrow> 'm source" where
  "source_historize s h = s\<lparr>src_histories := set_insert (<) h (src_histories s)\<rparr>"

definition newer_order :: "double \<Rightarrow> order \<Rightarrow> order \<Rightarrow> order" where
  "newer_order ts result_order r =
     (if o_timestamp result_order < o_timestamp r \<and> o_timestamp r \<le> ts then r else result_order)"

definition retrieve_order :: "'m order_table \<Rightarrow> 'm source \<Rightarrow> uint64 \<Rightarrow> double \<Rightarrow> order" where
  "retrieve_order T s oid ts =
     (case tab_find T (src_current_orders s) oid of
        None \<Rightarrow> zero_order
      | Some rs \<Rightarrow> foldl (newer_order ts) zero_order rs)"

definition source_clock :: "'m source \<Rightarrow> timestamp \<Rightarrow> 'm source" where
  "source_clock s ts =
     (if src_last_timestamp s < ts then s\<lparr>src_last_timestamp := ts\<rparr> else s)"

text \<open>What each history is fed for a trade: both orders, when the sell order is known.\<close>

definition trade_items :: "trade \<Rightarrow> order \<Rightarrow> order \<Rightarrow> item list" where
  "trade_items t buy_order sell_order =
     [Trade_item t] @
     (if o_type sell_order \<noteq> WAIT then [Order_item buy_order] else []) @
     (if o_type sell_order \<noteq> WAIT then [Order_item sell_order] else [])"

definition source_feed_trade ::
  "'m order_table \<Rightarrow> 'h history_ops \<Rightarrow> 'm source \<Rightarrow> 'h store \<Rightarrow> trade \<Rightarrow> 'm source \<times> 'h store" where
  "source_feed_trade T ops s st t =
     (let s = source_clock s (t_timestamp t);
          buy_order = retrieve_order T s (t_buy_order_id t) (t_timestamp t);
          sell_order = retrieve_order T s (t_sell_order_id t) (t_timestamp t)
      in (s, foldl (\<lambda>st a. st(a := foldl (feed_item ops) (st a) (trade_items t buy_order sell_order)))
               st (src_histories s)))"

definition source_feed_order :: "'m order_table \<Rightarrow> 'm source \<Rightarrow> order \<Rightarrow> 'm source" where
  "source_feed_order T s r =
     (let s = source_clock s (o_timestamp r); m = src_current_orders s
      in case tab_find T m (o_id r) of
           Some rs \<Rightarrow> s\<lparr>src_current_orders := tab_assign T m (o_id r) (rs @ [r])\<rparr>
         | None \<Rightarrow> s\<lparr>src_current_orders := tab_insert T m (o_id r) [r]\<rparr>)"

definition source_puke :: "'m order_table \<Rightarrow> 'm source \<Rightarrow> order \<Rightarrow> 'm source" where
  "source_puke T s r =
     (let s = (if tab_find T (src_current_orders s) (o_id r) = None then source_feed_order T s r else s)
      in s\<lparr>src_deleted_orders_ids := set_insert (<) (o_id r) (src_deleted_orders_ids s)\<rparr>)"

text \<open>
  \<open>cleanup\<close> visits the identifiers of the deleted orders and keeps the orders that are
  recent enough; it counts the orders it saw and those it kept.
\<close>

definition recent :: "'m source \<Rightarrow> order \<Rightarrow> bool" where
  "recent s r = (src_last_timestamp s - src_cleanup_threshold s < o_timestamp r)"

definition cleanup_id ::
  "'m order_table \<Rightarrow> ('m source \<times> nat \<times> nat) \<Rightarrow> uint64 \<Rightarrow> ('m source \<times> nat \<times> nat)" where
  "cleanup_id T r oid =
     (case r of (s, total_count, ignored_count) \<Rightarrow>
        (case tab_find T (src_current_orders s) oid of
           None \<Rightarrow> (s, total_count, ignored_count)
         | Some rs \<Rightarrow>
             let orders = filter (recent s) rs;
                 m = src_current_orders s
             in (s\<lparr>src_current_orders := (if orders = [] then tab_erase T m oid else tab_assign T m oid orders)\<rparr>,
                 total_count + length rs, ignored_count + length orders)))"

record cleanup_report =
  rep_removed :: nat
  rep_total :: nat
  rep_size_before :: nat
  rep_size_after :: nat

definition source_cleanup :: "'m order_table \<Rightarrow> 'm source \<Rightarrow> 'm source \<times> cleanup_report" where
  "source_cleanup T s =
     (let old_size = tab_size T (src_current_orders s);
          (s, total, ignored) = foldl (cleanup_id T) (s, 0, 0) (src_deleted_orders_ids s)
      in (s, \<lparr>rep_removed = total - ignored, rep_total = total, rep_size_before = old_size,
              rep_size_after = tab_size T (src_current_orders s)\<rparr>))"

definition source_stop :: "'m source \<Rightarrow> 'm source" where
  "source_stop s = s\<lparr>src_is_running := False\<rparr>"

text \<open>The steps of a source with its histories; the cleanup thread steps while the source runs.\<close>

inductive source_step ::
  "'m order_table \<Rightarrow> 'h history_ops \<Rightarrow> 'm source \<times> 'h store \<Rightarrow> 'm source \<times> 'h store \<Rightarrow> bool"
  for T ops where
  step_historize: "source_step T ops (s, st) (source_historize s h, st)"
| step_trade: "source_step T ops (s, st) (source_feed_trade T ops s st t)"
| step_order: "source_step T ops (s, st) (source_feed_order T s r, st)"
| step_puke: "source_step T ops (s, st) (source_puke T s r, st)"
| step_cleanup: "src_is_running s \<Longrightarrow> source_step T ops (s, st) (fst (source_cleanup T s), st)"
| step_stop: "source_step T ops (s, st) (source_stop s, st)"

inductive source_reachable ::
  "time_zone \<Rightarrow> 'm order_table \<Rightarrow> 'h history_ops \<Rightarrow> 'h store \<Rightarrow> 'm source \<times> 'h store \<Rightarrow> bool"
  for tz T ops st0 where
  start: "source_reachable tz T ops st0 (mk_source tz T, st0)"
| step: "source_reachable tz T ops st0 c \<Longrightarrow> source_step T ops c c' \<Longrightarrow> source_reachable tz T ops st0 c'"

inductive_cases source_stepE: "source_step T ops c c'"

section \<open>The class CSVSource\<close>

text \<open>
  \<open>parse\<close> reads with the C function \<open>fscanf\<close>, a parameter: it returns the number of fields
  converted (\<open>EOF\<close> is \<open>-1\<close>), the fields and the advanced file. The count is a \<open>size_t\<close> and
  wraps around; the loop need not end on an endless file.
\<close>

partial_function (option) csv_parse where
  "csv_parse scan T ops limit n now file s st =
     (let n = (n :: uint64) + 1
      in if n \<le> limit
         then (case scan file of ((result :: int), (ts, price, volume), file) \<Rightarrow>
           if result = -1 \<or> result \<noteq> 3 then Some (s, st, file)
           else let t = (mk_trade now)\<lparr>t_timestamp := ts, t_price := price, t_volume := volume\<rparr>;
                    (s, st) = source_feed_trade T ops s st t
                in csv_parse scan T ops limit n now file s st)
         else Some (s, st, file))"

text \<open>
  The file is opened with \<open>fopen\<close>, a parameter that returns nothing when it fails, and
  never closed.
\<close>

definition csv_parse_path where
  "csv_parse_path fopen strerror scan T ops path limit now s st =
     (case fopen path of
        None \<Rightarrow> Some (Inl (mk_exn FileException [''CSVSource could not open file for reading'', path, strerror]))
      | Some file \<Rightarrow> map_option Inr (csv_parse scan T ops limit 0 now file s st))"

section \<open>Retrieving an order\<close>

text \<open>The candidates are the orders dated after zero and not after the timestamp asked for.\<close>

definition candidate :: "double \<Rightarrow> order \<Rightarrow> bool" where
  "candidate ts r = (0 < o_timestamp r \<and> o_timestamp r \<le> ts)"

text \<open>The first of the latest candidates of a list, or the zero order when there is none.\<close>

definition latest_between :: "double \<Rightarrow> order list \<Rightarrow> order \<Rightarrow> order list \<Rightarrow> bool" where
  "latest_between ts us r vs \<longleftrightarrow> candidate ts r \<and>
     (\<forall>q \<in> set us. candidate ts q \<longrightarrow> o_timestamp q < o_timestamp r) \<and>
     (\<forall>q \<in> set vs. candidate ts q \<longrightarrow> \<not> o_timestamp r < o_timestamp q)"

definition first_latest :: "double \<Rightarrow> order list \<Rightarrow> order \<Rightarrow> bool" where
  "first_latest ts rs r \<longleftrightarrow>
     (r = zero_order \<and> (\<forall>q \<in> set rs. \<not> candidate ts q)) \<or>
     (\<exists>us vs. rs = us @ r # vs \<and> latest_between ts us r vs)"

lemma zero_order_fields [simp]: "o_timestamp zero_order = 0" "o_type zero_order = WAIT"
  by (simp_all add: zero_order_def)

lemma first_latest_step:
  assumes "first_latest ts rs r"
  shows "first_latest ts (rs @ [q]) (newer_order ts r q)"
proof (cases "o_timestamp r < o_timestamp q \<and> o_timestamp q \<le> ts")
  case False
  then have n: "newer_order ts r q = r" unfolding newer_order_def by (rule if_not_P)
  show ?thesis
  proof (cases "r = zero_order \<and> (\<forall>q \<in> set rs. \<not> candidate ts q)")
    case True
    then have "\<not> candidate ts q" using False by (simp add: candidate_def)
    then show ?thesis unfolding n first_latest_def using True by simp
  next
    case nz: False
    then obtain us vs where v: "rs = us @ r # vs" "latest_between ts us r vs"
      using assms unfolding first_latest_def by metis
    then have "latest_between ts us r (vs @ [q])"
      using False by (auto simp: latest_between_def candidate_def)
    moreover have "rs @ [q] = us @ r # (vs @ [q])" using v(1) by simp
    ultimately show ?thesis unfolding n first_latest_def by blast
  qed
next
  case True
  then have n: "newer_order ts r q = q" unfolding newer_order_def by (rule if_P)
  have le: "\<not> o_timestamp r < o_timestamp p" if "p \<in> set rs" "candidate ts p" for p
  proof (cases "r = zero_order \<and> (\<forall>q \<in> set rs. \<not> candidate ts q)")
    case False
    then obtain us vs where "rs = us @ r # vs" "latest_between ts us r vs"
      using assms unfolding first_latest_def by metis
    then show ?thesis using that d_less_trans d_less_irrefl
      unfolding latest_between_def by (metis Un_iff set_ConsD set_append)
  qed (use that in blast)
  have "r = zero_order \<or> candidate ts r"
    using assms unfolding first_latest_def latest_between_def by metis
  then have c: "candidate ts q"
    using True d_less_trans[of 0 "o_timestamp r" "o_timestamp q"] by (auto simp: candidate_def)
  have "o_timestamp p < o_timestamp q" if "p \<in> set rs" "candidate ts p" for p
    using le[OF that] that(2) True by (auto simp: candidate_def less_double_def)
  then have "latest_between ts rs q []" using c by (simp add: latest_between_def)
  then show ?thesis unfolding n first_latest_def by blast
qed

lemma newer_fold: "first_latest ts rs (foldl (newer_order ts) zero_order rs)"
proof (induction rs rule: rev_induct)
  case Nil
  then show ?case by (simp add: first_latest_def)
next
  case (snoc q rs)
  then show ?case by (simp add: first_latest_step)
qed

text \<open>
  Leaving out the orders at or before a threshold changes only answers that are not past it:
  \<open>r\<close> is the running answer on all orders, \<open>r'\<close> the one on the orders kept.
\<close>

definition same_or_old :: "double \<Rightarrow> order \<Rightarrow> order \<Rightarrow> bool" where
  "same_or_old thr r r' \<longleftrightarrow>
     (r = r' \<and> (r = zero_order \<or> (0 < o_timestamp r \<and> thr < o_timestamp r))) \<or>
     (\<not> thr < o_timestamp r \<and> 0 < o_timestamp r \<and> r' = zero_order)"

lemma same_or_old_skip:
  assumes "same_or_old thr r r'" "\<not> thr < o_timestamp q" "\<not> isnan thr"
  shows "same_or_old thr (newer_order ts r q) r'"
  using assms by (auto simp: same_or_old_def newer_order_def less_double_def)

lemma same_or_old_take:
  assumes "same_or_old thr r r'" "thr < o_timestamp q"
  shows "same_or_old thr (newer_order ts r q) (newer_order ts r' q)"
  using assms by (auto simp: same_or_old_def newer_order_def less_double_def)

lemma same_or_old_fold:
  assumes "\<not> isnan thr" "same_or_old thr r r'"
  shows "same_or_old thr (foldl (newer_order ts) r rs)
    (foldl (newer_order ts) r' (filter (\<lambda>q. thr < o_timestamp q) rs))"
  using assms(2)
proof (induction rs arbitrary: r r')
  case (Cons q rs)
  show ?case
  proof (cases "thr < o_timestamp q")
    case True
    then show ?thesis using Cons.IH[OF same_or_old_take[OF Cons.prems True]] by simp
  next
    case False
    then show ?thesis using Cons.IH[OF same_or_old_skip[OF Cons.prems False assms(1)]] by simp
  qed
qed simp

lemma newer_fold_recent:
  assumes "\<not> isnan thr" "thr < o_timestamp (foldl (newer_order ts) zero_order rs)"
  shows "foldl (newer_order ts) zero_order (filter (\<lambda>q. thr < o_timestamp q) rs) =
    foldl (newer_order ts) zero_order rs"
  using same_or_old_fold[OF assms(1), of zero_order zero_order ts rs] assms(2)
  by (simp add: same_or_old_def)

section \<open>The contract of the hash map\<close>

locale concurrent_map =
  fixes T :: "'m order_table"
  assumes find_empty: "tab_find T (tab_empty T) k = None"
    and find_insert: "tab_find T (tab_insert T m k v) k' =
      (if k' = k \<and> tab_find T m k = None then Some v else tab_find T m k')"
    and find_assign: "tab_find T m k \<noteq> None \<Longrightarrow>
      tab_find T (tab_assign T m k v) k' = (if k' = k then Some v else tab_find T m k')"
    and find_erase: "tab_find T (tab_erase T m k) k' = (if k' = k then None else tab_find T m k')"
begin

abbreviation orders :: "'m source \<Rightarrow> uint64 \<Rightarrow> order list option" where
  "orders s \<equiv> tab_find T (src_current_orders s)"

text \<open>Feeding an order appends it to the orders of its identifier.\<close>

lemma orders_feed:
  "orders (source_feed_order T s r) k =
     (if k = o_id r then Some ((case orders s k of None \<Rightarrow> [] | Some rs \<Rightarrow> rs) @ [r]) else orders s k)"
  by (cases "orders s (o_id r)")
    (auto simp: source_feed_order_def source_clock_def Let_def find_insert find_assign)

lemma orders_puke:
  "orders (source_puke T s r) k =
     (if k = o_id r \<and> orders s k = None then Some [r] else orders s k)"
  by (auto simp: source_puke_def Let_def orders_feed)

lemma orders_start: "orders (mk_source tz T) k = None"
  by (simp add: mk_source_def find_empty)

text \<open>One pass of the cleanup keeps of each deleted identifier the recent orders.\<close>

definition kept where
  "kept s rs = (if filter (recent s) rs = [] then None else Some (filter (recent s) rs))"

lemma cleanup_id_orders:
  "orders (fst (cleanup_id T (s, n) oid)) k =
     (if k = oid then Option.bind (orders s k) (kept s) else orders s k)"
  by (cases n; cases "orders s oid")
    (auto simp: cleanup_id_def Let_def kept_def find_erase find_assign)

lemma cleanup_id_frame:
  "src_last_timestamp (fst (cleanup_id T (s, n) oid)) = src_last_timestamp s"
  "src_cleanup_threshold (fst (cleanup_id T (s, n) oid)) = src_cleanup_threshold s"
  "src_deleted_orders_ids (fst (cleanup_id T (s, n) oid)) = src_deleted_orders_ids s"
  "src_histories (fst (cleanup_id T (s, n) oid)) = src_histories s"
  by (cases n; simp add: cleanup_id_def Let_def split: option.split)+

lemma cleanup_fold:
  assumes "distinct ids"
  shows "orders (fst (foldl (cleanup_id T) (s, n) ids)) k =
      (if k \<in> set ids then Option.bind (orders s k) (kept s) else orders s k) \<and>
    src_last_timestamp (fst (foldl (cleanup_id T) (s, n) ids)) = src_last_timestamp s \<and>
    src_deleted_orders_ids (fst (foldl (cleanup_id T) (s, n) ids)) = src_deleted_orders_ids s \<and>
    src_cleanup_threshold (fst (foldl (cleanup_id T) (s, n) ids)) = src_cleanup_threshold s"
  using assms
proof (induction ids arbitrary: s n)
  case (Cons i ids)
  obtain s1 n1 where s1: "cleanup_id T (s, n) i = (s1, n1)" by (cases "cleanup_id T (s, n) i") blast
  have e: "foldl (cleanup_id T) (s, n) (i # ids) = foldl (cleanup_id T) (s1, n1) ids"
    by (simp add: s1)
  have s1k: "orders s1 k = (if k = i then Option.bind (orders s k) (kept s) else orders s k)"
    using cleanup_id_orders[of s n i k] by (simp add: s1)
  note frame = cleanup_id_frame[of s n i, unfolded s1 fst_conv]
  have "recent s1 = recent s" using frame by (simp add: recent_def fun_eq_iff)
  then have kept: "kept s1 rs = kept s rs" for rs by (simp add: kept_def)
  show ?case
    using Cons.prems Cons.IH[of s1 n1] s1k frame unfolding e by (cases "orders s k") (auto simp: kept)
qed simp_all

lemma cleanup_orders:
  assumes "distinct (src_deleted_orders_ids s)"
  shows "orders (fst (source_cleanup T s)) k =
      (if k \<in> set (src_deleted_orders_ids s) then Option.bind (orders s k) (kept s) else orders s k)"
    and "src_last_timestamp (fst (source_cleanup T s)) = src_last_timestamp s"
    and "src_deleted_orders_ids (fst (source_cleanup T s)) = src_deleted_orders_ids s"
    and "src_cleanup_threshold (fst (source_cleanup T s)) = src_cleanup_threshold s"
proof -
  have "fst (source_cleanup T s) = fst (foldl (cleanup_id T) (s, (0, 0)) (src_deleted_orders_ids s))"
    by (simp add: source_cleanup_def Let_def case_prod_beta)
  then show "orders (fst (source_cleanup T s)) k =
      (if k \<in> set (src_deleted_orders_ids s) then Option.bind (orders s k) (kept s) else orders s k)"
    "src_last_timestamp (fst (source_cleanup T s)) = src_last_timestamp s"
    "src_deleted_orders_ids (fst (source_cleanup T s)) = src_deleted_orders_ids s"
    "src_cleanup_threshold (fst (source_cleanup T s)) = src_cleanup_threshold s"
    using cleanup_fold[OF assms, of s "(0, 0)" k] by simp_all
qed

text \<open>The invariant of a source.\<close>

definition source_inv where
  "source_inv s \<longleftrightarrow>
     (\<forall>k rs. orders s k = Some rs \<longrightarrow> rs \<noteq> [] \<and> (\<forall>r \<in> set rs. o_id r = k)) \<and>
     set_sorted (<) (src_deleted_orders_ids s) \<and> \<not> isnan (src_last_timestamp s) \<and>
     src_cleanup_threshold s = lit 60"

lemma start_clock: "\<not> isnan (src_last_timestamp (mk_source tz T))"
proof -
  have "\<not> isnan (lit n)" "\<not> isnan 0" for n
    using d_round_fields(3)[of "\<bar>n\<bar>" 1] isfinite_not(1)[OF isfinite_0] by (simp_all add: lit_def)
  moreover have "\<not> isinf 0" "isinf x \<Longrightarrow> \<not> isnan x" for x using isfinite_not(2)[OF isfinite_0] by (auto simp: isinf_def isnan_def)
  moreover have "\<not> isnan (d_round a \<bar>m\<bar> 1 e)" for a m e using d_round_fields(3)[of "\<bar>m\<bar>" 1] by simp
  ultimately show ?thesis by (simp add: mk_source_def ts_of_year plus_double_def Let_def)
qed

lemma inv_start: "source_inv (mk_source tz T)"
  using start_clock unfolding source_inv_def orders_start by (simp add: mk_source_def set_sorted_def)

lemma clock_frame [simp]:
  "src_current_orders (source_clock s ts) = src_current_orders s"
  "src_deleted_orders_ids (source_clock s ts) = src_deleted_orders_ids s"
  "src_cleanup_threshold (source_clock s ts) = src_cleanup_threshold s"
  "src_histories (source_clock s ts) = src_histories s"
  by (simp_all add: source_clock_def)

lemma clock_time:
  "\<not> isnan (src_last_timestamp s) \<Longrightarrow> \<not> isnan (src_last_timestamp (source_clock s ts)) \<and>
     \<not> src_last_timestamp (source_clock s ts) < src_last_timestamp s \<and>
     \<not> src_last_timestamp (source_clock s ts) < ts"
  by (auto simp: source_clock_def less_double_def)

lemma feed_order_frame [simp]:
  "src_deleted_orders_ids (source_feed_order T s r) = src_deleted_orders_ids s"
  "src_cleanup_threshold (source_feed_order T s r) = src_cleanup_threshold s"
  "src_last_timestamp (source_feed_order T s r) = src_last_timestamp (source_clock s (o_timestamp r))"
  by (simp_all add: source_feed_order_def Let_def split: option.split)

lemma inv_feed_order:
  assumes "source_inv s"
  shows "source_inv (source_feed_order T s r)"
proof -
  have "rs \<noteq> [] \<and> (\<forall>r \<in> set rs. o_id r = k)" if "orders (source_feed_order T s r) k = Some rs" for k rs
    using that assms unfolding source_inv_def orders_feed
    by (cases "orders s k") (auto split: if_splits)
  then show ?thesis
    using assms clock_time[of s "o_timestamp r"] by (simp add: source_inv_def)
qed

interpretation order_id: total_order "(<) :: uint64 \<Rightarrow> uint64 \<Rightarrow> bool" "\<lambda>_. True"
  by unfold_locales auto

lemma inv_delete:
  "source_inv s \<Longrightarrow>
     source_inv (s\<lparr>src_deleted_orders_ids := set_insert (<) k (src_deleted_orders_ids s)\<rparr>)"
  by (simp add: source_inv_def order_id.set_sorted_insert)

lemma inv_puke: "source_inv s \<Longrightarrow> source_inv (source_puke T s r)"
  unfolding source_puke_def Let_def by (rule inv_delete) (simp add: inv_feed_order)

lemma inv_distinct: "source_inv s \<Longrightarrow> distinct (src_deleted_orders_ids s)"
  unfolding source_inv_def using order_id.set_sorted_distinct by simp

lemma inv_cleanup: "source_inv s \<Longrightarrow> source_inv (fst (source_cleanup T s))"
proof -
  assume s: "source_inv s"
  note c = cleanup_orders[OF inv_distinct[OF s]]
  have "rs \<noteq> [] \<and> (\<forall>r \<in> set rs. o_id r = k)" if "orders (fst (source_cleanup T s)) k = Some rs" for k rs
    using that s unfolding c(1) source_inv_def
    by (auto simp: kept_def bind_eq_Some_conv split: if_splits)
  then show ?thesis using s unfolding source_inv_def c(2-4) by blast
qed

lemma inv_trade: "source_inv s \<Longrightarrow> source_inv (fst (source_feed_trade T ops s st t))"
  unfolding source_inv_def using clock_time[of s "t_timestamp t"]
  by (simp add: source_feed_trade_def Let_def)

lemma inv_step:
  assumes "source_step T ops c c'" "source_inv (fst c)"
  shows "source_inv (fst c')"
  using assms
proof (induction rule: source_step.induct)
  case (step_historize s st h)
  then show ?case by (simp add: source_inv_def source_historize_def)
next
  case (step_stop s st)
  then show ?case by (simp add: source_inv_def source_stop_def)
qed (simp_all add: inv_trade inv_feed_order inv_puke inv_cleanup)

lemma inv_reachable: "source_reachable tz T ops st0 c \<Longrightarrow> source_inv (fst c)"
  by (induction rule: source_reachable.induct) (simp_all add: inv_start inv_step)

text \<open>The last timestamp never goes back.\<close>

lemma clock_step:
  assumes "source_step T ops c c'" "source_inv (fst c)"
  shows "\<not> src_last_timestamp (fst c') < src_last_timestamp (fst c)"
  using assms
proof (induction rule: source_step.induct)
  case (step_trade s st t)
  then show ?case using clock_time[of s "t_timestamp t"]
    by (simp add: source_feed_trade_def Let_def source_inv_def)
next
  case (step_order s st r)
  then show ?case using clock_time[of s "o_timestamp r"] by (simp add: source_inv_def)
next
  case (step_puke s st r)
  then show ?case using clock_time[of s "o_timestamp r"]
    by (simp add: source_inv_def source_puke_def Let_def)
next
  case (step_cleanup s st)
  then show ?case using cleanup_orders(2)[OF inv_distinct] by simp
qed (simp_all add: source_historize_def source_stop_def)

text \<open>A cleanup does not change the answer to a query when that answer is recent.\<close>

lemma cleanup_retrieve:
  assumes "source_inv s" "recent s (retrieve_order T s oid ts)"
    and "\<not> isnan (src_last_timestamp s - src_cleanup_threshold s)"
  shows "retrieve_order T (fst (source_cleanup T s)) oid ts = retrieve_order T s oid ts"
proof (cases "orders s oid")
  case None
  then show ?thesis
    using cleanup_orders(1)[OF inv_distinct[OF assms(1)]] by (simp add: retrieve_order_def)
next
  case (Some rs)
  let ?thr = "src_last_timestamp s - src_cleanup_threshold s"
  have r: "recent s = (\<lambda>q. ?thr < o_timestamp q)" by (simp add: recent_def fun_eq_iff)
  have "foldl (newer_order ts) zero_order (filter (recent s) rs) = foldl (newer_order ts) zero_order rs"
    using newer_fold_recent[OF assms(3), of ts rs] assms(2) Some by (simp add: r retrieve_order_def)
  moreover have "filter (recent s) rs = [] \<Longrightarrow> foldl (newer_order ts) zero_order (filter (recent s) rs) = zero_order"
    by simp
  ultimately show ?thesis
    using cleanup_orders(1)[OF inv_distinct[OF assms(1)], of oid] Some
    by (auto simp: retrieve_order_def kept_def)
qed

end

text \<open>The map of the model: finite maps as functions, with their size.\<close>

definition map_table :: "((uint64 \<rightharpoonup> order list) \<times> nat) order_table" where
  "map_table = \<lparr>tab_empty = (Map.empty, 0), tab_find = fst,
     tab_insert = (\<lambda>(m, n) k v. if m k = None then (m(k \<mapsto> v), n + 1) else (m, n)),
     tab_assign = (\<lambda>(m, n) k v. (m(k \<mapsto> v), n)),
     tab_erase = (\<lambda>(m, n) k. (m(k := None), if m k = None then n else n - 1)),
     tab_size = snd\<rparr>"

interpretation tab: concurrent_map map_table
  by unfold_locales (auto simp: map_table_def split: prod.splits)

section \<open>The loop of a CSV source\<close>

text \<open>A scanner that yields the rows of a list and then reports something else than three fields.\<close>

definition scan_rows :: "((double \<times> double \<times> double) list \<Rightarrow> (int \<times> (double \<times> double \<times> double) \<times>
    (double \<times> double \<times> double) list))" where
  "scan_rows rows = (case rows of [] \<Rightarrow> (-1, (NAN, NAN, NAN), []) | r # rows \<Rightarrow> (3, r, rows))"

definition row_trade :: "timestamp \<Rightarrow> double \<times> double \<times> double \<Rightarrow> trade" where
  "row_trade now r = (case r of (ts, price, volume) \<Rightarrow>
     (mk_trade now)\<lparr>t_timestamp := ts, t_price := price, t_volume := volume\<rparr>)"

definition feed_rows where
  "feed_rows T ops now rows s st =
     foldl (\<lambda>(s, st) r. source_feed_trade T ops s st (row_trade now r)) (s, st) rows"

lemma csv_parse_rows:
  assumes "unat n + length rows < 2 ^ 64 - 1"
  shows "csv_parse scan_rows T ops limit n now rows s st =
    (let (s', st') = feed_rows T ops now (take (unat limit - unat n) rows) s st
     in Some (s', st', drop (unat limit - unat n) rows))"
  using assms
proof (induction rows arbitrary: n s st)
  case Nil
  then have n: "unat (n + 1) = Suc (unat n)" by (simp add: unat_word_ariths)
  show ?case
    by (subst csv_parse.simps) (simp add: Let_def feed_rows_def scan_rows_def)
next
  case (Cons r rows)
  have n: "unat (n + 1) = Suc (unat n)" using Cons.prems by (simp add: unat_word_ariths)
  obtain ts price volume where r: "r = (ts, price, volume)" by (cases r)
  obtain s1 st1 where f: "source_feed_trade T ops s st (row_trade now r) = (s1, st1)" by fastforce
  show ?case
  proof (cases "n + 1 \<le> limit")
    case True
    then have d: "unat limit - unat n = Suc (unat limit - unat (n + 1))"
      using n by (simp add: word_le_nat_alt Suc_diff_Suc)
    have "csv_parse scan_rows T ops limit n now (r # rows) s st =
        csv_parse scan_rows T ops limit (n + 1) now rows s1 st1"
      using True f by (subst csv_parse.simps) (simp add: Let_def scan_rows_def r row_trade_def)
    also have "\<dots> = (let (s', st') = feed_rows T ops now (take (unat limit - unat (n + 1)) rows) s1 st1
        in Some (s', st', drop (unat limit - unat (n + 1)) rows))"
      by (rule Cons.IH) (use Cons.prems n in simp)
    finally show ?thesis unfolding d using f by (simp add: feed_rows_def)
  next
    case False
    then have d: "unat limit - unat n = 0" using n by (simp add: word_le_nat_alt)
    show ?thesis unfolding d
      using False by (subst csv_parse.simps) (simp add: Let_def feed_rows_def)
  qed
qed

section \<open>Properties\<close>

text \<open>
  C6: In every state a source can reach, whatever the order of calls and cleanups, each
  identifier has a nonempty list of orders with that identifier or none, the deleted
  identifiers form a set, and the last timestamp is a number.
\<close>

theorem source_invariant:
  assumes "concurrent_map T" "source_reachable tz T ops st0 (s, st)"
  shows "(\<forall>k rs. tab_find T (src_current_orders s) k = Some rs \<longrightarrow> rs \<noteq> [] \<and> (\<forall>r \<in> set rs. o_id r = k)) \<and>
    distinct (src_deleted_orders_ids s) \<and> \<not> isnan (src_last_timestamp s)"
  using concurrent_map.inv_reachable[OF assms] concurrent_map.inv_distinct[OF assms(1), of s]
  by (simp add: concurrent_map.source_inv_def[OF assms(1)])

theorem source_invariant_witness:
  "\<forall>k. case tab_find map_table (src_current_orders (source_puke map_table (mk_source utc map_table) zero_order)) k of
     None \<Rightarrow> True | Some rs \<Rightarrow> rs \<noteq> [] \<and> o_id (hd rs) = k"
proof -
  have "source_reachable utc map_table memory_ops (\<lambda>_. mh_empty)
      (source_puke map_table (mk_source utc map_table) zero_order, \<lambda>_. mh_empty)"
    by (rule source_reachable.step[OF source_reachable.start]) (rule source_step.step_puke)
  from source_invariant[OF tab.concurrent_map_axioms this] show ?thesis
    by (auto split: option.split simp: hd_in_set)
qed

text \<open>
  The answer of \<open>retrieve_order\<close> is the first of the latest orders of that identifier that
  are dated after zero and not after the timestamp, or the zero order when there is none.
\<close>

theorem retrieve_first_latest:
  "first_latest ts (case tab_find T (src_current_orders s) oid of None \<Rightarrow> [] | Some rs \<Rightarrow> rs)
     (retrieve_order T s oid ts)"
  using newer_fold[of ts "[]"]
  by (cases "tab_find T (src_current_orders s) oid") (simp_all add: retrieve_order_def newer_fold)

text \<open>
  C5: A cleanup never changes the answer to a query whose answer is dated past the cleanup
  threshold, whichever orders were deleted.
\<close>

theorem cleanup_safe:
  assumes "concurrent_map T" "source_reachable tz T ops st0 (s, st)"
    and "\<not> isnan (src_last_timestamp s - src_cleanup_threshold s)"
    and "recent s (retrieve_order T s oid ts)"
  shows "retrieve_order T (fst (source_cleanup T s)) oid ts = retrieve_order T s oid ts"
  using concurrent_map.cleanup_retrieve[OF assms(1) _ assms(4,3)] concurrent_map.inv_reachable[OF assms(1,2)]
  by simp

abbreviation cleaned_source :: "((uint64 \<rightharpoonup> order list) \<times> nat) source" where
  "cleaned_source \<equiv> source_puke map_table (mk_source utc map_table) (zero_order\<lparr>o_timestamp := lit 1\<rparr>)"

theorem cleanup_safe_witness:
  "retrieve_order map_table (fst (source_cleanup map_table cleaned_source)) 0 (lit 1) =
   retrieve_order map_table cleaned_source 0 (lit 1)"
proof (rule cleanup_safe[OF tab.concurrent_map_axioms])
  show "source_reachable utc map_table memory_ops (\<lambda>_. mh_empty) (cleaned_source, \<lambda>_. mh_empty)"
    by (rule source_reachable.step[OF source_reachable.start]) (rule source_step.step_puke)
  have l: "src_last_timestamp cleaned_source = lit 1" "src_cleanup_threshold cleaned_source = lit 60"
    "tab_find map_table (src_current_orders cleaned_source) 0 = Some [zero_order\<lparr>o_timestamp := lit 1\<rparr>]"
  proof -
    have "src_last_timestamp (mk_source utc map_table) < lit 1"
      unfolding mk_source_def utc_def by code_simp
    then show "src_last_timestamp cleaned_source = lit 1" "src_cleanup_threshold cleaned_source = lit 60"
      "tab_find map_table (src_current_orders cleaned_source) 0 = Some [zero_order\<lparr>o_timestamp := lit 1\<rparr>]"
      by (simp_all add: source_puke_def source_feed_order_def source_clock_def mk_source_def map_table_def
          zero_order_def Let_def)
  qed
  have "\<not> isnan (lit 1 - lit 60)" "lit 1 - lit 60 < lit 1" "0 < lit 1" "lit 1 \<le> lit 1" by code_simp+
  then show "\<not> isnan (src_last_timestamp cleaned_source - src_cleanup_threshold cleaned_source)"
    "recent cleaned_source (retrieve_order map_table cleaned_source 0 (lit 1))"
    using l by (simp_all add: recent_def retrieve_order_def newer_order_def)
qed

text \<open>
  The last timestamp of a source never goes back, and right after a trade or an order was
  fed it is not before the timestamp of that trade or order.
\<close>

theorem source_clock_monotone:
  assumes "concurrent_map T" "source_reachable tz T ops st0 (s, st)" "source_step T ops (s, st) (s', st')"
  shows "\<not> src_last_timestamp s' < src_last_timestamp s"
    \<comment> \<open>whatever the step is\<close>
  using concurrent_map.clock_step[OF assms(1,3)] concurrent_map.inv_reachable[OF assms(1,2)] by simp

theorem source_clock_monotone_witness:
  "\<not> src_last_timestamp (source_feed_order map_table (mk_source utc map_table) zero_order) <
     src_last_timestamp (mk_source utc map_table)"
  by (rule source_clock_monotone[OF tab.concurrent_map_axioms source_reachable.start[of _ _ "memory_ops" "\<lambda>_. mh_empty"]])
    (rule source_step.step_order)

text \<open>
  C16: Fed a trade, a source feeds each history the trade and then both orders when the sell
  order is known; when only the buy order is known no order is fed, so the buy order is lost.
\<close>

theorem trade_orders:
  assumes "distinct (src_histories s)" "h \<in> set (src_histories s)"
  shows "snd (source_feed_trade T ops s st t) h =
    (let buy = retrieve_order T s (t_buy_order_id t) (t_timestamp t);
         sell = retrieve_order T s (t_sell_order_id t) (t_timestamp t)
     in foldl (feed_item ops) (st h)
          (if o_type sell = WAIT then [Trade_item t] else [Trade_item t, Order_item buy, Order_item sell]))"
proof -
  have r: "retrieve_order T (source_clock s ts) k u = retrieve_order T s k u" for ts k u
    by (simp add: retrieve_order_def source_clock_def)
  have f: "foldl (\<lambda>st a. st(a := g (st a))) st hs h = (if h \<in> set hs then g (st h) else st h)"
    if "distinct hs" for hs st and g :: "'b \<Rightarrow> 'b"
    using that by (induction hs arbitrary: st) auto
  let ?items = "trade_items t (retrieve_order T s (t_buy_order_id t) (t_timestamp t))
      (retrieve_order T s (t_sell_order_id t) (t_timestamp t))"
  have "snd (source_feed_trade T ops s st t) h = foldl (feed_item ops) (st h) ?items"
    using f[OF assms(1), of "\<lambda>x. foldl (feed_item ops) x ?items" st] assms(2)
    by (simp add: source_feed_trade_def source_clock_def[of s "t_timestamp t"] Let_def retrieve_order_def)
  then show ?thesis by (simp add: trade_items_def Let_def)
qed

theorem trade_orders_witness:
  "snd (source_feed_trade map_table memory_ops (source_historize (mk_source utc map_table) 0) (\<lambda>_. mh_empty) (mk_trade 0)) 0 =
    (let buy = retrieve_order map_table (source_historize (mk_source utc map_table) 0) (t_buy_order_id (mk_trade 0)) (t_timestamp (mk_trade 0));
         sell = retrieve_order map_table (source_historize (mk_source utc map_table) 0) (t_sell_order_id (mk_trade 0)) (t_timestamp (mk_trade 0))
     in foldl (feed_item memory_ops) mh_empty
          (if o_type sell = WAIT then [Trade_item (mk_trade 0)] else [Trade_item (mk_trade 0), Order_item buy, Order_item sell]))"
  by (rule trade_orders) (simp_all add: source_historize_def mk_source_def)

text \<open>
  Parsing a CSV file of fewer than \<open>2 ^ 64 - 1\<close> rows ends and feeds the source the trades of
  its first rows in order, as many as the limit allows, and all of them with the default limit.
\<close>

theorem csv_parse_feeds:
  assumes "length rows < 2 ^ 64 - 1"
  shows "csv_parse scan_rows T ops limit 0 now rows s st =
    (let (s', st') = feed_rows T ops now (take (unat limit) rows) s st in Some (s', st', drop (unat limit) rows)) \<and>
   csv_parse scan_rows T ops (- 1) 0 now rows s st =
    (let (s', st') = feed_rows T ops now rows s st in Some (s', st', []))"
proof -
  have "unat (- 1 :: uint64) = 2 ^ 64 - 1" by (simp add: unsigned_minus_1_eq_mask mask_eq_exp_minus_1)
  then show ?thesis
    using csv_parse_rows[of 0 rows T ops limit now s st] csv_parse_rows[of 0 rows T ops "- 1" now s st] assms
    by simp
qed

theorem csv_parse_feeds_witness:
  "csv_parse scan_rows map_table memory_ops 1 0 0 [(lit 1, lit 2, lit 3), (lit 4, lit 5, lit 6)] (mk_source utc map_table) (\<lambda>_. mh_empty) =
    (let (s', st') = feed_rows map_table memory_ops 0 (take (unat (1 :: uint64)) [(lit 1, lit 2, lit 3), (lit 4, lit 5, lit 6)])
       (mk_source utc map_table) (\<lambda>_. mh_empty)
     in Some (s', st', drop (unat (1 :: uint64)) [(lit 1, lit 2, lit 3), (lit 4, lit 5, lit 6)])) \<and>
   csv_parse scan_rows map_table memory_ops (- 1) 0 0 [(lit 1, lit 2, lit 3), (lit 4, lit 5, lit 6)] (mk_source utc map_table) (\<lambda>_. mh_empty) =
    (let (s', st') = feed_rows map_table memory_ops 0 [(lit 1, lit 2, lit 3), (lit 4, lit 5, lit 6)]
       (mk_source utc map_table) (\<lambda>_. mh_empty)
     in Some (s', st', []))"
  by (rule csv_parse_feeds) simp

end
