(* ===== verification/WebSocket.thy ===== *)
theory WebSocket
  imports Prelude "HOL-Library.Monad_Syntax"
begin

text \<open>
  The WebSocket of \<open>src/network/easywsclient.cpp\<close>: the framing of messages, the dispatch of
  received frames, the exchange of bytes with the socket, and the ready state.

  A frame whose length makes \<open>header_size + N\<close> wrap around passes the test for completeness
  and leads to accesses outside of the buffer: \<open>None\<close> stands for this undefined behaviour.
\<close>

section \<open>State\<close>

datatype ready_state = CLOSING | CLOSED | CONNECTING | OPEN

record wsocket =
  rxbuf :: "byte list"
  txbuf :: "byte list"
  receivedData :: "byte list"
  readyState :: ready_state
  useMask :: bool

definition mk_wsocket :: "bool \<Rightarrow> wsocket" where
  "mk_wsocket use_mask =
     \<lparr>rxbuf = [], txbuf = [], receivedData = [], readyState = OPEN, useMask = use_mask\<rparr>"

text \<open>The opcodes of frames.\<close>

definition CONTINUATION :: byte where "CONTINUATION = 0x0"
definition TEXT_FRAME :: byte where "TEXT_FRAME = 0x1"
definition BINARY_FRAME :: byte where "BINARY_FRAME = 0x2"
definition CLOSE :: byte where "CLOSE = 8"
definition PING :: byte where "PING = 9"
definition PONG :: byte where "PONG = 0xa"

lemmas opcode_defs = CONTINUATION_def TEXT_FRAME_def BINARY_FRAME_def CLOSE_def PING_def PONG_def

section \<open>Sending\<close>

definition masking_key :: "byte list" where
  "masking_key = [0x12, 0x34, 0x56, 0x78]"

definition mask_bytes :: "byte list \<Rightarrow> byte list \<Rightarrow> byte list" where
  "mask_bytes key data = map (\<lambda>i. data ! i XOR key ! (i mod 4)) [0..<length data]"

text \<open>\<open>(message_size >> 8 * k) & 0xff\<close>.\<close>

definition size_byte :: "uint64 \<Rightarrow> nat \<Rightarrow> byte" where
  "size_byte message_size k = ucast (drop_bit (8 * k) message_size AND 0xff)"

definition mask_bit :: "bool \<Rightarrow> byte" where
  "mask_bit use_mask = (if use_mask then 0x80 else 0)"

definition frame_header :: "byte \<Rightarrow> bool \<Rightarrow> uint64 \<Rightarrow> byte list" where
  "frame_header type use_mask message_size =
     (0x80 OR type) #
     (if message_size < 126 then [size_byte message_size 0 OR mask_bit use_mask]
      else if message_size < 65536
      then [126 OR mask_bit use_mask, size_byte message_size 1, size_byte message_size 0]
      else (127 OR mask_bit use_mask) # map (size_byte message_size) [7, 6, 5, 4, 3, 2, 1, 0]) @
     (if use_mask then masking_key else [])"

definition sendData :: "byte \<Rightarrow> byte list \<Rightarrow> wsocket \<Rightarrow> wsocket" where
  "sendData type message ws =
     (if readyState ws = CLOSING \<or> readyState ws = CLOSED then ws
      else ws\<lparr>txbuf := txbuf ws @ frame_header type (useMask ws) (of_nat (length message)) @
        (if useMask ws then mask_bytes masking_key message else message)\<rparr>)"

definition ws_send :: "byte list \<Rightarrow> wsocket \<Rightarrow> wsocket" where
  "ws_send message = sendData TEXT_FRAME message"

definition ws_sendBinary :: "byte list \<Rightarrow> wsocket \<Rightarrow> wsocket" where
  "ws_sendBinary message = sendData BINARY_FRAME message"

definition ws_sendPing :: "wsocket \<Rightarrow> wsocket" where
  "ws_sendPing = sendData PING []"

definition closeFrame :: "byte list" where
  "closeFrame = [0x88, 0x80, 0x00, 0x00, 0x00, 0x00]"

definition ws_close :: "wsocket \<Rightarrow> wsocket" where
  "ws_close ws =
     (if readyState ws = CLOSING \<or> readyState ws = CLOSED then ws
      else ws\<lparr>readyState := CLOSING, txbuf := txbuf ws @ closeFrame\<rparr>)"

section \<open>Dispatching received frames\<close>

definition ws_fin :: "byte list \<Rightarrow> bool" where
  "ws_fin data = (data ! 0 AND 0x80 = 0x80)"

definition ws_opcode :: "byte list \<Rightarrow> byte" where
  "ws_opcode data = data ! 0 AND 0x0f"

definition ws_mask :: "byte list \<Rightarrow> bool" where
  "ws_mask data = (data ! 1 AND 0x80 = 0x80)"

definition ws_N0 :: "byte list \<Rightarrow> byte" where
  "ws_N0 data = data ! 1 AND 0x7f"

definition ws_header_size :: "byte list \<Rightarrow> nat" where
  "ws_header_size data =
     2 + (if ws_N0 data = 126 then 2 else 0) + (if ws_N0 data = 127 then 8 else 0) + (if ws_mask data then 4 else 0)"

definition ws_N :: "byte list \<Rightarrow> uint64" where
  "ws_N data =
     (if ws_N0 data < 126 then ucast (ws_N0 data)
      else if ws_N0 data = 126 then push_bit 8 (ucast (data ! 2)) OR ucast (data ! 3)
      else push_bit 56 (ucast (data ! 2)) OR push_bit 48 (ucast (data ! 3)) OR
           push_bit 40 (ucast (data ! 4)) OR push_bit 32 (ucast (data ! 5)) OR
           push_bit 24 (ucast (data ! 6)) OR push_bit 16 (ucast (data ! 7)) OR
           push_bit 8 (ucast (data ! 8)) OR ucast (data ! 9))"

definition ws_key :: "byte list \<Rightarrow> byte list" where
  "ws_key data =
     (let i = (if ws_N0 data < 126 then 2 else if ws_N0 data = 126 then 4 else 10)
      in if ws_mask data then map (\<lambda>k. data ! (i + k)) [0, 1, 2, 3] else [0, 0, 0, 0])"

text \<open>A callback is given the message, the socket and its own state.\<close>

type_synonym 'u ws_callback = "byte list \<Rightarrow> wsocket \<times> 'u \<Rightarrow> wsocket \<times> 'u"

text \<open>What the loop does with a whole frame, before the frame is erased from the buffer.\<close>

definition ws_deliver ::
  "'u ws_callback \<Rightarrow> bool \<Rightarrow> byte \<Rightarrow> byte list \<Rightarrow> wsocket \<times> 'u \<Rightarrow> wsocket \<times> 'u" where
  "ws_deliver callable fin opcode payload s =
     (if opcode = TEXT_FRAME \<or> opcode = BINARY_FRAME \<or> opcode = CONTINUATION
      then let s = (fst s\<lparr>receivedData := receivedData (fst s) @ payload\<rparr>, snd s)
           in if fin
              then let s = callable (receivedData (fst s)) s in (fst s\<lparr>receivedData := []\<rparr>, snd s)
              else s
      else if opcode = PING then (sendData PONG payload (fst s), snd s)
      else if opcode = PONG then s
      else (ws_close (fst s), snd s))"

text \<open>
  One turn of the loop: \<open>Some None\<close> when the buffer holds no whole frame. The test adds in 64
  bits. The payload is unmasked in the buffer when the opcode asks for the payload.
\<close>

definition dispatch_step ::
  "'u ws_callback \<Rightarrow> wsocket \<times> 'u \<Rightarrow> (wsocket \<times> 'u) option option" where
  "dispatch_step callable s =
     (let data = rxbuf (fst s); h = ws_header_size data; N = ws_N data
      in if length data < 2 \<or> length data < h then Some None
         else if of_nat (length data) < (of_nat h + N :: uint64) then Some None
         else if length data < h + unat N then None
         else let payload = (if ws_mask data then mask_bytes (ws_key data) (take (unat N) (drop h data))
                             else take (unat N) (drop h data));
                  s = (if ws_opcode data \<in> {TEXT_FRAME, BINARY_FRAME, CONTINUATION, PING}
                       then (fst s\<lparr>rxbuf := take h data @ payload @ drop (h + unat N) data\<rparr>, snd s) else s);
                  s = ws_deliver callable (ws_fin data) (ws_opcode data) payload s
              in if length (rxbuf (fst s)) < h + unat N then None
                 else Some (Some (fst s\<lparr>rxbuf := drop (h + unat N) (rxbuf (fst s))\<rparr>, snd s)))"

partial_function (option) dispatch ::
  "'u ws_callback \<Rightarrow> wsocket \<times> 'u \<Rightarrow> (wsocket \<times> 'u) option" where
  "dispatch callable s = Option.bind (dispatch_step callable s)
     (\<lambda>r. case r of None \<Rightarrow> Some s | Some s' \<Rightarrow> dispatch callable s')"

section \<open>Exchanging bytes with the socket\<close>

text \<open>
  The socket is the list of the results that its calls will give: what \<open>recv\<close> returns and how
  much \<open>send\<close> takes, a would-block error once a list is used up, and the bytes sent so far.
\<close>

datatype recv_result = Recv_block | Recv_end | Recv_bytes "byte list"

datatype send_result = Send_block | Send_end | Send_bytes nat

record socket =
  recv_results :: "recv_result list"
  send_results :: "send_result list"
  sent :: "byte list"

fun poll_recv :: "recv_result list \<Rightarrow> wsocket \<Rightarrow> wsocket \<times> recv_result list" where
  "poll_recv [] ws = (ws, [])"
| "poll_recv (Recv_block # rs) ws = (ws, rs)"
| "poll_recv (Recv_end # rs) ws = (ws\<lparr>readyState := CLOSED\<rparr>, rs)"
| "poll_recv (Recv_bytes bs # rs) ws = poll_recv rs (ws\<lparr>rxbuf := rxbuf ws @ bs\<rparr>)"

text \<open>\<open>send\<close> takes at most what it is offered.\<close>

fun poll_send :: "send_result list \<Rightarrow> wsocket \<Rightarrow> byte list \<Rightarrow> wsocket \<times> send_result list \<times> byte list" where
  "poll_send rs ws out =
     (if txbuf ws = [] then (ws, rs, out)
      else case rs of
        [] \<Rightarrow> (ws, [], out)
      | Send_block # rs \<Rightarrow> (ws, rs, out)
      | Send_end # rs \<Rightarrow> (ws\<lparr>readyState := CLOSED\<rparr>, rs, out)
      | Send_bytes n # rs \<Rightarrow>
          poll_send rs (ws\<lparr>txbuf := drop n (txbuf ws)\<rparr>) (out @ take n (txbuf ws)))"

definition ws_poll :: "wsocket \<Rightarrow> socket \<Rightarrow> wsocket \<times> socket" where
  "ws_poll ws sock =
     (if readyState ws = CLOSED then (ws, sock)
      else let (ws, rs) = poll_recv (recv_results sock) ws;
               (ws, ss, out) = poll_send (send_results sock) ws (sent sock);
               ws = (if txbuf ws = [] \<and> readyState ws = CLOSING then ws\<lparr>readyState := CLOSED\<rparr> else ws)
           in (ws, \<lparr>recv_results = rs, send_results = ss, sent = out\<rparr>))"

text \<open>No header announces a length that wraps around when the header size is added.\<close>

definition no_wrap :: "byte list \<Rightarrow> bool" where
  "no_wrap rx \<longleftrightarrow> (\<forall>k < length rx - 1. ws_header_size (drop k rx) + k \<le> length rx \<longrightarrow>
     ws_header_size (drop k rx) + unat (ws_N (drop k rx)) < 2 ^ 64)"

lemma no_wrapD:
  assumes "no_wrap rx" "2 \<le> length rx - k" "ws_header_size (drop k rx) \<le> length rx - k"
  shows "ws_header_size (drop k rx) + unat (ws_N (drop k rx)) < 2 ^ 64"
proof -
  have "k < length rx - 1" "ws_header_size (drop k rx) + k \<le> length rx" using assms(2,3) by linarith+
  then show ?thesis using assms(1) unfolding no_wrap_def by blast
qed

lemma no_wrap_drop: "no_wrap rx \<Longrightarrow> no_wrap (drop n rx)"
  unfolding no_wrap_def[of "drop n rx"]
  using no_wrapD[of rx "_ + n"] by (simp add: no_wrapD)

section \<open>The header is read back\<close>

lemma and_ff: "(x :: uint64) AND 0xff = take_bit 8 x"
  by (simp add: take_bit_eq_mask mask_eq_exp_minus_1)

lemma bit_size_byte: "bit (size_byte s k) n \<longleftrightarrow> n < 8 \<and> bit s (8 * k + n)"
  by (auto simp: size_byte_def and_ff bit_simps)

lemma size_byte_step:
  assumes "k < 8"
  shows "push_bit (8 * k) (ucast (size_byte s k)) OR take_bit (8 * k) s = take_bit (8 * (k + 1)) (s :: uint64)"
proof (rule bit_word_eqI)
  fix n
  assume "n < LENGTH(64)"
  then show "bit (push_bit (8 * k) (ucast (size_byte s k)) OR take_bit (8 * k) s) n = bit (take_bit (8 * (k + 1)) s) n"
    by (cases "n < 8 * k") (auto simp: bit_simps bit_size_byte)
qed

lemma size_byte_0: "ucast (size_byte s 0) = take_bit 8 (s :: uint64)"
  using size_byte_step[of 0 s] by simp

lemma N_bytes8:
  "push_bit 56 (ucast (size_byte s 7)) OR push_bit 48 (ucast (size_byte s 6)) OR
   push_bit 40 (ucast (size_byte s 5)) OR push_bit 32 (ucast (size_byte s 4)) OR
   push_bit 24 (ucast (size_byte s 3)) OR push_bit 16 (ucast (size_byte s 2)) OR
   push_bit 8 (ucast (size_byte s 1)) OR ucast (size_byte s 0) = (s :: uint64)"
  using size_byte_step[of 1 s] size_byte_step[of 2 s] size_byte_step[of 3 s] size_byte_step[of 4 s]
    size_byte_step[of 5 s] size_byte_step[of 6 s] size_byte_step[of 7 s]
  by (simp add: size_byte_0 take_bit_word_eq_self)

lemma take_bit_small: "unat (s :: 'a :: len word) < 2 ^ k \<Longrightarrow> take_bit k s = s"
  by (simp add: word_unat_eq_iff unsigned_take_bit_eq take_bit_nat_eq_self)

lemma N_bytes2:
  assumes "s < 65536"
  shows "push_bit 8 (ucast (size_byte s 1)) OR ucast (size_byte s 0) = (s :: uint64)"
proof -
  have "take_bit 16 s = s" using assms by (intro take_bit_small) (simp add: word_less_nat_alt)
  then show ?thesis using size_byte_step[of 1 s] by (simp add: size_byte_0)
qed

lemma and_7f: "(b :: byte) AND 0x7f = take_bit 7 b"
  by (simp add: take_bit_eq_mask mask_eq_exp_minus_1)

lemma bit_80: "bit (0x80 :: byte) n \<longleftrightarrow> n = 7"
proof -
  have "(0x80 :: byte) = push_bit 7 1" by simp
  then show ?thesis by (simp only: bit_push_bit_iff) (auto simp: bit_1_iff)
qed

lemma second_byte:
  assumes "unat b < 128"
  shows "(b OR mask_bit m) AND 0x7f = b" and "(b OR mask_bit m) AND 0x80 = 0x80 \<longleftrightarrow> m"
proof -
  have t: "take_bit 7 b = b" using assms by (intro take_bit_small) simp
  then have 7: "\<not> bit b 7" by (metis bit_take_bit_iff less_irrefl)
  have "take_bit 7 (mask_bit m) = 0" by (simp add: mask_bit_def)
  then show "(b OR mask_bit m) AND 0x7f = b" by (simp add: and_7f take_bit_or t)
  show "(b OR mask_bit m) AND 0x80 = 0x80 \<longleftrightarrow> m"
  proof (cases m)
    case True
    then show ?thesis by (auto simp: bit_eq_iff bit_simps bit_80 mask_bit_def)
  next
    case False
    have "bit (0x80 :: byte) 7" by (simp add: bit_80)
    then have "\<not> b AND 0x80 = 0x80" using 7 by (metis bit_and_iff)
    then show ?thesis using False by (simp add: mask_bit_def)
  qed
qed

lemma first_byte:
  assumes "unat op < 16"
  shows "(0x80 OR op) AND 0x0f = op" and "(0x80 OR op) AND 0x80 = (0x80 :: byte)"
proof -
  have t: "take_bit 4 op = op" using assms by (intro take_bit_small) simp
  have "(0x80 OR op) AND 0x0f = take_bit 4 (0x80 OR op)" by (simp add: take_bit_eq_mask mask_eq_exp_minus_1)
  then show "(0x80 OR op) AND 0x0f = op" by (simp add: take_bit_or t)
  show "(0x80 OR op) AND 0x80 = (0x80 :: byte)" by (auto simp: bit_eq_iff bit_simps bit_80)
qed

lemma unat_ucast_byte: "unat (ucast (b :: byte) :: uint64) = unat b"
  using unsigned_less[of b, where 'a = nat] by (simp add: unsigned_ucast_eq take_bit_nat_eq_self)

lemma header_fields:
  assumes "unat op < 16" and h_def: "h = frame_header op m n"
  shows "ws_fin (h @ xs)" "ws_opcode (h @ xs) = op" "ws_mask (h @ xs) = m" "ws_header_size (h @ xs) = length h"
    "ws_N (h @ xs) = n" "ws_key (h @ xs) = (if m then masking_key else [0, 0, 0, 0])" "2 \<le> length h"
proof -
  show "ws_fin (h @ xs)" "ws_opcode (h @ xs) = op"
    using first_byte[OF assms(1)] by (simp_all add: h_def ws_fin_def ws_opcode_def frame_header_def)
  have "ws_mask (h @ xs) = m \<and> ws_header_size (h @ xs) = length h \<and> ws_N (h @ xs) = n \<and>
    ws_key (h @ xs) = (if m then masking_key else [0, 0, 0, 0]) \<and> 2 \<le> length h"
  proof (cases "n < 126")
    case True
    then have n: "unat n < 126" by (simp add: word_less_nat_alt)
    have "ucast (size_byte n 0) = n"
      using n take_bit_small[of n 8] by (simp add: size_byte_0)
    moreover have b: "unat (size_byte n 0) = unat n"
      using unat_ucast_byte[of "size_byte n 0"] calculation by simp
    moreover have "size_byte n 0 < 126" "size_byte n 0 \<noteq> 126" "size_byte n 0 \<noteq> 127"
      using b n by (auto simp: word_less_nat_alt)
    moreover have "unat (size_byte n 0) < 128" using b n by simp
    note second_byte[OF this, of m]
    ultimately show ?thesis
      using True
      by (cases m) (simp_all add: h_def frame_header_def ws_mask_def ws_header_size_def ws_N_def ws_N0_def
          ws_key_def masking_key_def)
  next
    case False
    show ?thesis
    proof (cases "n < 65536")
      case True
      then show ?thesis
        using False second_byte[of 126 m] N_bytes2[OF True]
        by (simp add: h_def frame_header_def ws_mask_def ws_header_size_def ws_N_def ws_N0_def ws_key_def
          masking_key_def)
    next
      case big: False
      then show ?thesis
        using False second_byte[of 127 m] N_bytes8[of n]
        by (simp add: h_def frame_header_def ws_mask_def ws_header_size_def ws_N_def ws_N0_def ws_key_def
          masking_key_def)
    qed
  qed
  then show "ws_mask (h @ xs) = m" "ws_header_size (h @ xs) = length h"
    "ws_N (h @ xs) = n" "ws_key (h @ xs) = (if m then masking_key else [0, 0, 0, 0])" "2 \<le> length h" by auto
qed

section \<open>Frames\<close>

definition ws_frame :: "byte \<Rightarrow> bool \<Rightarrow> byte list \<Rightarrow> byte list" where
  "ws_frame type use_mask message = frame_header type use_mask (of_nat (length message)) @
     (if use_mask then mask_bytes masking_key message else message)"

lemma sendData_frame:
  "sendData type message ws =
     (if readyState ws = CLOSING \<or> readyState ws = CLOSED then ws
      else ws\<lparr>txbuf := txbuf ws @ ws_frame type (useMask ws) message\<rparr>)"
  by (simp add: sendData_def ws_frame_def)

lemma length_mask_bytes [simp]: "length (mask_bytes key data) = length data"
  by (simp add: mask_bytes_def)

lemma mask_bytes_twice: "mask_bytes key (mask_bytes key data) = data"
  by (rule nth_equalityI) (simp_all add: mask_bytes_def xor.assoc)

text \<open>Reading a header needs no byte past it.\<close>

lemma header_prefix:
  assumes "2 \<le> length a"
  shows "ws_fin (a @ b) = ws_fin a" "ws_opcode (a @ b) = ws_opcode a" "ws_mask (a @ b) = ws_mask a"
    "ws_N0 (a @ b) = ws_N0 a" "ws_header_size (a @ b) = ws_header_size a"
    "ws_header_size a \<le> length a \<Longrightarrow> ws_N (a @ b) = ws_N a"
    "ws_header_size a \<le> length a \<Longrightarrow> ws_key (a @ b) = ws_key a"
proof -
  have s: "(a @ b) ! 0 = a ! 0" "(a @ b) ! 1 = a ! 1" using assms by (auto simp: nth_append)
  show "ws_fin (a @ b) = ws_fin a" "ws_opcode (a @ b) = ws_opcode a" "ws_mask (a @ b) = ws_mask a"
    "ws_N0 (a @ b) = ws_N0 a" "ws_header_size (a @ b) = ws_header_size a"
    by (simp_all only: ws_fin_def ws_opcode_def ws_mask_def ws_N0_def ws_header_size_def s)
  assume h: "ws_header_size a \<le> length a"
  have N0: "ws_N0 (a @ b) = ws_N0 a" "ws_mask (a @ b) = ws_mask a"
    by (simp_all only: ws_N0_def ws_mask_def s)
  have lt: "ws_N0 a < 126 \<or> ws_N0 a = 126 \<or> ws_N0 a = 127"
  proof -
    have "ws_N0 a \<le> 127" unfolding ws_N0_def by (rule word_and_le1)
    then have "unat (ws_N0 a) \<le> 127" by (simp add: word_le_nat_alt)
    then have "unat (ws_N0 a) < 126 \<or> unat (ws_N0 a) = 126 \<or> unat (ws_N0 a) = 127" by linarith
    then show ?thesis by (auto simp: word_less_nat_alt word_unat_eq_iff)
  qed
  show "ws_N (a @ b) = ws_N a"
    using h lt unfolding ws_N_def N0 by (auto simp: ws_header_size_def nth_append split: if_splits)
  show "ws_key (a @ b) = ws_key a"
    using h lt unfolding ws_key_def N0 by (auto simp: ws_header_size_def nth_append Let_def split: if_splits)
qed

lemma header_size_ge: "2 \<le> ws_header_size a"
  by (simp add: ws_header_size_def)

section \<open>Callbacks that leave the receive buffer alone\<close>

text \<open>
  The contract for a callback: what it does neither depends on the receive buffer nor changes
  it. It may send, close and change its own state.
\<close>

locale quiet_callback =
  fixes callable :: "'u ws_callback"
  assumes quiet: "callable m (ws\<lparr>rxbuf := r\<rparr>, u) =
    (fst (callable m (ws, u))\<lparr>rxbuf := r\<rparr>, snd (callable m (ws, u)))"
begin

lemma quiet_rx: "rxbuf (fst (callable m (ws, u))) = rxbuf ws"
proof -
  have "rxbuf (fst (callable m (ws, u))) = rxbuf (fst (callable m (ws\<lparr>rxbuf := rxbuf ws\<rparr>, u)))" by simp
  also have "\<dots> = rxbuf ws" by (simp only: quiet fst_conv) simp
  finally show ?thesis .
qed

lemma deliver_quiet:
  "ws_deliver callable fin op p (ws\<lparr>rxbuf := r\<rparr>, u) =
     (fst (ws_deliver callable fin op p (ws, u))\<lparr>rxbuf := r\<rparr>, snd (ws_deliver callable fin op p (ws, u)))"
proof -
  have c: "ws\<lparr>rxbuf := r, receivedData := d\<rparr> = ws\<lparr>receivedData := d\<rparr>\<lparr>rxbuf := r\<rparr>" for d by simp
  show ?thesis
    by (auto simp: ws_deliver_def Let_def sendData_frame ws_close_def c quiet simp del: wsocket.update_convs)
qed

lemma deliver_rx: "rxbuf (fst (ws_deliver callable fin op p (ws, u))) = rxbuf ws"
  by (auto simp: ws_deliver_def Let_def sendData_frame ws_close_def quiet_rx)

text \<open>A turn of the loop, in closed form.\<close>

definition turn :: "wsocket \<times> 'u \<Rightarrow> wsocket \<times> 'u" where
  "turn s =
     (let data = rxbuf (fst s); h = ws_header_size data; n = unat (ws_N data);
          p = (if ws_mask data then mask_bytes (ws_key data) (take n (drop h data)) else take n (drop h data));
          s = ws_deliver callable (ws_fin data) (ws_opcode data) p s
      in (fst s\<lparr>rxbuf := drop (h + n) data\<rparr>, snd s))"

definition incomplete :: "byte list \<Rightarrow> bool" where
  "incomplete data \<longleftrightarrow> length data < 2 \<or> length data < ws_header_size data \<or>
     of_nat (length data) < (of_nat (ws_header_size data) + ws_N data :: uint64)"

lemma step_turn:
  "dispatch_step callable s =
     (if incomplete (rxbuf (fst s)) then Some None
      else if length (rxbuf (fst s)) < ws_header_size (rxbuf (fst s)) + unat (ws_N (rxbuf (fst s))) then None
      else Some (Some (turn s)))"
proof -
  obtain ws u where s: "s = (ws, u)" by (cases s)
  let ?d = "rxbuf ws" and ?h = "ws_header_size (rxbuf ws)" and ?n = "unat (ws_N (rxbuf ws))"
  let ?p = "if ws_mask ?d then mask_bytes (ws_key ?d) (take ?n (drop ?h ?d)) else take ?n (drop ?h ?d)"
  show ?thesis
  proof (cases "incomplete ?d \<or> length ?d < ?h + ?n")
    case True
    then show ?thesis by (auto simp: s dispatch_step_def incomplete_def Let_def)
  next
    case False
    then have l: "?h + ?n \<le> length ?d" "length (take ?h ?d @ ?p) = ?h + ?n" by auto
    let ?r = "take ?h ?d @ ?p @ drop (?h + ?n) ?d"
    have r: "drop (?h + ?n) ?r = drop (?h + ?n) ?d" "\<not> length ?r < ?h + ?n"
      using l(2) by (metis append_assoc append_eq_conv_conj, metis append_assoc le_add1 length_append not_less)
    let ?s = "ws_deliver callable (ws_fin ?d) (ws_opcode ?d) ?p (ws, u)"
    have "dispatch_step callable s = Some (Some (fst ?s\<lparr>rxbuf := drop (?h + ?n) ?d\<rparr>, snd ?s))"
    proof (cases "ws_opcode ?d \<in> {TEXT_FRAME, BINARY_FRAME, CONTINUATION, PING}")
      case True
      then show ?thesis
        using False r unfolding s dispatch_step_def Let_def incomplete_def fst_conv snd_conv
        by (simp add: deliver_quiet)
    next
      case no: False
      then show ?thesis
        using False l unfolding s dispatch_step_def Let_def incomplete_def fst_conv snd_conv
        by (simp add: deliver_rx)
    qed
    then show ?thesis using False by (simp add: s turn_def Let_def)
  qed
qed

lemma dispatch_turn:
  "dispatch callable s =
     (if incomplete (rxbuf (fst s)) then Some s
      else if length (rxbuf (fst s)) < ws_header_size (rxbuf (fst s)) + unat (ws_N (rxbuf (fst s))) then None
      else dispatch callable (turn s))"
  by (subst dispatch.simps) (simp add: step_turn)

text \<open>A buffer that starts with a whole frame. It is then shorter by at least two bytes after the turn.\<close>

definition whole :: "byte list \<Rightarrow> bool" where
  "whole d \<longleftrightarrow> 2 \<le> length d \<and> ws_header_size d + unat (ws_N d) \<le> length d"

lemma whole_complete:
  assumes "whole d" "length d < 2 ^ 64"
  shows "\<not> incomplete d"
proof -
  have "unat (of_nat (ws_header_size d) + ws_N d :: uint64) = ws_header_size d + unat (ws_N d)"
    using assms by (simp add: whole_def unat_word_ariths unat_of_nat)
  moreover have "unat (of_nat (length d) :: uint64) = length d" using assms(2) by (simp add: unat_of_nat)
  ultimately show ?thesis
    using assms(1) by (simp add: incomplete_def whole_def word_less_nat_alt)
qed

lemma complete_whole:
  assumes "\<not> incomplete d" "ws_header_size d + unat (ws_N d) < 2 ^ 64"
  shows "whole d"
proof -
  have "unat (of_nat (ws_header_size d) + ws_N d :: uint64) = ws_header_size d + unat (ws_N d)"
    using assms(2) by (simp add: unat_word_ariths unat_of_nat)
  moreover have "unat (of_nat (length d) :: uint64) \<le> length d" by (simp add: unat_of_nat)
  ultimately show ?thesis
    using assms(1) by (simp add: incomplete_def whole_def word_less_nat_alt not_less)
qed

lemma dispatch_whole:
  "whole (rxbuf (fst s)) \<Longrightarrow> length (rxbuf (fst s)) < 2 ^ 64 \<Longrightarrow> dispatch callable s = dispatch callable (turn s)"
  using dispatch_turn[of s] whole_complete[of "rxbuf (fst s)"] by (simp add: whole_def)

lemma turn_rx: "rxbuf (fst (turn s)) =
    drop (ws_header_size (rxbuf (fst s)) + unat (ws_N (rxbuf (fst s)))) (rxbuf (fst s))"
  by (simp add: turn_def Let_def)

lemma whole_append: "whole a \<Longrightarrow> whole (a @ b)"
  using header_prefix[of a b] by (auto simp: whole_def)

lemma turn_append:
  assumes "whole a"
  shows "turn (ws\<lparr>rxbuf := a @ b\<rparr>, u) =
    (fst (turn (ws\<lparr>rxbuf := a\<rparr>, u))\<lparr>rxbuf := rxbuf (fst (turn (ws\<lparr>rxbuf := a\<rparr>, u))) @ b\<rparr>,
     snd (turn (ws\<lparr>rxbuf := a\<rparr>, u)))"
proof -
  have l: "2 \<le> length a" "ws_header_size a + unat (ws_N a) \<le> length a" "ws_header_size a \<le> length a"
    using assms by (auto simp: whole_def)
  note h = header_prefix[OF l(1), of b, simplified l, simplified]
  have t: "take (unat (ws_N a)) (drop (ws_header_size a) (a @ b)) = take (unat (ws_N a)) (drop (ws_header_size a) a)"
    "drop (ws_header_size a + unat (ws_N a)) (a @ b) = drop (ws_header_size a + unat (ws_N a)) a @ b"
    using l by simp_all
  show ?thesis
    using h t by (simp add: turn_def Let_def deliver_quiet del: take_append drop_append)
qed

text \<open>Dispatching what has arrived and then the rest is dispatching everything at once.\<close>

lemma dispatch_append:
  assumes "dispatch callable (ws\<lparr>rxbuf := a\<rparr>, u) = Some (ws', u')" "length (a @ b) < 2 ^ 64"
  shows "dispatch callable (ws\<lparr>rxbuf := a @ b\<rparr>, u) = dispatch callable (ws'\<lparr>rxbuf := rxbuf ws' @ b\<rparr>, u')"
  using assms
proof (induction "length a" arbitrary: a ws u rule: less_induct)
  case less
  show ?case
  proof (cases "incomplete a")
    case True
    then have "ws' = ws\<lparr>rxbuf := a\<rparr>" "u' = u"
      using less.prems(1) dispatch_turn[of "(ws\<lparr>rxbuf := a\<rparr>, u)"] by auto
    then show ?thesis by simp
  next
    case False
    then have w: "whole a"
      using less.prems(1) dispatch_turn[of "(ws\<lparr>rxbuf := a\<rparr>, u)"]
      by (auto simp: whole_def incomplete_def split: if_splits)
    obtain ws1 u1 where t: "turn (ws\<lparr>rxbuf := a\<rparr>, u) = (ws1, u1)" by fastforce
    have rx: "rxbuf ws1 = drop (ws_header_size a + unat (ws_N a)) a"
      using turn_rx[of "(ws\<lparr>rxbuf := a\<rparr>, u)"] t by simp
    have "dispatch callable (ws\<lparr>rxbuf := a @ b\<rparr>, u) = dispatch callable (ws1\<lparr>rxbuf := rxbuf ws1 @ b\<rparr>, u1)"
      using dispatch_whole[of "(ws\<lparr>rxbuf := a @ b\<rparr>, u)"] whole_append[OF w] less.prems(2)
        turn_append[OF w, of b ws u] t by simp
    also have "\<dots> = dispatch callable (ws'\<lparr>rxbuf := rxbuf ws' @ b\<rparr>, u')"
    proof (rule less.hyps)
      show "length (rxbuf ws1) < length a"
        using rx w header_size_ge[of a] by (simp add: whole_def) linarith
      have "length a < 2 ^ 64" using less.prems(2) by simp
      then show "dispatch callable (ws1\<lparr>rxbuf := rxbuf ws1\<rparr>, u1) = Some (ws', u')"
        using less.prems(1) dispatch_whole[of "(ws\<lparr>rxbuf := a\<rparr>, u)"] w t by simp
      show "length (rxbuf ws1 @ b) < 2 ^ 64" using less.prems(2) rx by simp
    qed
    finally show ?thesis .
  qed
qed

text \<open>The loop ends, without undefined behaviour when no length in the buffer wraps around.\<close>

lemma dispatch_total:
  assumes "no_wrap (rxbuf (fst s))"
  shows "\<exists>s'. dispatch callable s = Some s' \<and> incomplete (rxbuf (fst s'))"
  using assms
proof (induction "length (rxbuf (fst s))" arbitrary: s rule: less_induct)
  case less
  show ?case
  proof (cases "incomplete (rxbuf (fst s))")
    case True
    then show ?thesis using dispatch_turn[of s] by simp
  next
    case False
    let ?rx = "rxbuf (fst s)"
    have "2 \<le> length ?rx" "ws_header_size ?rx \<le> length ?rx" using False by (auto simp: incomplete_def)
    then have "ws_header_size ?rx + unat (ws_N ?rx) < 2 ^ 64"
      using no_wrapD[OF less.prems, of 0] by simp
    then have w: "whole ?rx" using False by (rule complete_whole[rotated])
    have "\<exists>s'. dispatch callable (turn s) = Some s' \<and> incomplete (rxbuf (fst s'))"
    proof (rule less.hyps)
      show "length (rxbuf (fst (turn s))) < length (rxbuf (fst s))"
        using turn_rx[of s] w header_size_ge[of "rxbuf (fst s)"] by (simp add: whole_def) linarith
      show "no_wrap (rxbuf (fst (turn s)))" using no_wrap_drop[OF less.prems] by (simp add: turn_rx)
    qed
    then show ?thesis using False w dispatch_turn[of s] by (simp add: whole_def)
  qed
qed

text \<open>A frame that \<open>sendData\<close> made is read back as its message.\<close>

lemma frame_whole:
  assumes "unat op < 16" "rx = ws_frame op m msg @ rest" "length rx < 2 ^ 64"
  shows "whole rx" and "turn (ws\<lparr>rxbuf := rx\<rparr>, u) =
    (fst (ws_deliver callable True op msg (ws, u))\<lparr>rxbuf := rest\<rparr>, snd (ws_deliver callable True op msg (ws, u)))"
proof -
  let ?h = "frame_header op m (of_nat (length msg))" and ?p = "if m then mask_bytes masking_key msg else msg"
  have rx: "rx = ?h @ (?p @ rest)" by (simp add: assms(2) ws_frame_def)
  note f = header_fields(1-6)[OF assms(1), of ?h m "of_nat (length msg)" "?p @ rest", OF refl, folded rx]
    header_fields(7)[OF assms(1), of ?h m "of_nat (length msg)", OF refl]
  have n: "unat (of_nat (length msg) :: uint64) = length msg"
    using assms(3) rx by (simp add: unat_of_nat split: if_splits)
  show "whole rx" using f n by (simp add: whole_def rx)
  have d: "take (length msg) (drop (length ?h) rx) = ?p" "drop (length ?h + length msg) rx = rest"
    by (simp_all add: rx)
  show "turn (ws\<lparr>rxbuf := rx\<rparr>, u) =
    (fst (ws_deliver callable True op msg (ws, u))\<lparr>rxbuf := rest\<rparr>, snd (ws_deliver callable True op msg (ws, u)))"
    using f n d by (cases m) (simp_all add: turn_def Let_def deliver_quiet mask_bytes_twice)
qed

end

text \<open>The callback that records the messages, and the one that sends each message back.\<close>

definition log_callback :: "byte list list ws_callback" where
  "log_callback m s = (fst s, snd s @ [m])"

definition echo_callback :: "unit ws_callback" where
  "echo_callback m s = (ws_send m (fst s), snd s)"

interpretation log: quiet_callback log_callback
  by unfold_locales (simp add: log_callback_def)

interpretation echo: quiet_callback echo_callback
  by unfold_locales (simp add: echo_callback_def ws_send_def sendData_frame)

section \<open>The ready state\<close>

fun rank :: "ready_state \<Rightarrow> nat" where
  "rank CONNECTING = 0"
| "rank OPEN = 1"
| "rank CLOSING = 2"
| "rank CLOSED = 3"

text \<open>
  What a client and its loop do with a socket: sending, closing, exchanging bytes and
  dispatching with a callback that only records.
\<close>

inductive ws_step :: "wsocket \<times> socket \<Rightarrow> wsocket \<times> socket \<Rightarrow> bool" where
  send_text: "ws_step (ws, sock) (ws_send m ws, sock)"
| send_binary: "ws_step (ws, sock) (ws_sendBinary m ws, sock)"
| send_ping: "ws_step (ws, sock) (ws_sendPing ws, sock)"
| close: "ws_step (ws, sock) (ws_close ws, sock)"
| poll: "ws_step (ws, sock) (ws_poll ws sock)"
| dispatch: "dispatch log_callback (ws, l) = Some (ws', l') \<Longrightarrow> ws_step (ws, sock) (ws', sock)"

text \<open>No step lowers the rank; once closing, nothing more is queued for sending.\<close>

definition winds_down :: "wsocket \<Rightarrow> wsocket \<Rightarrow> bool" where
  "winds_down ws ws' \<longleftrightarrow> rank (readyState ws) \<le> rank (readyState ws') \<and>
     (2 \<le> rank (readyState ws) \<longrightarrow> (\<exists>k. txbuf ws' = drop k (txbuf ws)))"

lemma winds_down_refl [simp]: "winds_down ws ws"
  unfolding winds_down_def by (auto intro: exI[of _ 0])

lemma winds_down_same:
  "readyState ws' = readyState ws \<Longrightarrow> txbuf ws' = txbuf ws \<Longrightarrow> winds_down ws ws'"
  unfolding winds_down_def by (auto intro: exI[of _ 0])

lemma winds_down_trans: "winds_down a b \<Longrightarrow> winds_down b c \<Longrightarrow> winds_down a c"
  unfolding winds_down_def by (auto simp: drop_drop)

lemma rank_2: "2 \<le> rank r \<longleftrightarrow> r = CLOSING \<or> r = CLOSED"
  by (cases r) simp_all

lemma sendData_winds_down: "winds_down ws (sendData op m ws)"
  unfolding winds_down_def sendData_frame rank_2 by (auto intro: exI[of _ 0])

lemma close_winds_down: "winds_down ws (ws_close ws)"
  unfolding winds_down_def ws_close_def rank_2
  by (cases "readyState ws") (auto intro: exI[of _ 0])

lemma deliver_winds_down: "winds_down ws (fst (ws_deliver log_callback fin op p (ws, l)))"
  by (auto simp: ws_deliver_def log_callback_def Let_def sendData_winds_down close_winds_down
      intro: winds_down_same)

lemma turn_winds_down: "winds_down (fst s) (fst (log.turn s))"
proof -
  have "winds_down ws (fst (ws_deliver log_callback fin op p (ws, l))\<lparr>rxbuf := r\<rparr>)" for ws fin op p l r
    by (rule winds_down_trans[OF deliver_winds_down winds_down_same]) simp_all
  then show ?thesis by (cases s) (simp add: log.turn_def Let_def)
qed

lemma dispatch_winds_down: "dispatch log_callback s = Some s' \<Longrightarrow> winds_down (fst s) (fst s')"
proof (induction "length (rxbuf (fst s))" arbitrary: s rule: less_induct)
  case less
  show ?case
  proof (cases "log.incomplete (rxbuf (fst s))")
    case True
    then show ?thesis using less.prems log.dispatch_turn[of s] by simp
  next
    case False
    then have w: "log.whole (rxbuf (fst s))" "dispatch log_callback (log.turn s) = Some s'"
      using less.prems log.dispatch_turn[of s]
      by (auto simp: log.whole_def log.incomplete_def split: if_splits)
    have "length (rxbuf (fst (log.turn s))) < length (rxbuf (fst s))"
      using log.turn_rx[of s] w(1) header_size_ge[of "rxbuf (fst s)"] by (simp add: log.whole_def) linarith
    then show ?thesis
      using less.hyps w(2) turn_winds_down winds_down_trans by blast
  qed
qed

lemma poll_recv_frame:
  "poll_recv rs ws = (ws', rs') \<Longrightarrow> txbuf ws' = txbuf ws \<and> rank (readyState ws) \<le> rank (readyState ws') \<and>
     (\<exists>used. rs = used @ rs' \<and> rxbuf ws' = rxbuf ws @ concat (map (\<lambda>r. case r of Recv_bytes b \<Rightarrow> b | _ \<Rightarrow> []) used))"
proof (induction rs ws rule: poll_recv.induct)
  case (2 rs ws)
  then show ?case by (auto intro!: exI[of _ "[Recv_block]"])
next
  case (3 rs ws)
  then show ?case by (cases "readyState ws") (auto intro!: exI[of _ "[Recv_end]"])
next
  case (4 bs rs ws)
  then obtain used where "rs = used @ rs'" "txbuf ws' = txbuf ws" "rank (readyState ws) \<le> rank (readyState ws')"
    "rxbuf ws' = rxbuf ws @ bs @ concat (map (\<lambda>r. case r of Recv_bytes b \<Rightarrow> b | _ \<Rightarrow> []) used)" by auto
  then show ?case by (auto intro!: exI[of _ "Recv_bytes bs # used"])
qed simp

lemma poll_send_frame:
  "poll_send rs ws out = (ws', rs', out') \<Longrightarrow> rxbuf ws' = rxbuf ws \<and> rank (readyState ws) \<le> rank (readyState ws') \<and>
     (\<exists>k. txbuf ws' = drop k (txbuf ws) \<and> out' = out @ take k (txbuf ws))"
proof (induction rs ws out rule: poll_send.induct)
  case (1 rs ws out)
  show ?case
  proof (cases "txbuf ws = [] \<or> rs = []")
    case True
    then show ?thesis using 1(2) by (subst (asm) poll_send.simps) (auto intro: exI[of _ 0] split: list.splits)
  next
    case False
    then obtain r rs1 where rs: "rs = r # rs1" by (cases rs) auto
    show ?thesis
    proof (cases r)
      case Send_block
      then show ?thesis using 1(2) False rs by (subst (asm) poll_send.simps) (auto intro: exI[of _ 0])
    next
      case Send_end
      then show ?thesis using 1(2) False rs
        by (subst (asm) poll_send.simps, cases "readyState ws") (auto intro: exI[of _ 0])
    next
      case (Send_bytes n)
      then have "poll_send rs1 (ws\<lparr>txbuf := drop n (txbuf ws)\<rparr>) (out @ take n (txbuf ws)) = (ws', rs', out')"
        using 1(2) False rs by (subst (asm) poll_send.simps) simp
      then obtain k where "rxbuf ws' = rxbuf ws" "rank (readyState ws) \<le> rank (readyState ws')"
        "txbuf ws' = drop k (drop n (txbuf ws))" "out' = (out @ take n (txbuf ws)) @ take k (drop n (txbuf ws))"
        using 1(1)[OF _ rs Send_bytes] False by auto
      then show ?thesis by (intro conjI exI[of _ "n + k"]) (simp_all add: take_add add.commute[of k n])
    qed
  qed
qed

lemma poll_winds_down: "winds_down ws (fst (ws_poll ws sock))"
proof (cases "readyState ws = CLOSED")
  case False
  obtain ws1 rs1 where r: "poll_recv (recv_results sock) ws = (ws1, rs1)" by fastforce
  obtain ws2 ss2 out2 where s: "poll_send (send_results sock) ws1 (sent sock) = (ws2, ss2, out2)"
    by (cases "poll_send (send_results sock) ws1 (sent sock)") blast
  have "winds_down ws ws1" using poll_recv_frame[OF r] unfolding winds_down_def by (auto intro: exI[of _ 0])
  moreover have "winds_down ws1 ws2" using poll_send_frame[OF s] unfolding winds_down_def by auto
  ultimately have w: "winds_down ws ws2" by (rule winds_down_trans)
  have "winds_down ws2 (ws2\<lparr>readyState := CLOSED\<rparr>)"
    unfolding winds_down_def by (cases "readyState ws2") (auto intro: exI[of _ 0])
  then show ?thesis
    using False r s w winds_down_trans by (auto simp: ws_poll_def Let_def)
qed (simp add: ws_poll_def)

lemma step_winds_down: "ws_step s s' \<Longrightarrow> winds_down (fst s) (fst s')"
proof (induction rule: ws_step.induct)
  case (dispatch ws l ws' l' sock)
  then show ?case using dispatch_winds_down[of "(ws, l)" "(ws', l')"] by simp
qed (simp_all add: ws_send_def ws_sendBinary_def ws_sendPing_def sendData_winds_down close_winds_down poll_winds_down)

section \<open>Messages of a sender\<close>

text \<open>A message is binary or text.\<close>

definition send_message :: "bool \<times> byte list \<Rightarrow> wsocket \<Rightarrow> wsocket" where
  "send_message bm ws = (if fst bm then ws_sendBinary (snd bm) ws else ws_send (snd bm) ws)"

definition message_frame :: "bool \<Rightarrow> bool \<times> byte list \<Rightarrow> byte list" where
  "message_frame use_mask bm = ws_frame (if fst bm then BINARY_FRAME else TEXT_FRAME) use_mask (snd bm)"

lemma send_messages:
  "readyState ws = OPEN \<Longrightarrow>
     fold send_message ms ws = ws\<lparr>txbuf := txbuf ws @ concat (map (message_frame (useMask ws)) ms)\<rparr>"
proof (induction ms arbitrary: ws)
  case (Cons bm ms)
  have s: "send_message bm ws = ws\<lparr>txbuf := txbuf ws @ message_frame (useMask ws) bm\<rparr>"
    using Cons.prems by (simp add: send_message_def message_frame_def ws_send_def ws_sendBinary_def sendData_frame)
  show ?case using Cons.prems Cons.IH[of "send_message bm ws"] by (simp add: s)
qed simp

lemma incomplete_empty: "log.incomplete []"
  by (simp add: log.incomplete_def)

lemma dispatch_frames:
  assumes "length (concat (map (message_frame m) ms)) < 2 ^ 64" "receivedData ws = []"
  shows "dispatch log_callback (ws\<lparr>rxbuf := concat (map (message_frame m) ms)\<rparr>, l) =
    Some (ws\<lparr>rxbuf := []\<rparr>, l @ map snd ms)"
  using assms
proof (induction ms arbitrary: ws l)
  case Nil
  then show ?case using log.dispatch_turn[of "(ws\<lparr>rxbuf := []\<rparr>, l)"] by (simp add: incomplete_empty)
next
  case (Cons bm ms)
  let ?op = "if fst bm then BINARY_FRAME else TEXT_FRAME"
  let ?rest = "concat (map (message_frame m) ms)" and ?rx = "message_frame m bm @ concat (map (message_frame m) ms)"
  have op: "unat ?op < 16" "?op \<in> {TEXT_FRAME, BINARY_FRAME}" by (simp_all add: opcode_defs)
  have rx: "?rx = ws_frame ?op m (snd bm) @ ?rest" by (simp add: message_frame_def)
  have len: "length ?rx < 2 ^ 64" using Cons.prems(1) by simp
  note f = log.frame_whole[OF op(1) rx len]
  have "ws_deliver log_callback True ?op (snd bm) (ws, l) = (ws, l @ [snd bm])"
    using op(2) Cons.prems(2) by (auto simp: ws_deliver_def log_callback_def Let_def)
  then have t: "log.turn (ws\<lparr>rxbuf := ?rx\<rparr>, l) = (ws\<lparr>rxbuf := ?rest\<rparr>, l @ [snd bm])"
    using f(2)[of ws l] by simp
  have "dispatch log_callback (ws\<lparr>rxbuf := ?rx\<rparr>, l) = dispatch log_callback (ws\<lparr>rxbuf := ?rest\<rparr>, l @ [snd bm])"
    using log.dispatch_whole[of "(ws\<lparr>rxbuf := ?rx\<rparr>, l)"] f(1) len t by simp
  then show ?case using Cons.IH[of ws "l @ [snd bm]"] Cons.prems by simp
qed

section \<open>Properties\<close>

text \<open>
  C7: Every sequence of text and binary messages, masked or not, of any length that fits the
  memory, is delivered by the peer's dispatch exactly as it was sent, in order, and the peer's
  buffers are empty afterwards.
\<close>

theorem websocket_roundtrip:
  assumes "length (txbuf (fold send_message ms (mk_wsocket use_mask))) < 2 ^ 64"
  shows "dispatch log_callback
      ((mk_wsocket peer_mask)\<lparr>rxbuf := txbuf (fold send_message ms (mk_wsocket use_mask))\<rparr>, []) =
    Some (mk_wsocket peer_mask, map snd ms)"
  using assms dispatch_frames[of use_mask ms "mk_wsocket peer_mask" "[]"] send_messages[of "mk_wsocket use_mask" ms]
  by (simp add: mk_wsocket_def)

theorem websocket_roundtrip_witness:
  "dispatch log_callback
      ((mk_wsocket False)\<lparr>rxbuf := txbuf (fold send_message [(False, [1, 2, 3]), (True, [4])] (mk_wsocket True))\<rparr>, []) =
    Some (mk_wsocket False, map snd [(False, [1, 2, 3 :: byte]), (True, [4])])"
  by (rule websocket_roundtrip)
    (simp add: send_message_def ws_send_def ws_sendBinary_def sendData_def mk_wsocket_def frame_header_def masking_key_def)

text \<open>
  C8: How the bytes of the peer are cut into pieces does not matter: dispatching a first part
  and later the rest has the effect of dispatching everything at once, for every callback that
  leaves the receive buffer alone.
\<close>

theorem dispatch_chunks:
  assumes "quiet_callback callable" "length (a @ b) < 2 ^ 64"
    and "dispatch callable (ws\<lparr>rxbuf := a\<rparr>, u) = Some (ws', u')"
  shows "dispatch callable (ws\<lparr>rxbuf := a @ b\<rparr>, u) = dispatch callable (ws'\<lparr>rxbuf := rxbuf ws' @ b\<rparr>, u')"
  by (rule quiet_callback.dispatch_append[OF assms(1,3,2)])

theorem dispatch_chunks_witness:
  "dispatch echo_callback ((mk_wsocket True)\<lparr>rxbuf := [0x81] @ [0x01, 65]\<rparr>, ()) =
   dispatch echo_callback ((mk_wsocket True)\<lparr>rxbuf := [0x81]\<rparr>\<lparr>rxbuf := rxbuf ((mk_wsocket True)\<lparr>rxbuf := [0x81]\<rparr>) @ [0x01, 65]\<rparr>, ())"
  by (rule dispatch_chunks[OF echo.quiet_callback_axioms])
    (simp_all add: echo.dispatch_turn[of "((mk_wsocket True)\<lparr>rxbuf := [0x81]\<rparr>, ())"] echo.incomplete_def)

text \<open>
  C9: The dispatch loop ends, without undefined behaviour and with no whole frame left, when
  at no position of the buffer a header announces a length so big that its sum with the header
  size wraps around.
\<close>

theorem dispatch_ends:
  assumes "quiet_callback callable" "no_wrap (rxbuf ws)"
  shows "\<exists>ws' u'. dispatch callable (ws, u) = Some (ws', u') \<and> dispatch_step callable (ws', u') = Some None"
proof -
  obtain s' where "dispatch callable (ws, u) = Some s'" "quiet_callback.incomplete (rxbuf (fst s'))"
    using quiet_callback.dispatch_total[OF assms(1), of "(ws, u)"] assms(2) by auto
  then show ?thesis
    using quiet_callback.step_turn[OF assms(1), of s'] by (cases s') simp
qed

theorem dispatch_ends_witness:
  "\<exists>ws' u'. dispatch echo_callback ((mk_wsocket True)\<lparr>rxbuf := [0x81, 0x01, 65, 0x81]\<rparr>, ()) = Some (ws', u') \<and>
     dispatch_step echo_callback (ws', u') = Some None"
proof (rule dispatch_ends[OF echo.quiet_callback_axioms])
  have N0: "ws_N0 [0x81, 0x01, 65, 0x81] = 1" "ws_N0 [0x01, 65, 0x81] = 65" "ws_N0 [65, 0x81] = 1"
    by (simp_all add: ws_N0_def)
  have d: "drop (Suc 0) [0x81, 0x01, 65, 0x81] = [0x01, 65, 0x81 :: byte]"
    "drop 2 [0x81, 0x01, 65, 0x81] = [65, 0x81 :: byte]" by simp_all
  have "ws_N (drop k [0x81, 0x01, 65, 0x81]) \<in> {1, 65}" if "k = 0 \<or> k = Suc 0 \<or> k = 2" for k
    using that by (elim disjE) (simp_all only: d drop_0 ws_N_def N0, simp_all)
  then have n: "unat (ws_N (drop k [0x81, 0x01, 65, 0x81])) \<le> 65" if "k = 0 \<or> k = Suc 0 \<or> k = 2" for k
    using that by fastforce
  have h: "ws_header_size x \<le> 14" for x by (simp add: ws_header_size_def)
  have b: "65 + 14 < (2 ^ 64 :: nat)" by simp
  have "ws_header_size (drop k [0x81, 0x01, 65, 0x81]) + unat (ws_N (drop k [0x81, 0x01, 65, 0x81])) < 2 ^ 64"
    if "k < 3" for k
  proof -
    have "k = 0 \<or> k = Suc 0 \<or> k = 2" using that by linarith
    from n[OF this] h[of "drop k [0x81, 0x01, 65, 0x81]"] b show ?thesis by linarith
  qed
  then show "no_wrap (rxbuf ((mk_wsocket True)\<lparr>rxbuf := [0x81, 0x01, 65, 0x81]\<rparr>))"
    unfolding no_wrap_def by simp
qed

text \<open>
  A frame of ten bytes whose length field holds \<open>2 ^ 64 - 1\<close> passes the test for a whole
  frame, because the sum with the header size wraps around, and makes the loop access memory
  outside of its buffer.
\<close>

theorem length_overflow:
  "dispatch callable (ws\<lparr>rxbuf := [0x82, 0x7f] @ replicate 8 0xff\<rparr>, u) = None"
proof -
  have r: "replicate 8 (0xff :: byte) = [0xff, 0xff, 0xff, 0xff, 0xff, 0xff, 0xff, 0xff]"
    by (simp add: eval_nat_numeral)
  obtain d :: "byte list" where d: "d = [0x82, 0x7f] @ replicate 8 0xff" by blast
  have N: "ws_N d = - 1" "ws_header_size d = 10" unfolding d r by code_simp+
  have l: "length d = 10" by (simp add: d)
  have u: "unat (- 1 :: uint64) = 2 ^ 64 - 1" by (simp add: unsigned_minus_1_eq_mask mask_eq_exp_minus_1)
  have "dispatch_step callable (ws\<lparr>rxbuf := d\<rparr>, u) = None"
    unfolding dispatch_step_def Let_def by (simp add: N l u)
  then show ?thesis unfolding d by (subst dispatch.simps) simp
qed

text \<open>
  C10: Over any run of sends, pings, closes, polls and dispatches the ready state never goes
  back, and once the socket is closing nothing more is queued for sending.
\<close>

theorem ready_state_monotone:
  assumes "ws_step\<^sup>*\<^sup>* (ws, sock) (ws', sock')"
  shows "rank (readyState ws) \<le> rank (readyState ws') \<and>
    (readyState ws = OPEN \<or> readyState ws = CONNECTING \<or> (\<exists>k. txbuf ws' = drop k (txbuf ws)))"
proof -
  have "winds_down (fst s) (fst s')" if "ws_step\<^sup>*\<^sup>* s s'" for s s'
    using that by (induction rule: rtranclp_induct) (auto intro: winds_down_trans step_winds_down)
  from this[OF assms] show ?thesis
    unfolding winds_down_def by (cases "readyState ws") auto
qed

theorem ready_state_monotone_witness:
  "rank (readyState (ws_close (mk_wsocket True))) \<le> rank (readyState (ws_send [1] (ws_close (mk_wsocket True)))) \<and>
    (readyState (ws_close (mk_wsocket True)) = OPEN \<or> readyState (ws_close (mk_wsocket True)) = CONNECTING \<or>
     (\<exists>k. txbuf (ws_send [1] (ws_close (mk_wsocket True))) = drop k (txbuf (ws_close (mk_wsocket True)))))"
  by (rule ready_state_monotone[of _ "\<lparr>recv_results = [], send_results = [], sent = []\<rparr>" _
        "\<lparr>recv_results = [], send_results = [], sent = []\<rparr>"])
    (intro r_into_rtranclp ws_step.send_text)

text \<open>
  C11: Polling neither loses nor duplicates a byte: what was sent followed by what is still
  queued is unchanged, and the receive buffer grows by exactly the bytes of the calls to
  \<open>recv\<close> that were made.
\<close>

theorem poll_conserves:
  assumes "ws_poll ws sock = (ws', sock')"
  shows "sent sock' @ txbuf ws' = sent sock @ txbuf ws \<and>
    (\<exists>used. recv_results sock = used @ recv_results sock' \<and>
       rxbuf ws' = rxbuf ws @ concat (map (\<lambda>r. case r of Recv_bytes b \<Rightarrow> b | _ \<Rightarrow> []) used))"
proof (cases "readyState ws = CLOSED")
  case True
  then show ?thesis using assms by (auto simp: ws_poll_def)
next
  case False
  obtain ws1 rs1 where r: "poll_recv (recv_results sock) ws = (ws1, rs1)" by fastforce
  obtain ws2 ss2 out2 where s: "poll_send (send_results sock) ws1 (sent sock) = (ws2, ss2, out2)"
    by (cases "poll_send (send_results sock) ws1 (sent sock)") blast
  have e: "rxbuf ws' = rxbuf ws2" "txbuf ws' = txbuf ws2" "sent sock' = out2" "recv_results sock' = rs1"
    using assms False r s by (auto simp: ws_poll_def Let_def split: if_splits)
  show ?thesis using poll_recv_frame[OF r] poll_send_frame[OF s] unfolding e by auto
qed

theorem poll_conserves_witness:
  "sent (snd (ws_poll (ws_send [1, 2] (mk_wsocket False)) \<lparr>recv_results = [Recv_bytes [7]], send_results = [Send_bytes 3], sent = []\<rparr>)) @
     txbuf (fst (ws_poll (ws_send [1, 2] (mk_wsocket False)) \<lparr>recv_results = [Recv_bytes [7]], send_results = [Send_bytes 3], sent = []\<rparr>)) =
   [] @ txbuf (ws_send [1, 2] (mk_wsocket False))"
  using poll_conserves[of "ws_send [1, 2] (mk_wsocket False)" "\<lparr>recv_results = [Recv_bytes [7]], send_results = [Send_bytes 3], sent = []\<rparr>"]
  by (metis prod.collapse socket.select_convs(3))

text \<open>
  The closing handshake: the close frame of an open socket makes an open peer close in
  turn and answer with a close frame of its own, once.
\<close>

theorem close_handshake:
  "dispatch log_callback ((mk_wsocket m)\<lparr>rxbuf := txbuf (ws_close (mk_wsocket m'))\<rparr>, l) =
     Some (ws_close (mk_wsocket m), l) \<and>
   txbuf (ws_close (ws_close (mk_wsocket m))) = closeFrame \<and>
   readyState (ws_close (mk_wsocket m)) = CLOSING"
proof -
  have f: "ws_header_size closeFrame = 6" "ws_N closeFrame = 0" "ws_opcode closeFrame = CLOSE" "length closeFrame = 6"
    by code_simp+
  let ?s = "((mk_wsocket m)\<lparr>rxbuf := closeFrame\<rparr>, l)"
  have t: "log.turn ?s = (ws_close (mk_wsocket m), l)"
    using f by (simp add: log.turn_def Let_def ws_deliver_def opcode_defs ws_close_def mk_wsocket_def)
  have "log.whole closeFrame" using f by (simp add: log.whole_def)
  then have "dispatch log_callback ?s = dispatch log_callback (ws_close (mk_wsocket m), l)"
    using log.dispatch_whole[of ?s] f t by simp
  also have "\<dots> = Some (ws_close (mk_wsocket m), l)"
    using log.dispatch_turn[of "(ws_close (mk_wsocket m), l)"]
    by (simp add: ws_close_def mk_wsocket_def incomplete_empty)
  finally show ?thesis by (simp add: ws_close_def mk_wsocket_def)
qed

end
