(* ===== verification/WebSocket_Client.thy ===== *)
theory WebSocket_Client
  imports WebSocket Model_Text Exceptions
begin

text \<open>
  Connecting: the rest of \<open>src/network/easywsclient.cpp\<close>, which parses the URL, connects and
  shakes hands, and \<open>src/network/WebSocketClient.hpp\<close>, which runs a socket in a thread.

  What the network gives is the record \<open>net\<close>: the addresses of a host with what \<open>socket\<close> and
  \<open>connect\<close> give for each, how many bytes each call of \<open>send\<close> on a descriptor takes (negative
  for a failure), and what single-byte calls of \<open>recv\<close> on a descriptor give. \<open>None\<close> as a result
  stands for a call that blocks for ever.
\<close>

section \<open>The URL\<close>

definition c_string :: "string \<Rightarrow> string" where
  "c_string s = takeWhile (\<lambda>c. of_char c \<noteq> (0 :: nat)) s"

definition host_char :: "char \<Rightarrow> bool" where
  "host_char c = (c \<noteq> CHR '':'' \<and> c \<noteq> CHR ''/'')"

definition url_start :: "directive list" where
  "url_start = lits ''ws://'' @ [Conv_set host_char]"

definition url_port_path :: "string \<Rightarrow> (string \<times> int \<times> string) option" where
  "url_port_path s = (case sscanf (url_start @ lits '':'' @ [Conv_int] @ lits ''/'' @ [Conv_string]) s of
     [In_string host, In_int port, In_string path] \<Rightarrow> Some (host, port, path) | _ \<Rightarrow> None)"

definition url_path :: "string \<Rightarrow> (string \<times> int \<times> string) option" where
  "url_path s = (case sscanf (url_start @ lits ''/'' @ [Conv_string]) s of
     [In_string host, In_string path] \<Rightarrow> Some (host, 80, path) | _ \<Rightarrow> None)"

definition url_port :: "string \<Rightarrow> (string \<times> int \<times> string) option" where
  "url_port s = (case sscanf (url_start @ lits '':'' @ [Conv_int]) s of
     [In_string host, In_int port] \<Rightarrow> Some (host, port, []) | _ \<Rightarrow> None)"

definition url_host :: "string \<Rightarrow> (string \<times> int \<times> string) option" where
  "url_host s = (case sscanf url_start s of [In_string host] \<Rightarrow> Some (host, 80, []) | _ \<Rightarrow> None)"

fun or_else :: "'a option \<Rightarrow> 'a option \<Rightarrow> 'a option" where
  "or_else (Some x) y = Some x"
| "or_else None y = y"

text \<open>The four patterns of \<open>from_url\<close>, tried in their order.\<close>

definition parse_url :: "string \<Rightarrow> (string \<times> int \<times> string) option" where
  "parse_url url = (let s = c_string url
     in or_else (url_port_path s) (or_else (url_path s) (or_else (url_port s) (url_host s))))"

section \<open>The network\<close>

datatype recv1 = Recv1_byte char | Recv1_end | Recv1_error

record net =
  net_lookup :: "string \<Rightarrow> string \<Rightarrow> (int \<times> bool) list option"
  net_send :: "int \<Rightarrow> nat \<Rightarrow> int"
  net_recv :: "int \<Rightarrow> recv1 list"

definition INVALID_SOCKET :: int where
  "INVALID_SOCKET = -1"

fun try_connect :: "(int \<times> bool) list \<Rightarrow> int" where
  "try_connect [] = INVALID_SOCKET"
| "try_connect ((sockfd, link) # rest) =
     (if sockfd = INVALID_SOCKET then try_connect rest
      else if link then sockfd else try_connect rest)"

definition hostname_connect :: "net \<Rightarrow> string \<Rightarrow> int \<Rightarrow> int" where
  "hostname_connect n hostname port = (case net_lookup n (c_string hostname) (show_int port) of
     None \<Rightarrow> 1 | Some addresses \<Rightarrow> try_connect addresses)"

section \<open>The handshake\<close>

definition crlf :: string where
  "crlf = [CHR 0x0D, CHR 0x0A]"

text \<open>\<open>snprintf(line, 256, ...)\<close>, and what \<open>strlen\<close> then sees; the buffer always has 256 bytes.\<close>

definition snprintf256 :: "string \<Rightarrow> string \<Rightarrow> string" where
  "snprintf256 s line = (let s = take 255 s in s @ CHR 0x00 # drop (length s + 1) line)"

definition request_lines :: "string \<Rightarrow> int \<Rightarrow> string \<Rightarrow> string \<Rightarrow> string list" where
  "request_lines host port path origin =
     [''GET /'' @ path @ '' HTTP/1.1'' @ crlf,
      (if port = 80 then ''Host: '' @ host @ crlf else ''Host: '' @ host @ '':'' @ show_int port @ crlf),
      ''Upgrade: websocket'' @ crlf, ''Connection: Upgrade'' @ crlf] @
     (if origin = [] then [] else [''Origin: '' @ c_string origin @ crlf]) @
     [''Sec-WebSocket-Key: x3JJHMbDL1EzLkh9GBhXDw=='' @ crlf, ''Sec-WebSocket-Version: 13'' @ crlf, crlf]"

text \<open>The calls of \<open>send\<close>: what each is handed and what it returns, which nobody looks at.\<close>

definition fill_lines :: "(nat \<Rightarrow> int) \<Rightarrow> string list \<Rightarrow> string \<Rightarrow> (string \<times> int) list \<times> string" where
  "fill_lines results ls line = foldl (\<lambda>(calls, line) l. let line = snprintf256 l line
     in (calls @ [(c_string line, results (length calls))], line)) ([], line) ls"

text \<open>
  Reading a line byte by byte. The loop tests two bytes, and ends when either of them is what it
  looks for; a call that fails leaves the old byte in its place.
\<close>

definition more_line :: "string \<Rightarrow> nat \<Rightarrow> bool" where
  "more_line line i = (i < 2 \<or> (i < 255 \<and> line ! (i - 2) \<noteq> CHR 0x0D \<and> line ! (i - 1) \<noteq> CHR 0x0A))"

fun read_line :: "recv1 list \<Rightarrow> string \<Rightarrow> nat \<Rightarrow> ((string \<times> nat) option \<times> recv1 list) option" where
  "read_line rs line i =
     (if more_line line i
      then case rs of [] \<Rightarrow> None
        | Recv1_end # rs \<Rightarrow> Some (None, rs)
        | Recv1_error # rs \<Rightarrow> read_line rs line (i + 1)
        | Recv1_byte c # rs \<Rightarrow> read_line rs (line[i := c]) (i + 1)
      else Some (Some (line, i), rs))"

declare read_line.simps [simp del]

lemma read_line_step:
  "more_line line i \<Longrightarrow> read_line (Recv1_byte c # rs) line i = read_line rs (line[i := c]) (i + 1)"
  "more_line line i \<Longrightarrow> read_line (Recv1_error # rs) line i = read_line rs line (i + 1)"
  "more_line line i \<Longrightarrow> read_line (Recv1_end # rs) line i = Some (None, rs)"
  "more_line line i \<Longrightarrow> read_line [] line i = None"
  "\<not> more_line line i \<Longrightarrow> read_line rs line i = Some (Some (line, i), rs)"
  by (subst read_line.simps, simp)+

lemma read_line_consumes: "read_line rs line i = Some (r, rs') \<Longrightarrow> length rs' \<le> length rs \<and> (more_line line i \<longrightarrow> length rs' < length rs)"
proof (induction rs line i rule: read_line.induct)
  case (1 rs line i)
  show ?case
  proof (cases "more_line line i")
    case True
    then obtain x xs where rs: "rs = x # xs" using "1.prems" by (cases rs) (auto simp: read_line_step)
    then show ?thesis using 1 True by (cases x) (fastforce simp: read_line_step)+
  next
    case False
    then show ?thesis using "1.prems" by (auto simp: read_line_step)
  qed
qed

text \<open>The header lines up to the empty one; \<open>Some None\<close> when the peer closes.\<close>

function read_headers :: "recv1 list \<Rightarrow> string \<Rightarrow> ((string \<times> recv1 list) option) option" where
  "read_headers rs line =
     (case read_line rs line 0 of None \<Rightarrow> None
      | Some (None, rs) \<Rightarrow> Some None
      | Some (Some (line, i), rs) \<Rightarrow>
          if line ! 0 = CHR 0x0D \<and> line ! 1 = CHR 0x0A then Some (Some (line, rs)) else read_headers rs line)"
  by pat_completeness auto
termination
  by (relation "measure (length \<circ> fst)") (auto dest!: read_line_consumes simp: more_line_def)

declare read_headers.simps [simp del]

definition handshake :: "recv1 list \<Rightarrow> string \<Rightarrow> ((string \<times> recv1 list) option) option" where
  "handshake rs line =
     (case read_line rs line 0 of None \<Rightarrow> None
      | Some (None, rs) \<Rightarrow> Some None
      | Some (Some (line, i), rs) \<Rightarrow>
          let line = line[i := CHR 0x00]
          in if i = 255 then Some None
             else if sscanf (lits ''HTTP/1.1 '' @ [Conv_int]) (c_string line) \<noteq> [In_int 101] then Some None
             else read_headers rs line)"

text \<open>
  \<open>from_url\<close>: the socket with its descriptor and what is left to receive, and the calls of \<open>send\<close>
  with their descriptor. \<open>line\<close> is the uninitialised buffer.
\<close>

record connection =
  cn_socket :: wsocket
  cn_fd :: int
  cn_received :: "recv1 list"

type_synonym send_call = "int \<times> string \<times> int"

definition from_url_mask ::
  "net \<Rightarrow> string \<Rightarrow> string \<Rightarrow> bool \<Rightarrow> string \<Rightarrow> (connection option \<times> send_call list) option" where
  "from_url_mask n line url use_mask origin =
     (if 128 \<le> length url then Some (None, [])
      else if 200 \<le> length origin then Some (None, [])
      else case parse_url url of None \<Rightarrow> Some (None, [])
      | Some (host, port, path) \<Rightarrow>
          let sockfd = hostname_connect n host port
          in if sockfd = INVALID_SOCKET then Some (None, [])
             else (case fill_lines (net_send n sockfd) (request_lines host port path origin) line of (calls, line) \<Rightarrow>
               map_option (\<lambda>r. (map_option (\<lambda>(_, rs).
                   \<lparr>cn_socket = mk_wsocket use_mask, cn_fd = sockfd, cn_received = rs\<rparr>) r, map (Pair sockfd) calls))
                 (handshake (net_recv n sockfd) line)))"

definition from_url :: "net \<Rightarrow> string \<Rightarrow> string \<Rightarrow> string \<Rightarrow> (connection option \<times> send_call list) option" where
  "from_url n line url origin = from_url_mask n line url True origin"

definition from_url_no_mask :: "net \<Rightarrow> string \<Rightarrow> string \<Rightarrow> string \<Rightarrow> (connection option \<times> send_call list) option" where
  "from_url_no_mask n line url origin = from_url_mask n line url False origin"

section \<open>The client\<close>

text \<open>
  A client with its thread. The thread takes turns, each of one \<open>poll\<close> and one \<open>dispatch\<close>;
  \<open>log\<close> collects what \<open>callback\<close> is given.
\<close>

record client =
  wc_ws :: "wsocket option"
  wc_socket :: socket
  wc_thread :: bool
  wc_is_running :: bool
  wc_log :: "byte list list"

definition mk_client :: client where
  "mk_client = \<lparr>wc_ws = None, wc_socket = \<lparr>recv_results = [], send_results = [], sent = []\<rparr>, wc_thread = False,
     wc_is_running = False, wc_log = []\<rparr>"

text \<open>\<open>stop\<close> closes and deletes the socket; the joined thread is at the end of a turn.\<close>

definition wc_stop :: "client \<Rightarrow> client" where
  "wc_stop c = (let ws = map_option ws_close (wc_ws c)
     in c\<lparr>wc_is_running := False, wc_thread := False, wc_ws := None\<rparr>)"

text \<open>\<open>link\<close> is what \<open>from_url\<close> returns, with the results that the new socket will give.\<close>

definition wc_start :: "string \<Rightarrow> (wsocket \<times> socket) option \<Rightarrow> client \<Rightarrow> (exn + unit) \<times> client" where
  "wc_start url link c =
     (let c = (wc_stop c)\<lparr>wc_is_running := True\<rparr>
      in case link of
           None \<Rightarrow> (Inl (mk_exn WebSocketClientException [''Could not connect to websocket'', url]), c\<lparr>wc_ws := None\<rparr>)
         | Some (ws, sock) \<Rightarrow> (Inr (), c\<lparr>wc_ws := Some ws, wc_socket := sock, wc_thread := True\<rparr>))"

definition wc_send :: "byte list \<Rightarrow> client \<Rightarrow> client option" where
  "wc_send payload c = map_option (\<lambda>ws. c\<lparr>wc_ws := Some (ws_send payload ws)\<rparr>) (wc_ws c)"

definition wc_turn :: "client \<Rightarrow> client option" where
  "wc_turn c = (case wc_ws c of None \<Rightarrow> None
     | Some ws \<Rightarrow> (case ws_poll ws (wc_socket c) of (ws, sock) \<Rightarrow>
         map_option (\<lambda>(ws, l). c\<lparr>wc_ws := Some ws, wc_socket := sock, wc_log := l\<rparr>)
           (dispatch log_callback (ws, wc_log c))))"

inductive wc_step :: "client \<Rightarrow> client \<Rightarrow> bool" where
  start: "wc_start url link c = (r, c') \<Longrightarrow> wc_step c c'"
| stop: "wc_step c (wc_stop c)"
| send: "wc_send payload c = Some c' \<Longrightarrow> wc_step c c'"
| turn: "wc_thread c \<Longrightarrow> wc_is_running c \<Longrightarrow> wc_turn c = Some c' \<Longrightarrow> wc_step c c'"

inductive_cases wc_step_cases: "wc_step c c'"


section \<open>What the patterns read\<close>

definition part_of :: "string \<Rightarrow> string \<Rightarrow> bool" where
  "part_of w s = (length w \<le> length s \<and> set w \<subseteq> set s)"

lemma part_of_trans: "part_of a b \<Longrightarrow> part_of b c \<Longrightarrow> part_of a c"
  by (auto simp: part_of_def)

lemma part_of_while [simp]: "part_of (takeWhile P s) s" "part_of (dropWhile P s) s" "part_of (skip_space s) s" "part_of s (c # s)"
  using length_takeWhile_le[of P s] length_dropWhile_le[of P s] length_dropWhile_le[of is_space s]
  by (auto simp: part_of_def skip_space_def dest: set_takeWhileD set_dropWhileD)

lemma scan_sign_rest: "scan_sign s = (neg, s1) \<Longrightarrow> part_of s1 s"
  by (cases s) (auto simp: part_of_def split: if_splits)

lemma scan_int_rest:
  assumes "scan_int s = Some (v, rest)"
  shows "part_of rest s" "- (2 ^ 31) \<le> v" "v < 2 ^ 31"
proof -
  obtain neg s1 where s1: "scan_sign (skip_space s) = (neg, s1)" by fastforce
  then have "part_of s1 (skip_space s)" by (rule scan_sign_rest)
  moreover have "rest = dropWhile is_digit s1" and v: "\<exists>n. v = to_int32 n"
    using assms s1 by (auto simp: scan_int_def scan_digits_def Let_def split: if_splits)
  ultimately show "part_of rest s" using part_of_trans[OF part_of_trans] part_of_while by metis
  show "- (2 ^ 31) \<le> v" "v < 2 ^ 31"
    using v sint_lt[of "word_of_int _ :: 32 word"] sint_ge[of "word_of_int _ :: 32 word"] by (auto simp: to_int32_def)
qed

definition no_numbers :: "directive list \<Rightarrow> bool" where
  "no_numbers ds = (Conv_double \<notin> set ds \<and> Conv_u64 \<notin> set ds)"

lemma sscanf_strings:
  "In_string w \<in> set (sscanf ds s) \<Longrightarrow> no_numbers ds \<Longrightarrow> part_of w s"
proof (induction ds s rule: sscanf.induct)
  case (2 c ds s)
  then show ?case using part_of_trans[OF _ part_of_while(4)] by (auto simp: no_numbers_def split: list.splits if_splits)
next
  case (3 ds s)
  then show ?case using part_of_trans[OF _ part_of_while(3)] by (auto simp: no_numbers_def)
next
  case (4 P ds s)
  then show ?case using part_of_trans[OF _ part_of_while(2)] by (auto simp: no_numbers_def Let_def split: if_splits)
next
  case (5 ds s)
  let ?s = "skip_space s" and ?P = "\<lambda>c. \<not> is_space c"
  have "w = takeWhile ?P ?s \<or> (takeWhile ?P ?s \<noteq> [] \<and> In_string w \<in> set (sscanf ds (dropWhile ?P ?s)))"
    using "5.prems"(1) by (auto simp: Let_def split: if_splits)
  then have "part_of w ?s"
    using "5.IH"[OF refl refl] "5.prems"(2) part_of_trans[OF _ part_of_while(2)] by (auto simp: no_numbers_def)
  then show ?case using part_of_trans[OF _ part_of_while(3)] by blast
next
  case (6 ds s)
  obtain v s' where r: "scan_int s = Some (v, s')" "In_string w \<in> set (sscanf ds s')"
    using "6.prems"(1) by (cases "scan_int s") auto
  then show ?case using "6.IH"[OF r(1) refl r(2)] "6.prems"(2) part_of_trans[OF _ scan_int_rest(1)[OF r(1)]]
    by (auto simp: no_numbers_def)
next
  case (9 ds s)
  then show ?case using part_of_trans[OF _ part_of_while(4)] by (auto simp: no_numbers_def split: list.splits)
qed (auto simp: no_numbers_def)

lemma sscanf_ints: "In_int v \<in> set (sscanf ds s) \<Longrightarrow> - (2 ^ 31) \<le> v \<and> v < 2 ^ 31"
proof (induction ds s rule: sscanf.induct)
  case (6 ds s)
  obtain u s' where r: "scan_int s = Some (u, s')" "v = u \<or> In_int v \<in> set (sscanf ds s')"
    using "6.prems"(1) by (cases "scan_int s") auto
  then show ?case using "6.IH"[OF r(1) refl] scan_int_rest(2,3)[OF r(1)] by blast
next
  case (7 ds s)
  then show ?case by (cases "scan_u64 s") auto
next
  case (8 ds s)
  then show ?case by (cases "scan_double s") auto
qed (auto simp: Let_def split: list.splits if_splits)

lemma scanned_cases:
  "(case vs of [In_string host, In_int port, In_string path] \<Rightarrow> Some (f host port path) | _ \<Rightarrow> None) = Some r \<longleftrightarrow>
     (\<exists>host port path. vs = [In_string host, In_int port, In_string path] \<and> r = f host port path)"
  "(case vs of [In_string host, In_string path] \<Rightarrow> Some (g host path) | _ \<Rightarrow> None) = Some r \<longleftrightarrow>
     (\<exists>host path. vs = [In_string host, In_string path] \<and> r = g host path)"
  "(case vs of [In_string host, In_int port] \<Rightarrow> Some (h host port) | _ \<Rightarrow> None) = Some r \<longleftrightarrow>
     (\<exists>host port. vs = [In_string host, In_int port] \<and> r = h host port)"
  "(case vs of [In_string host] \<Rightarrow> Some (k host) | _ \<Rightarrow> None) = Some r \<longleftrightarrow> (\<exists>host. vs = [In_string host] \<and> r = k host)"
  by (auto split: list.splits scanned.splits)

lemma or_else_Some: "or_else x y = Some r \<longleftrightarrow> x = Some r \<or> (x = None \<and> y = Some r)"
  by (cases x) auto

lemma no_numbers_simps [simp]:
  "no_numbers []" "no_numbers (a @ b) = (no_numbers a \<and> no_numbers b)" "no_numbers (lits l)"
  "no_numbers (d # ds) = (d \<noteq> Conv_double \<and> d \<noteq> Conv_u64 \<and> no_numbers ds)"
  by (auto simp: no_numbers_def lits_def)

lemma sscanf_parts:
  assumes "sscanf ds s = vs" "no_numbers ds"
  shows "\<forall>v \<in> set vs. case v of In_string w \<Rightarrow> part_of w s | In_int i \<Rightarrow> - (2 ^ 31) \<le> i \<and> i < 2 ^ 31 | _ \<Rightarrow> True"
  using sscanf_strings[of _ ds s] sscanf_ints[of _ ds s] assms by (fastforce split: scanned.split)

lemma parse_url_bounds:
  assumes "parse_url url = Some (host, port, path)"
  shows "part_of host (c_string url) \<and> part_of path (c_string url) \<and> - (2 ^ 31) \<le> port \<and> port < 2 ^ 31"
  using assms unfolding parse_url_def Let_def or_else_Some url_port_path_def url_path_def url_port_def url_host_def scanned_cases
  by (elim disjE exE conjE) (drule sscanf_parts, simp add: url_start_def, simp add: part_of_def)+

definition host_ok :: "string \<Rightarrow> bool" where
  "host_ok h = (h \<noteq> [] \<and> list_all (\<lambda>c. host_char c \<and> of_char c \<noteq> (0 :: nat)) h)"

definition path_ok :: "string \<Rightarrow> bool" where
  "path_ok p = (p \<noteq> [] \<and> list_all (\<lambda>c. \<not> is_space c \<and> of_char c \<noteq> (0 :: nat)) p)"

lemma c_string_id: "list_all (\<lambda>c. of_char c \<noteq> (0 :: nat)) s \<Longrightarrow> c_string s = s"
  by (simp add: c_string_def takeWhile_eq_all_conv list_all_iff)

lemma sscanf_lits [simp]: "list_all (\<lambda>c. \<not> is_space c) l \<Longrightarrow> sscanf (lits l @ ds) (l @ s) = sscanf ds s"
  by (induction l) (simp_all add: lits_def)

lemma url_start_scan:
  assumes "host_ok h" "rest = [] \<or> \<not> host_char (hd rest)"
  shows "sscanf (url_start @ ds) (''ws://'' @ h @ rest) = In_string h # sscanf ds rest"
proof -
  have "takeWhile host_char (h @ rest) = h" "dropWhile host_char (h @ rest) = rest"
    using assms by (auto simp: host_ok_def list_all_iff takeWhile_append dropWhile_append takeWhile_eq_Nil_iff
        dropWhile_eq_self_iff takeWhile_eq_all_conv[THEN iffD2])
  moreover have "sscanf (url_start @ ds) (''ws://'' @ h @ rest) = sscanf (Conv_set host_char # ds) (h @ rest)"
    unfolding url_start_def append_assoc by (subst sscanf_lits) (simp_all add: is_space_def)
  ultimately show ?thesis using assms(1) by (simp add: host_ok_def)
qed

lemma colon_slash: "\<not> is_space CHR '':''" "\<not> is_space CHR ''/''" "\<not> host_char CHR '':''" "\<not> host_char CHR ''/''"
  "\<not> is_digit CHR ''/''"
  by (simp_all add: is_space_def host_char_def is_digit_def)

lemma one_lit: "lits [c] = (if is_space c then [Space] else [Lit c])"
  by (simp add: lits_def)

lemma show_int_clean: "0 \<le> p \<Longrightarrow> list_all (\<lambda>c. of_char c \<noteq> (0 :: nat)) (show_int p)"
proof -
  have "is_digit c \<Longrightarrow> of_char c \<noteq> (0 :: nat)" for c by (simp add: is_digit_def)
  then show "0 \<le> p \<Longrightarrow> list_all (\<lambda>c. of_char c \<noteq> (0 :: nat)) (show_int p)"
    using show_nat_digits[of "nat p"] by (auto simp: show_int_def list_all_iff)
qed

lemma url_clean:
  "host_ok h \<Longrightarrow> list_all (\<lambda>c. of_char c \<noteq> (0 :: nat)) rest \<Longrightarrow> c_string (''ws://'' @ h @ rest) = ''ws://'' @ h @ rest"
  by (intro c_string_id) (auto simp: host_ok_def list_all_iff)

lemma path_scan:
  assumes "path_ok p"
  shows "sscanf [Conv_string] p = [In_string p]"
proof -
  have 1: "skip_space p = p" using assms by (cases p) (auto simp: path_ok_def skip_space_def)
  have 2: "takeWhile (\<lambda>c. \<not> is_space c) p = p" using assms by (auto simp: path_ok_def list_all_iff takeWhile_eq_all_conv)
  have "p \<noteq> []" using assms by (simp add: path_ok_def)
  then show ?thesis by (simp only: sscanf.simps Let_def 1 2 if_False)
qed

lemma url_patterns:
  assumes "host_ok h" "rest = [] \<or> \<not> host_char (hd rest)"
  shows "url_port_path (''ws://'' @ h @ rest) = (case sscanf [Lit CHR '':'', Conv_int, Lit CHR ''/'', Conv_string] rest of
      [In_int port, In_string path] \<Rightarrow> Some (h, port, path) | _ \<Rightarrow> None)"
    and "url_path (''ws://'' @ h @ rest) = (case sscanf [Lit CHR ''/'', Conv_string] rest of
      [In_string path] \<Rightarrow> Some (h, 80, path) | _ \<Rightarrow> None)"
    and "url_port (''ws://'' @ h @ rest) = (case sscanf [Lit CHR '':'', Conv_int] rest of
      [In_int port] \<Rightarrow> Some (h, port, []) | _ \<Rightarrow> None)"
    and "url_host (''ws://'' @ h @ rest) = Some (h, 80, [])"
  unfolding url_port_path_def url_path_def url_port_def url_host_def one_lit if_not_P[OF colon_slash(1)] if_not_P[OF colon_slash(2)]
    url_start_scan[OF assms] url_start_scan[OF assms, of "[]", unfolded append_Nil2]
  by simp_all

lemma url_eval:
  assumes "host_ok h" "rest = [] \<or> \<not> host_char (hd rest)" "list_all (\<lambda>c. of_char c \<noteq> (0 :: nat)) rest"
  shows "parse_url (''ws://'' @ h @ rest) = or_else
      (case sscanf [Lit CHR '':'', Conv_int, Lit CHR ''/'', Conv_string] rest of
        [In_int port, In_string path] \<Rightarrow> Some (h, port, path) | _ \<Rightarrow> None) (or_else
      (case sscanf [Lit CHR ''/'', Conv_string] rest of [In_string path] \<Rightarrow> Some (h, 80, path) | _ \<Rightarrow> None) (or_else
      (case sscanf [Lit CHR '':'', Conv_int] rest of [In_int port] \<Rightarrow> Some (h, port, []) | _ \<Rightarrow> None)
      (Some (h, 80, []))))"
  unfolding parse_url_def Let_def url_clean[OF assms(1,3)] url_patterns[OF assms(1,2)] by (rule refl)

lemma url_bare: "host_ok h \<Longrightarrow> parse_url (''ws://'' @ h) = Some (h, 80, [])"
  using url_eval[of h "[]"] by simp

section \<open>Properties\<close>

text \<open>
  C26: The parser reads back the host, the port and the path of a URL; the port is 80 and the path
  empty when the URL has none. A URL whose port is not a number is not refused: it is read as
  one without port and path.
\<close>

theorem url_parsed:
  assumes "host_ok h" "path_ok p" "0 \<le> port" "port < 2 ^ 31"
  shows "parse_url (''ws://'' @ h @ '':'' @ show_int port @ ''/'' @ p) = Some (h, port, p) \<and>
    parse_url (''ws://'' @ h @ ''/'' @ p) = Some (h, 80, p) \<and>
    parse_url (''ws://'' @ h @ '':'' @ show_int port) = Some (h, port, []) \<and>
    parse_url (''ws://'' @ h) = Some (h, 80, []) \<and>
    (scan_int bad = None \<longrightarrow> list_all (\<lambda>c. of_char c \<noteq> (0 :: nat)) bad \<longrightarrow>
      parse_url (''ws://'' @ h @ '':'' @ bad) = Some (h, 80, []))"
proof (intro conjI impI)
  have nul: "of_char CHR '':'' \<noteq> (0 :: nat)" "of_char CHR ''/'' \<noteq> (0 :: nat)" by simp_all
  have clean: "list_all (\<lambda>c. of_char c \<noteq> (0 :: nat)) p" "list_all (\<lambda>c. of_char c \<noteq> (0 :: nat)) (show_int port)"
    using assms(2) show_int_clean[OF assms(3)] by (auto simp: path_ok_def list_all_iff)
  have scan: "scan_int (show_int port @ CHR ''/'' # p) = Some (port, CHR ''/'' # p)" "scan_int (show_int port) = Some (port, [])"
    using scan_int_padded(2)[OF assms(3,4), of "CHR ''/'' # p"] scan_int_padded(2)[OF assms(3,4), of "[]"] colon_slash by simp_all
  note eval = url_eval[OF assms(1)]
  show "parse_url (''ws://'' @ h @ '':'' @ show_int port @ ''/'' @ p) = Some (h, port, p)"
    by (subst eval) (use scan clean nul path_scan[OF assms(2)] colon_slash in simp_all)
  show "parse_url (''ws://'' @ h @ ''/'' @ p) = Some (h, 80, p)"
    by (subst eval) (use scan clean nul path_scan[OF assms(2)] colon_slash in simp_all)
  show "parse_url (''ws://'' @ h @ '':'' @ show_int port) = Some (h, port, [])"
    by (subst eval) (use scan clean nul colon_slash in simp_all)
  show "parse_url (''ws://'' @ h) = Some (h, 80, [])" by (rule url_bare[OF assms(1)])
  show "parse_url (''ws://'' @ h @ '':'' @ bad) = Some (h, 80, [])"
    if "scan_int bad = None" "list_all (\<lambda>c. of_char c \<noteq> (0 :: nat)) bad"
    by (subst eval) (use that nul colon_slash in simp_all)
qed

theorem url_parsed_witness:
  "parse_url ''ws://ws.pusher.com:8080/app'' = Some (''ws.pusher.com'', 8080, ''app'')"
proof -
  have "char_of (56 :: nat) = CHR ''8''" "char_of (48 :: nat) = CHR ''0''" by (simp_all add: char_of_def bit_iff_odd)
  then have "show_int 8080 = ''8080''" by (simp add: show_int_def show_nat.simps digit_def)
  then show ?thesis
    using url_parsed[of "''ws.pusher.com''" "''app''" 8080, THEN conjunct1] by (simp add: host_ok_def path_ok_def host_char_def is_space_def)
qed


section \<open>The request\<close>

definition no_nul :: "string \<Rightarrow> bool" where
  "no_nul s = list_all (\<lambda>c. of_char c \<noteq> (0 :: nat)) s"

lemma no_nul_simps [simp]:
  "no_nul []" "no_nul (a @ b) = (no_nul a \<and> no_nul b)" "no_nul (c # s) = (of_char c \<noteq> (0 :: nat) \<and> no_nul s)"
  "no_nul (c_string s)"
  by (auto simp: no_nul_def c_string_def list_all_iff dest: set_takeWhileD)

lemma length_show_nat: "n < 10 ^ k \<Longrightarrow> 0 < k \<Longrightarrow> length (show_nat n) \<le> k"
proof (induction k arbitrary: n)
  case (Suc k)
  show ?case
  proof (cases "n < 10")
    case False
    then have "k \<noteq> 0" "n div 10 < 10 ^ k" using Suc.prems by (cases k; simp)+
    then show ?thesis using Suc.IH[of "n div 10"] False by (subst show_nat.simps) simp
  qed (subst show_nat.simps, simp)
qed simp

lemma show_int_port:
  assumes "- (2 ^ 31) \<le> p" "p < 2 ^ 31"
  shows "length (show_int p) \<le> 11" "no_nul (show_int p)"
proof -
  have l: "nat q < 10 ^ 10" if "0 \<le> q" "q \<le> 2 ^ 31" for q :: int using that by simp
  show "length (show_int p) \<le> 11"
    using length_show_nat[of "nat p" 10, OF l] length_show_nat[of "nat (- p)" 10, OF l] assms
    by (cases "p < 0") (auto simp: show_int_def)
  show "no_nul (show_int p)"
    using show_int_clean[of p] show_int_clean[of "- p"] by (auto simp: no_nul_def show_int_def split: if_splits)
qed

lemma snprintf_fits:
  assumes "length l \<le> 255" "no_nul l"
  shows "c_string (snprintf256 l line) = l"
proof -
  have "takeWhile (\<lambda>c. of_char c \<noteq> (0 :: nat)) (l @ CHR 0x00 # r) = l" for r
    using assms(2) by (subst takeWhile_append2) (auto simp: no_nul_def list_all_iff)
  then show ?thesis using assms(1) by (simp add: c_string_def snprintf256_def Let_def)
qed

lemma fill_lines_fit:
  assumes "\<forall>l \<in> set ls. length l \<le> 255 \<and> no_nul l"
  shows "fst (fill_lines f ls line) = zip ls (map f [0..<length ls])"
proof -
  have "fst (foldl (\<lambda>(calls, line) l. let line = snprintf256 l line in (calls @ [(c_string line, f (length calls))], line)) (cs, line) ls) =
      cs @ zip ls (map f [length cs..<length cs + length ls])" for cs
    using assms
  proof (induction ls arbitrary: cs line)
    case (Cons l ls)
    then show ?case by (simp add: Let_def snprintf_fits upt_conv_Cons del: upt_Suc)
  qed simp
  from this[of "[]"] show ?thesis by (simp add: fill_lines_def)
qed

lemma length_snprintf: "length line = 256 \<Longrightarrow> length (snprintf256 l line) = 256"
  by (simp add: snprintf256_def Let_def)

lemma length_fill_lines: "length line = 256 \<Longrightarrow> length (snd (fill_lines f ls line)) = 256"
proof -
  have "length line = 256 \<Longrightarrow> length (snd (foldl (\<lambda>(calls, line) l. let line = snprintf256 l line
      in (calls @ [(c_string line, f (length calls))], line)) (cs, line) ls)) = 256" for cs
    by (induction ls arbitrary: cs line) (simp_all add: Let_def length_snprintf)
  then show "length line = 256 \<Longrightarrow> length (snd (fill_lines f ls line)) = 256" by (simp add: fill_lines_def)
qed

text \<open>The results of \<open>send\<close> do not enter the buffer.\<close>

lemma fill_lines_buffer: "snd (fill_lines f ls line) = snd (fill_lines g ls line)"
proof -
  have "snd (foldl (\<lambda>(calls, line) l. let line = snprintf256 l line in (calls @ [(c_string line, f (length calls))], line)) (cs, line) ls) =
    snd (foldl (\<lambda>(calls, line) l. let line = snprintf256 l line in (calls @ [(c_string line, g (length calls))], line)) (ds, line) ls)" for cs ds
    by (induction ls arbitrary: cs ds line) (simp_all add: Let_def)
  then show ?thesis by (simp add: fill_lines_def)
qed

text \<open>What the calls take of what they are handed.\<close>

definition taken :: "send_call list \<Rightarrow> string" where
  "taken calls = concat (map (\<lambda>(fd, l, k). take (nat k) l) calls)"

lemma taken_whole:
  "length (taken (map (Pair fd) ps)) \<le> length (concat (map fst ps))"
  "taken (map (Pair fd) ps) = concat (map fst ps) \<longleftrightarrow> (\<forall>(l, k) \<in> set ps. length l \<le> nat k)"
proof (induction ps)
  case (Cons p ps)
  obtain l k where p: "p = (l, k)" by (cases p)
  have c: "taken (map (Pair fd) (p # ps)) = take (nat k) l @ taken (map (Pair fd) ps)" by (simp add: taken_def p)
  show "length (taken (map (Pair fd) (p # ps))) \<le> length (concat (map fst (p # ps)))"
    using Cons.IH(1) unfolding c by (simp add: p)
  show "taken (map (Pair fd) (p # ps)) = concat (map fst (p # ps)) \<longleftrightarrow> (\<forall>(l, k) \<in> set (p # ps). length l \<le> nat k)"
  proof (cases "length l \<le> nat k")
    case False
    then have "length (taken (map (Pair fd) (p # ps))) < length (concat (map fst (p # ps)))"
      using Cons.IH(1) unfolding c by (simp add: p)
    then show ?thesis using False by (auto simp: p)
  qed (use Cons.IH(2) c in \<open>simp add: p\<close>)
qed (simp_all add: taken_def)

lemma request_fits:
  assumes "length host \<le> 127" "length path \<le> 127" "no_nul host" "no_nul path" "- (2 ^ 31) \<le> port" "port < 2 ^ 31" "length origin < 200"
  shows "\<forall>l \<in> set (request_lines host port path origin). length l \<le> 255 \<and> no_nul l"
proof -
  have "length (c_string origin) < 200" using length_takeWhile_le[of _ origin] assms(7) by (auto simp: c_string_def intro: le_less_trans)
  moreover have "no_nul (c_string origin)" by simp
  ultimately show ?thesis using assms show_int_port[OF assms(5,6)] by (simp add: request_lines_def crlf_def)
qed

text \<open>
  C27: Neither the buffers of the URL's parts nor the line buffer overflow or truncate: for a URL
  and an origin within the limits, the calls of \<open>send\<close> are handed the lines of the request, whole
  and in their order, on the connected descriptor, but on descriptor 1, which is no socket, when
  the host is not found. The whole request goes exactly when every call takes its whole line;
  whatever the calls return, the handshake goes on in the same way.
\<close>

theorem from_url_request:
  assumes "parse_url url = Some (host, port, path)" "length url < 128" "length origin < 200"
    and "hostname_connect n host port = fd" "fd \<noteq> INVALID_SOCKET"
    and "from_url_mask n line url use_mask origin = Some (r, calls)"
  shows "length host < 128 \<and> length path < 128 \<and>
    (let ls = request_lines host port path origin in
      calls = map (Pair fd) (zip ls (map (net_send n fd) [0..<length ls])) \<and>
      (taken calls = concat ls \<longleftrightarrow> (\<forall>(l, k) \<in> set (map snd calls). length l \<le> nat k))) \<and>
    (net_lookup n host (show_int port) = None \<longrightarrow> fd = 1) \<and>
    map_option fst (from_url_mask (n\<lparr>net_send := f\<rparr>) line url use_mask origin) = Some r"
proof -
  let ?ls = "request_lines host port path origin"
  have p: "part_of host (c_string url)" "part_of path (c_string url)" "- (2 ^ 31) \<le> port" "port < 2 ^ 31"
    using parse_url_bounds[OF assms(1)] by auto
  have "length (c_string url) < 128"
    using assms(2) length_takeWhile_le[of _ url] by (auto simp: c_string_def intro: le_less_trans)
  then have l: "length host < 128" "length path < 128" using p(1,2) by (auto simp: part_of_def)
  have clean: "no_nul host" "no_nul path"
    using p(1,2) no_nul_simps(4)[of url] unfolding part_of_def no_nul_def list_all_iff by blast+
  have "fst (fill_lines (net_send n fd) ?ls line) = zip ?ls (map (net_send n fd) [0..<length ?ls])"
    by (rule fill_lines_fit, rule request_fits) (use l clean p(3,4) assms(3) in simp_all)
  then have calls: "calls = map (Pair fd) (zip ?ls (map (net_send n fd) [0..<length ?ls]))"
    using assms by (auto simp: from_url_mask_def Let_def split: prod.splits)
  have whole: "taken calls = concat ?ls \<longleftrightarrow> (\<forall>(l, k) \<in> set (map snd calls). length l \<le> nat k)"
    using taken_whole(2)[of fd "zip ?ls (map (net_send n fd) [0..<length ?ls])"] unfolding calls by (simp add: comp_def)
  have look: "net_lookup n host (show_int port) = None \<longrightarrow> fd = 1"
    using assms(4) c_string_id[of host] clean(1) by (auto simp: hostname_connect_def no_nul_def)
  have "hostname_connect (n\<lparr>net_send := f\<rparr>) host port = fd" using assms(4) by (simp add: hostname_connect_def)
  then have "map_option fst (from_url_mask (n\<lparr>net_send := f\<rparr>) line url use_mask origin) = Some r"
    using assms fill_lines_buffer[of "net_send n fd" ?ls line "f fd"]
    by (auto simp: from_url_mask_def Let_def option.map_comp comp_def split: prod.splits)
  then show ?thesis using l calls whole look by (simp add: Let_def)
qed


section \<open>The handshake succeeds\<close>

text \<open>A line that \<open>read_line\<close> takes whole: no end-of-line characters before its end.\<close>

definition plain_line :: "string \<Rightarrow> bool" where
  "plain_line l = (length l \<le> 252 \<and> CHR 0x0D \<notin> set l \<and> CHR 0x0A \<notin> set l)"

lemma read_line_plain:
  assumes "plain_line l" "length line = 256"
  shows "\<exists>line'. read_line (map Recv1_byte (l @ crlf) @ rs) line 0 = Some (Some (line', length l + 2), rs) \<and>
    length line' = 256 \<and> take (length l + 2) line' = l @ crlf"
proof -
  let ?t = "l @ crlf"
  have t: "length ?t = length l + 2" "?t ! length l = CHR 0x0D" "?t ! (length l + 1) = CHR 0x0A"
    by (simp_all add: crlf_def nth_append)
  have plain: "?t ! i \<noteq> CHR 0x0D \<and> ?t ! i \<noteq> CHR 0x0A" if "i < length l" for i
    using assms(1) nth_mem[OF that] that unfolding plain_line_def by (auto simp: nth_append simp del: nth_mem)
  have "\<exists>line'. read_line (map Recv1_byte (drop i ?t) @ rs) line i = Some (Some (line', length l + 2), rs) \<and>
      length line' = 256 \<and> take (length l + 2) line' = ?t"
    if "i \<le> length l + 2" "length line = 256" "take i line = take i ?t" for i line
    using that
  proof (induction "length l + 2 - i" arbitrary: i line)
    case 0
    then have i: "i = length l + 2" by simp
    then have tk: "take (length l + 2) line = ?t" using 0 t(1) by simp
    then have "line ! (i - 2) = CHR 0x0D" using t(2) i nth_take[of "i - 2" "length l + 2" line] by simp
    then have "\<not> more_line line i" using i by (auto simp: more_line_def)
    then show ?case using i tk 0(3) t(1) by (simp add: read_line_step)
  next
    case (Suc k)
    then have i: "i < length l + 2" by simp
    have nth: "line ! j = ?t ! j" if "j < i" for j using Suc.prems(3) that by (metis nth_take)
    have "line ! (i - 2) \<noteq> CHR 0x0D \<and> line ! (i - 1) \<noteq> CHR 0x0A" if "2 \<le> i"
    proof -
      have "i - 2 < length l" "i - 2 < i" "i - 1 < i" using i that by linarith+
      moreover have "i - 1 < length l \<or> i - 1 = length l" using i by linarith
      then have "?t ! (i - 1) \<noteq> CHR 0x0A" using plain t(2) by auto
      ultimately show ?thesis using nth plain by simp
    qed
    then have "more_line line i" using i assms(1) by (auto simp: more_line_def plain_line_def)
    moreover have d: "drop i ?t = ?t ! i # drop (i + 1) ?t"
      using Cons_nth_drop_Suc[of i ?t] i unfolding t(1) by (simp only: Suc_eq_plus1)
    ultimately have step: "read_line (map Recv1_byte (drop i ?t) @ rs) line i =
        read_line (map Recv1_byte (drop (i + 1) ?t) @ rs) (line[i := ?t ! i]) (i + 1)"
      unfolding d by (simp add: read_line_step)
    have "take (i + 1) (line[i := ?t ! i]) = take (i + 1) ?t"
    proof -
      have "i < length (line[i := ?t ! i])" "i < length ?t" using i t(1) Suc.prems(2) assms(1) by (simp_all add: plain_line_def)
      then show ?thesis using Suc.prems(3) unfolding Suc_eq_plus1[symmetric]
        by (simp only: take_Suc_conv_app_nth take_update_cancel nth_list_update_eq length_list_update)
    qed
    then show ?case unfolding step
      using Suc.hyps(1)[of "i + 1" "line[i := ?t ! i]"] Suc.hyps(2) Suc.prems(2) i by simp
  qed
  from this[of 0 line] show ?thesis using assms(2) by simp
qed

definition response :: "string \<Rightarrow> string list \<Rightarrow> recv1 list" where
  "response status headers = map Recv1_byte (status @ crlf) @ concat (map (\<lambda>h. map Recv1_byte (h @ crlf)) headers) @ map Recv1_byte crlf"

lemma read_headers_plain:
  assumes "\<forall>h \<in> set headers. plain_line h \<and> h \<noteq> []" "length line = 256"
  shows "\<exists>line'. read_headers (concat (map (\<lambda>h. map Recv1_byte (h @ crlf)) headers) @ map Recv1_byte crlf @ rs) line = Some (Some (line', rs))"
  using assms
proof (induction headers arbitrary: line)
  case Nil
  obtain line' where r: "read_line (map Recv1_byte ([] @ crlf) @ rs) line 0 = Some (Some (line', 2), rs)" "take 2 line' = crlf"
    using read_line_plain[of "[]" line rs] Nil(2) by (auto simp: plain_line_def numeral_2_eq_2)
  have "line' ! 0 = CHR 0x0D" "line' ! 1 = CHR 0x0A"
    using r(2) nth_take[of 0 2 line'] nth_take[of 1 2 line'] by (simp_all add: crlf_def)
  then show ?case using r(1) by (subst read_headers.simps) simp
next
  case (Cons h headers)
  let ?rs = "concat (map (\<lambda>h. map Recv1_byte (h @ crlf)) headers) @ map Recv1_byte crlf @ rs"
  obtain line' where r: "read_line (map Recv1_byte (h @ crlf) @ ?rs) line 0 = Some (Some (line', length h + 2), ?rs)"
      "length line' = 256" "take (length h + 2) line' = h @ crlf"
    using read_line_plain[of h line ?rs] Cons.prems by auto
  have "h ! 0 \<noteq> CHR 0x0D" "0 < length h" using Cons.prems(1) nth_mem[of 0 h] by (cases h, auto simp: plain_line_def)+
  then have "line' ! 0 \<noteq> CHR 0x0D" using r(3) nth_take[of 0 "length h + 2" line'] by (simp add: nth_append)
  then have "read_headers (map Recv1_byte (h @ crlf) @ ?rs) line = read_headers ?rs line'"
    using r(1) by (subst read_headers.simps) simp
  then show ?case using Cons.IH[OF _ r(2)] Cons.prems(1) by simp
qed

lemma handshake_plain:
  assumes "plain_line (''HTTP/1.1 '' @ show_int code @ reason)" "0 \<le> code" "code < 2 ^ 31" "no_nul reason" "\<not> starts_with_digit reason"
    and "length line = 256"
  shows "\<exists>line'. length line' = 256 \<and> handshake (response (''HTTP/1.1 '' @ show_int code @ reason) headers @ rs) line =
    (if code = 101 then read_headers (concat (map (\<lambda>h. map Recv1_byte (h @ crlf)) headers) @ map Recv1_byte crlf @ rs) line' else Some None)"
proof -
  let ?status = "''HTTP/1.1 '' @ show_int code @ reason"
  let ?rs = "concat (map (\<lambda>h. map Recv1_byte (h @ crlf)) headers) @ map Recv1_byte crlf @ rs"
  obtain line' where r: "read_line (map Recv1_byte (?status @ crlf) @ ?rs) line 0 = Some (Some (line', length ?status + 2), ?rs)"
      "length line' = 256" "take (length ?status + 2) line' = ?status @ crlf"
    using read_line_plain[OF assms(1,6), of ?rs] by blast
  let ?i = "length ?status + 2"
  have i: "?i < 255" using assms(1) unfolding plain_line_def by linarith
  have "line'[?i := CHR 0x00] = (?status @ crlf) @ CHR 0x00 # drop (?i + 1) line'"
    using r(2,3) i upd_conv_take_nth_drop[of ?i line' "CHR 0x00"] by simp
  moreover have "no_nul (?status @ crlf)" using show_int_port(2)[of code] assms(2-4) by (simp add: crlf_def)
  then have "takeWhile (\<lambda>c. of_char c \<noteq> (0 :: nat)) ((?status @ crlf) @ CHR 0x00 # x) = ?status @ crlf" for x
    by (subst takeWhile_append2) (auto simp: no_nul_def list_all_iff)
  ultimately have text_eq: "c_string (line'[?i := CHR 0x00]) = ?status @ crlf" by (simp only: c_string_def)
  have "\<not> starts_with_digit (reason @ crlf)" using assms(5) by (cases reason) (simp_all add: crlf_def is_digit_def)
  note int = scan_int_padded(2)[OF assms(2,3) this]
  have "skip_space (show_int code @ s) = show_int code @ s" for s
    using show_nat_digits[of "nat code"] show_nat_not_empty[of "nat code"] assms(2)
    by (cases "show_nat (nat code)") (auto simp: skip_space_def show_int_def is_digit_def is_space_def)
  then have scan: "sscanf (lits ''HTTP/1.1 '' @ [Conv_int]) (?status @ crlf) = [In_int code]"
    using int by (simp add: lits_def is_space_def skip_space_def)
  have main: "handshake (response ?status headers @ rs) line =
      (if code = 101 then read_headers ?rs (line'[?i := CHR 0x00]) else Some None)"
    using r(1) i scan text_eq unfolding handshake_def response_def append_assoc by (simp add: Let_def)
  then show ?thesis using r(2) by (intro exI[of _ "line'[?i := CHR 0x00]"]) simp
qed

text \<open>
  C28: The handshake succeeds on every response whose status line has the code 101 and whose lines
  fit the buffer, and takes exactly the response from the stream: what follows is left for the
  frames. It ends without a socket on every other code.
\<close>

theorem handshake_takes_response:
  assumes "plain_line (''HTTP/1.1 '' @ show_int code @ reason)" "0 \<le> code" "code < 2 ^ 31" "no_nul reason" "\<not> starts_with_digit reason"
    and "\<forall>h \<in> set headers. plain_line h \<and> h \<noteq> []" "length line = 256"
  shows "(code = 101 \<longrightarrow> (\<exists>line'. handshake (response (''HTTP/1.1 '' @ show_int code @ reason) headers @ rs) line = Some (Some (line', rs)))) \<and>
    (code \<noteq> 101 \<longrightarrow> handshake (response (''HTTP/1.1 '' @ show_int code @ reason) headers @ rs) line = Some None)"
  using handshake_plain[OF assms(1-5,7), of headers rs] read_headers_plain[OF assms(6), of _ rs] by auto

section \<open>Closing ends\<close>

text \<open>Polls in a row, each with what the socket gives it.\<close>

definition poll_all :: "socket list \<Rightarrow> wsocket \<Rightarrow> wsocket" where
  "poll_all socks ws = fold (\<lambda>sock ws. fst (ws_poll ws sock)) socks ws"

text \<open>The first call of \<open>send\<close> would not block: it takes some bytes, or it fails.\<close>

definition unblocked :: "socket \<Rightarrow> bool" where
  "unblocked sock = (case send_results sock of Send_bytes n # _ \<Rightarrow> 0 < n | Send_end # _ \<Rightarrow> True | _ \<Rightarrow> False)"

lemma poll_progress:
  assumes "readyState ws = CLOSING"
  shows "readyState (fst (ws_poll ws sock)) = CLOSED \<or>
    (readyState (fst (ws_poll ws sock)) = CLOSING \<and> length (txbuf (fst (ws_poll ws sock))) \<le> length (txbuf ws) \<and>
     (unblocked sock \<longrightarrow> length (txbuf (fst (ws_poll ws sock))) < length (txbuf ws) \<and> txbuf (fst (ws_poll ws sock)) \<noteq> []))"
proof -
  obtain ws1 rs1 where r: "poll_recv (recv_results sock) ws = (ws1, rs1)" by fastforce
  obtain ws2 ss2 out2 where s: "poll_send (send_results sock) ws1 (sent sock) = (ws2, ss2, out2)"
    by (cases "poll_send (send_results sock) ws1 (sent sock)") blast
  have 1: "txbuf ws1 = txbuf ws" "readyState ws1 = CLOSING \<or> readyState ws1 = CLOSED"
    using poll_recv_frame[OF r] assms rank_2[of "readyState ws1"] by simp_all
  then have 2: "readyState ws2 = CLOSING \<or> readyState ws2 = CLOSED" "length (txbuf ws2) \<le> length (txbuf ws)"
    using poll_send_frame[OF s] rank_2[of "readyState ws1"] rank_2[of "readyState ws2"] by auto
  have "txbuf ws2 = [] \<or> readyState ws2 = CLOSED \<or> length (txbuf ws2) < length (txbuf ws)" if "unblocked sock"
  proof (cases "txbuf ws1 = []")
    case True
    then have "ws2 = ws1" using s by (subst (asm) poll_send.simps) simp
    then show ?thesis using True by simp
  next
    case False
    consider n ss where "send_results sock = Send_bytes n # ss" "0 < n" | ss where "send_results sock = Send_end # ss"
      using \<open>unblocked sock\<close> by (auto simp: unblocked_def split: list.splits send_result.splits)
    then show ?thesis
    proof cases
      case 1
      then have "poll_send ss (ws1\<lparr>txbuf := drop n (txbuf ws1)\<rparr>) (sent sock @ take n (txbuf ws1)) = (ws2, ss2, out2)"
        using s False by (subst (asm) poll_send.simps) simp
      from poll_send_frame[OF this] show ?thesis using \<open>0 < n\<close> False \<open>txbuf ws1 = txbuf ws\<close> by auto
    next
      case 2
      then have "readyState ws2 = CLOSED" using s False by (subst (asm) poll_send.simps) auto
      then show ?thesis by simp
    qed
  qed
  then show ?thesis using assms r s 2 by (auto simp: ws_poll_def)
qed

lemma closed_stays: "readyState ws = CLOSED \<Longrightarrow> poll_all socks ws = ws"
  by (induction socks arbitrary: ws) (simp_all add: poll_all_def ws_poll_def)

text \<open>
  C29: A socket that is closing gets closed as long as the kernel does not block it: as many polls
  as there are queued bytes, each of whose first call of \<open>send\<close> takes at least one byte or fails,
  are enough, with any number of blocked polls between them and whatever is received meanwhile.
\<close>

theorem closing_ends:
  assumes "readyState ws = CLOSING" "length (txbuf ws) \<le> length (filter unblocked socks)" "filter unblocked socks \<noteq> []"
  shows "readyState (poll_all socks ws) = CLOSED"
  using assms
proof (induction socks arbitrary: ws)
  case (Cons sock socks)
  let ?ws = "fst (ws_poll ws sock)"
  have step: "poll_all (sock # socks) ws = poll_all socks ?ws" by (simp add: poll_all_def)
  show ?case
  proof (cases "readyState ?ws = CLOSED")
    case True
    then show ?thesis using closed_stays[OF True] step by simp
  next
    case False
    then have c: "readyState ?ws = CLOSING" "length (txbuf ?ws) \<le> length (txbuf ws)"
      "unblocked sock \<longrightarrow> length (txbuf ?ws) < length (txbuf ws) \<and> txbuf ?ws \<noteq> []"
      using poll_progress[OF Cons.prems(1), of sock] by auto
    have l: "length (txbuf ?ws) \<le> length (filter unblocked socks)" using Cons.prems(2) c(2,3) by (cases "unblocked sock") auto
    have "filter unblocked socks \<noteq> []"
    proof (cases "unblocked sock")
      case True
      then have "0 < length (txbuf ?ws)" using c(3) by simp
      then show ?thesis using l by auto
    qed (use Cons.prems(3) in simp)
    then show ?thesis unfolding step using Cons.IH[OF c(1) l] by simp
  qed
qed simp

theorem closing_ends_witness:
  "readyState (poll_all (\<lparr>recv_results = [], send_results = [Send_block], sent = []\<rparr> #
     replicate 6 \<lparr>recv_results = [], send_results = [Send_bytes 1], sent = []\<rparr>) (ws_close (mk_wsocket True))) = CLOSED"
  by (rule closing_ends) (simp_all add: ws_close_def mk_wsocket_def unblocked_def closeFrame_def)

section \<open>The client and its thread\<close>

definition client_wf :: "client \<Rightarrow> bool" where
  "client_wf c = ((wc_thread c \<longleftrightarrow> wc_ws c \<noteq> None) \<and> (wc_thread c \<longrightarrow> wc_is_running c))"

lemma client_step_wf: "wc_step c c' \<Longrightarrow> client_wf c \<Longrightarrow> client_wf c'"
proof (induction rule: wc_step.induct)
  case (start url link c r c')
  then show ?case by (cases link) (auto simp: wc_start_def wc_stop_def client_wf_def Let_def)
next
  case (turn c c')
  then show ?case by (auto simp: wc_turn_def client_wf_def split: option.splits prod.splits)
qed (auto simp: wc_send_def wc_stop_def client_wf_def)

lemma wc_turn_progress:
  assumes "wc_ws c = Some ws" "no_wrap (rxbuf (fst (ws_poll ws (wc_socket c))))"
  shows "\<exists>c'. wc_turn c = Some c'"
proof -
  obtain ws1 sock1 where p: "ws_poll ws (wc_socket c) = (ws1, sock1)" by fastforce
  then obtain s' where "dispatch log_callback (ws1, wc_log c) = Some s'"
    using log.dispatch_total[of "(ws1, wc_log c)"] assms(2) by auto
  then show ?thesis using assms(1) p by (cases s') (simp add: wc_turn_def)
qed

text \<open>
  C38: In every state that a client reaches through starts, stops, sends and turns of its thread,
  there is a socket exactly when the thread runs, so that the thread's turn is never undefined
  on a null pointer; and while the lengths that are received do not wrap around, a running
  thread can take its next turn.
\<close>

theorem client_reachable:
  assumes "wc_step\<^sup>*\<^sup>* mk_client c"
  shows "(wc_thread c \<longleftrightarrow> wc_ws c \<noteq> None) \<and> (wc_thread c \<longrightarrow> wc_is_running c \<and>
    (no_wrap (rxbuf (fst (ws_poll (the (wc_ws c)) (wc_socket c)))) \<longrightarrow> (\<exists>c'. wc_turn c = Some c' \<and> wc_step c c')))"
proof -
  have "client_wf c"
    using assms
  proof (induction rule: rtranclp_induct)
    case base
    then show ?case by (simp add: mk_client_def client_wf_def)
  qed (rule client_step_wf)
  then show ?thesis using wc_turn_progress[of c] wc_step.turn[of c] by (fastforce simp: client_wf_def)
qed

text \<open>
  Stopping sends nothing: the close frame is queued on a socket that is deleted without
  another poll. A start that fails leaves the client marked as running, without thread and
  socket, and the next send is undefined.
\<close>

lemma client_stop_start:
  "sent (wc_socket (wc_stop c)) = sent (wc_socket c) \<and> wc_ws (wc_stop c) = None \<and>
   (case wc_start url None c of (r, c') \<Rightarrow> r = Inl (mk_exn WebSocketClientException [''Could not connect to websocket'', url]) \<and>
      wc_is_running c' \<and> \<not> wc_thread c' \<and> wc_send payload c' = None)"
  by (simp add: wc_stop_def wc_start_def wc_send_def Let_def)

theorem client_reachable_witness:
  "wc_thread (snd (wc_start ''ws://a'' (Some (mk_wsocket True, \<lparr>recv_results = [], send_results = [], sent = []\<rparr>)) mk_client)) \<and>
   wc_ws (snd (wc_start ''ws://a'' (Some (mk_wsocket True, \<lparr>recv_results = [], send_results = [], sent = []\<rparr>)) mk_client)) \<noteq> None"
proof -
  let ?link = "Some (mk_wsocket True, \<lparr>recv_results = [], send_results = [], sent = []\<rparr>)"
  have "wc_step mk_client (snd (wc_start ''ws://a'' ?link mk_client))" by (rule wc_step.start) (rule prod.collapse[symmetric])
  from client_reachable[OF r_into_rtranclp[of wc_step, OF this]]
  show ?thesis by (simp add: wc_start_def Let_def)
qed

section \<open>Witnesses\<close>

text \<open>One address that answers with 404; the kernel takes one byte of the first line and then all.\<close>

definition demo_net :: net where
  "demo_net = \<lparr>net_lookup = (\<lambda>host port. Some [(3, True)]), net_send = (\<lambda>fd i. if i = 0 then 1 else 255),
     net_recv = (\<lambda>fd. map Recv1_byte (''HTTP/1.1 404 no'' @ crlf @ crlf))\<rparr>"

lemma show_404: "show_int 404 = ''404''" and show_101: "show_int 101 = ''101''" and show_80: "show_int 80 = ''80''"
proof -
  have "char_of (52 :: nat) = CHR ''4''" "char_of (48 :: nat) = CHR ''0''" "char_of (49 :: nat) = CHR ''1''" "char_of (56 :: nat) = CHR ''8''"
    by (simp_all add: char_of_def bit_iff_odd)
  then show "show_int 404 = ''404''" "show_int 101 = ''101''" "show_int 80 = ''80''"
    by (simp_all add: show_int_def show_nat.simps digit_def)
qed

lemma plain_status: "plain_line ''HTTP/1.1 404 no''" "plain_line ''HTTP/1.1 101 ok''" "plain_line ''Upgrade: websocket''"
  by (simp_all add: plain_line_def)

theorem handshake_takes_response_witness:
  "\<exists>line'. handshake (response ''HTTP/1.1 101 ok'' [''Upgrade: websocket''] @ [Recv1_byte CHR ''x'']) (replicate 256 CHR 0x00) =
     Some (Some (line', [Recv1_byte CHR ''x'']))"
  using handshake_takes_response[of 101 "'' ok''" "[''Upgrade: websocket'']" "replicate 256 CHR 0x00" "[Recv1_byte CHR ''x'']"]
    plain_status
  by (simp add: show_101 is_digit_def)

theorem from_url_request_witness:
  "\<exists>r calls. from_url_mask demo_net (replicate 256 CHR 0x00) ''ws://nowhere'' True '''' = Some (r, calls) \<and>
     map (fst \<circ> snd) calls = request_lines ''nowhere'' 80 '''' '''' \<and>
     taken calls \<noteq> concat (request_lines ''nowhere'' 80 '''' '''')"
proof -
  let ?line = "replicate 256 CHR 0x00" and ?ls = "request_lines ''nowhere'' 80 '''' ''''"
  have u: "parse_url ''ws://nowhere'' = Some (''nowhere'', 80, '''')"
    using url_bare[of "''nowhere''"] by (simp add: host_ok_def host_char_def)
  have fd: "hostname_connect demo_net ''nowhere'' 80 = 3" by (simp add: hostname_connect_def demo_net_def INVALID_SOCKET_def)
  let ?l = "snd (fill_lines (net_send demo_net 3) ?ls ?line)"
  have "handshake (net_recv demo_net 3) ?l = Some None"
    using handshake_plain[of 404 "'' no''" ?l "[]" "[]"] plain_status length_fill_lines[of ?line]
    by (simp add: show_404 is_digit_def demo_net_def response_def)
  then obtain calls where r: "from_url_mask demo_net ?line ''ws://nowhere'' True '''' = Some (None, calls)"
    using u fd unfolding from_url_mask_def
    by (cases "fill_lines (net_send demo_net 3) ?ls ?line") (simp add: INVALID_SOCKET_def Let_def)
  have "length ''ws://nowhere'' < 128" "length ([] :: string) < 200" "3 \<noteq> INVALID_SOCKET" by (simp_all add: INVALID_SOCKET_def)
  note req = from_url_request[OF u this(1,2) fd this(3) r, of "\<lambda>fd i. 0", unfolded Let_def]
  then have c: "calls = map (Pair 3) (zip ?ls (map (net_send demo_net 3) [0..<length ?ls]))"
    "taken calls = concat ?ls \<longleftrightarrow> (\<forall>(l, k) \<in> set (map snd calls). length l \<le> nat k)"
    by blast+
  have "map (fst \<circ> snd) calls = ?ls" unfolding c(1) by (simp add: comp_def)
  moreover have "hd (map snd calls) = (hd ?ls, 1)" "map snd calls \<noteq> []" "1 < length (hd ?ls)"
    unfolding c(1) by (simp_all add: request_lines_def demo_net_def upt_conv_Cons)
  then have "\<exists>(l, k) \<in> set (map snd calls). \<not> length l \<le> nat k"
    by (intro bexI[of _ "(hd ?ls, 1)"]) (simp, metis hd_in_set)
  then have "taken calls \<noteq> concat ?ls" unfolding c(2) by blast
  ultimately show ?thesis using r by auto
qed

end
