(* ===== verification/Records.thy ===== *)
theory Records
  imports Models "HOL-Library.Monad_Syntax"
begin

text \<open>
  Reading the packed structures of \<open>src/models\<close> back from the bytes that log files and the
  database keep. The code reinterprets the memory; the model decodes it, and a value of an
  enumeration that is none of its enumerators has no model.

  The contract of a record type is the locale \<open>codec\<close>: its encoding has a fixed size and is
  decoded to the value that was encoded.
\<close>

locale codec =
  fixes enc :: "'a \<Rightarrow> byte list" and dec :: "byte list \<Rightarrow> 'a option" and sz :: nat and ok :: "'a \<Rightarrow> bool"
  assumes sz_pos: "0 < sz"
    and enc_length: "ok x \<Longrightarrow> length (enc x) = sz"
    and dec_enc: "ok x \<Longrightarrow> dec (enc x) = Some x"
begin

lemma enc_not_empty: "ok x \<Longrightarrow> enc x \<noteq> []"
  using enc_length[of x] sz_pos by auto

lemma enc_inj: "ok x \<Longrightarrow> ok y \<Longrightarrow> enc x = enc y \<Longrightarrow> x = y"
  by (metis dec_enc option.inject)

lemma decode_all: "list_all ok xs \<Longrightarrow> map (dec \<circ> enc) xs = map Some xs"
  by (induction xs) (simp_all add: dec_enc)

lemma concat_length: "list_all ok xs \<Longrightarrow> length (concat (map enc xs)) = length xs * sz"
  by (induction xs) (simp_all add: enc_length)

end

section \<open>Fields\<close>

definition field :: "nat \<Rightarrow> nat \<Rightarrow> byte list \<Rightarrow> byte list" where
  "field i n bs = take n (drop i bs)"

definition u64_at :: "byte list \<Rightarrow> nat \<Rightarrow> uint64" where
  "u64_at bs i = word_of_int (bytes_le (field i 8 bs))"

definition double_at :: "byte list \<Rightarrow> nat \<Rightarrow> double" where
  "double_at bs i = Bits (u64_at bs i)"

definition i32_at :: "byte list \<Rightarrow> nat \<Rightarrow> int" where
  "i32_at bs i = sint (word_of_int (bytes_le (field i 4 bs)) :: 32 word)"

fun action_of_int :: "int \<Rightarrow> action_type option" where
  "action_of_int i = (if i = 1 then Some BUY else if i = 0 then Some WAIT else if i = -1 then Some SELL else None)"

fun status_of_int :: "int \<Rightarrow> decision_status option" where
  "status_of_int i = (if i = -1 then Some CANCELLED else if i = 0 then Some PENDING else if i = 1 then Some PASSED else None)"

fun origin_of_int :: "int \<Rightarrow> origin_type option" where
  "origin_of_int i = (if i = 0 then Some OriginUnknown else if i = 1 then Some OriginInit
     else if i = 2 then Some OriginUpdate else if i = 3 then Some OriginTrade else None)"

fun origin_int :: "origin_type \<Rightarrow> int" where
  "origin_int OriginUnknown = 0"
| "origin_int OriginInit = 1"
| "origin_int OriginUpdate = 2"
| "origin_int OriginTrade = 3"

definition balance_bytes :: "balance \<Rightarrow> byte list" where
  "balance_bytes b = double_bytes (liquidity b) @ double_bytes (stock b) @ double_bytes (commission b)"

definition balance_change_bytes :: "balance_change \<Rightarrow> byte list" where
  "balance_change_bytes bc = i32_bytes (origin_int (origin_type (bc_origin bc))) @ u64_bytes (origin_id (bc_origin bc)) @
     balance_bytes (bc_delta bc) @ balance_bytes (bc_consolidated bc) @ double_bytes (bc_timestamp bc)"

section \<open>Decoding\<close>

definition decode_order :: "byte list \<Rightarrow> order option" where
  "decode_order bs = do {
     type \<leftarrow> action_of_int (i32_at bs 24);
     Some \<lparr>o_id = u64_at bs 0, o_amount = double_at bs 8, o_price = double_at bs 16, o_type = type,
       o_timestamp = double_at bs 28\<rparr> }"

definition decode_trade :: "byte list \<Rightarrow> trade option" where
  "decode_trade bs = do {
     type \<leftarrow> action_of_int (i32_at bs 24);
     Some \<lparr>t_id = u64_at bs 0, t_volume = double_at bs 8, t_price = double_at bs 16, t_type = type,
       t_timestamp = double_at bs 28, t_decision_id = u64_at bs 36, t_buy_order_id = u64_at bs 44,
       t_sell_order_id = u64_at bs 52\<rparr> }"

definition decode_decision :: "byte list \<Rightarrow> decision option" where
  "decode_decision bs = do {
     type \<leftarrow> action_of_int (i32_at bs 8);
     status \<leftarrow> status_of_int (i32_at bs 16);
     Some \<lparr>d_id = u64_at bs 0, d_type = type, d_random = word_of_int (bytes_le (field 12 4 bs)), d_status = status,
       d_timestamp = double_at bs 20, d_confidence = double_at bs 28, d_amount = double_at bs 36,
       d_price = double_at bs 44, d_order_id = u64_at bs 52, d_source = drop 60 bs\<rparr> }"

definition balance_at :: "byte list \<Rightarrow> nat \<Rightarrow> balance" where
  "balance_at bs i = \<lparr>liquidity = double_at bs i, stock = double_at bs (i + 8), commission = double_at bs (i + 16)\<rparr>"

definition decode_balance_change :: "byte list \<Rightarrow> balance_change option" where
  "decode_balance_change bs = do {
     type \<leftarrow> origin_of_int (i32_at bs 0);
     Some \<lparr>bc_origin = \<lparr>origin_type = type, origin_id = u64_at bs 4\<rparr>, bc_delta = balance_at bs 12,
       bc_consolidated = balance_at bs 36, bc_timestamp = double_at bs 60\<rparr> }"

section \<open>The encodings keep the contract\<close>

lemma bytes_le_bytes: "bytes_le (le_bytes n v) = v mod 256 ^ n"
proof (induction n arbitrary: v)
  case (Suc n)
  have "bytes_le (le_bytes (Suc n) v) = v mod 256 + 256 * (v div 256 mod 256 ^ n)"
    by (simp add: Suc uint_word_of_int)
  also have "\<dots> = v mod 256 ^ Suc n"
    using mod_mult2_eq'[of v 256 "256 ^ n"] by (simp add: mult.commute)
  finally show ?case .
qed simp

lemma length_balance_bytes [simp]: "length (balance_bytes b) = 24"
  by (simp add: balance_bytes_def)

text \<open>A field of a concatenation, when the widths of what comes before it are known.\<close>

lemma field_skip: "length a \<le> i \<Longrightarrow> field i n (a @ b) = field (i - length a) n b"
  by (simp add: field_def)

lemma field_hit: "length a = n \<Longrightarrow> field 0 n (a @ b) = a" "length a = n \<Longrightarrow> field 0 n a = a"
  by (simp_all add: field_def)

lemma u64_decode: "word_of_int (bytes_le (u64_bytes w)) = w"
proof -
  have "uint w mod 256 ^ 8 = uint w" using uint_lt2p[of w] by simp
  then show ?thesis by (simp add: u64_bytes_def bytes_le_bytes del: power_numeral)
qed

lemma i32_decode:
  assumes "- (2 ^ 31) \<le> i" "i < 2 ^ 31"
  shows "sint (word_of_int (bytes_le (i32_bytes i)) :: 32 word) = i"
  using assms by (simp add: i32_bytes_def bytes_le_bytes int_word_sint mod_add_left_eq)


lemmas at_defs = u64_at_def double_at_def i32_at_def balance_at_def

interpretation order_codec: codec order_bytes decode_order 36 "\<lambda>r. True"
proof
  fix r :: order
  show "decode_order (order_bytes r) = Some r"
    by (cases "o_type r")
      (simp_all add: decode_order_def order_bytes_def at_defs field_skip field_hit u64_decode i32_decode double_bytes_def)
qed (simp_all add: order_bytes_def)

interpretation trade_codec: codec trade_bytes decode_trade 60 "\<lambda>t. True"
proof
  fix t :: trade
  show "decode_trade (trade_bytes t) = Some t"
    by (cases "t_type t")
      (simp_all add: decode_trade_def trade_bytes_def at_defs field_skip field_hit u64_decode i32_decode double_bytes_def)
qed (simp_all add: trade_bytes_def)

interpretation balance_change_codec: codec balance_change_bytes decode_balance_change 68 "\<lambda>bc. True"
proof
  fix bc :: balance_change
  show "decode_balance_change (balance_change_bytes bc) = Some bc"
    by (cases "origin_type (bc_origin bc)")
      (simp_all add: decode_balance_change_def balance_change_bytes_def balance_bytes_def at_defs field_skip field_hit
        u64_decode i32_decode double_bytes_def)
qed (simp_all add: balance_change_bytes_def)

interpretation decision_codec: codec decision_bytes decode_decision 92 "\<lambda>d. length (d_source d) = 32"
proof
  fix d :: decision
  have r: "word_of_int (bytes_le (le_bytes 4 (uint (d_random d)))) = d_random d"
  proof -
    have "uint (d_random d) mod 256 ^ 4 = uint (d_random d)" using uint_lt2p[of "d_random d"] by simp
    then show ?thesis by (simp add: bytes_le_bytes del: power_numeral)
  qed
  show "decode_decision (decision_bytes d) = Some d"
    by (cases "d_type d"; cases "d_status d")
      (simp_all add: decode_decision_def decision_bytes_def at_defs field_skip field_hit u64_decode i32_decode r double_bytes_def)
qed (simp_all add: decision_bytes_def)

end
