(* ===== verification/Logs.thy ===== *)
theory Logs
  imports Ranges Containers Exceptions Model_Text Records "HOL-Library.AList"
begin

text \<open>
  The log files of \<open>src/db\<close>: \<open>PlainLog\<close>, one file of records that are appended and read back
  as raw bytes, \<open>RotatingLog\<close>, which starts a new file from time to time, and \<open>GzipLog\<close>.

  A disk holds the bytes of its files by path. Streams read the disk as it is at the call.
  What a write achieves is an input of the model: everything, or a number of bytes followed
  by the failure of \<open>fwrite\<close> or of \<open>fflush\<close>. \<open>None\<close> stands for undefined behaviour.
\<close>

section \<open>Files\<close>

record disk =
  d_files :: "(string \<times> byte list) list"
  d_directories :: "string list"
  d_readable :: "string \<Rightarrow> bool"
  d_writable :: "string \<Rightarrow> bool"

record stream =
  st_path :: string
  st_pos :: nat
  st_eof :: bool

definition file_bytes :: "disk \<Rightarrow> string \<Rightarrow> byte list" where
  "file_bytes d p = (case map_of (d_files d) p of None \<Rightarrow> [] | Some bs \<Rightarrow> bs)"

definition fopen_rb :: "disk \<Rightarrow> string \<Rightarrow> stream option" where
  "fopen_rb d p = (if map_of (d_files d) p \<noteq> None \<and> d_readable d p
     then Some \<lparr>st_path = p, st_pos = 0, st_eof = False\<rparr> else None)"

text \<open>Opening for appending creates the file when there is none.\<close>

definition fopen_ab :: "disk \<Rightarrow> string \<Rightarrow> disk option" where
  "fopen_ab d p = (if d_writable d p then Some (d\<lparr>d_files := AList.update p (file_bytes d p) (d_files d)\<rparr>) else None)"

text \<open>
  \<open>fread(&item, sz, 1, file)\<close>: the count, the bytes of the item after the call and the stream.
  A short read overwrites the beginning of the item and sets the end-of-file indicator.
\<close>

definition fread1 :: "nat \<Rightarrow> disk \<Rightarrow> stream \<Rightarrow> byte list \<Rightarrow> nat \<times> byte list \<times> stream" where
  "fread1 sz d st item =
     (let rest = drop (st_pos st) (file_bytes d (st_path st))
      in if st_eof st then (0, item, st)
         else if sz \<le> length rest then (1, take sz rest, st\<lparr>st_pos := st_pos st + sz\<rparr>)
         else (0, rest @ drop (length rest) item, st\<lparr>st_pos := st_pos st + length rest, st_eof := True\<rparr>))"

datatype write_result = Written | Write_failed nat | Flush_failed nat

definition written_bytes :: "write_result \<Rightarrow> byte list \<Rightarrow> byte list" where
  "written_bytes r bs = (case r of Written \<Rightarrow> bs | Write_failed k \<Rightarrow> take k bs | Flush_failed k \<Rightarrow> take k bs)"

definition append_file :: "disk \<Rightarrow> string \<Rightarrow> byte list \<Rightarrow> disk" where
  "append_file d p bs = d\<lparr>d_files := AList.update p (file_bytes d p @ bs) (d_files d)\<rparr>"

lemma file_bytes_append [simp]: "file_bytes (append_file d p bs) q = file_bytes d q @ (if p = q then bs else [])"
  by (simp add: file_bytes_def append_file_def update_conv')

lemma file_bytes_fopen [simp]: "fopen_ab d p = Some d' \<Longrightarrow> file_bytes d' q = file_bytes d q"
  by (auto simp: fopen_ab_def file_bytes_def update_conv' split: if_splits)

section \<open>PlainLog\<close>

subsection \<open>The reader\<close>

record plain_reader =
  pr_path :: string
  pr_file :: "stream option"

definition mk_plain_reader :: "disk \<Rightarrow> string \<Rightarrow> plain_reader" where
  "mk_plain_reader d basepath = \<lparr>pr_path = basepath, pr_file = fopen_rb d basepath\<rparr>"

definition plain_reader_close :: "plain_reader \<Rightarrow> plain_reader" where
  "plain_reader_close r = r\<lparr>pr_file := None\<rparr>"

text \<open>Reading one element, \<open>fread\<close> returns 0 or 1: the throwing branch is never taken.\<close>

definition plain_next :: "nat \<Rightarrow> disk \<Rightarrow> plain_reader \<Rightarrow> byte list \<Rightarrow> bool \<times> byte list \<times> plain_reader" where
  "plain_next sz d r item =
     (case pr_file r of
        None \<Rightarrow> (False, item, r)
      | Some st \<Rightarrow> (case fread1 sz d st item of (n, item, st) \<Rightarrow> (n = 1, item, r\<lparr>pr_file := Some st\<rparr>)))"

subsection \<open>The range\<close>

text \<open>The range holds its reader and the bytes of the current value.\<close>

record plain_range_state =
  prs_disk :: disk
  prs_reader :: plain_reader
  prs_value :: "byte list"

definition mk_plain_range_state :: "disk \<Rightarrow> string \<Rightarrow> byte list \<Rightarrow> plain_range_state" where
  "mk_plain_range_state d basepath value =
     \<lparr>prs_disk = d, prs_reader = mk_plain_reader d basepath, prs_value = value\<rparr>"

definition plain_range_read ::
  "nat \<Rightarrow> plain_range_state \<Rightarrow> byte list option \<Rightarrow> (bool \<times> byte list option \<times> plain_range_state) option" where
  "plain_range_read sz s value =
     (case plain_next sz (prs_disk s) (prs_reader s) (prs_value s) of (ok, v, r) \<Rightarrow>
       Some (ok, Some v, s\<lparr>prs_reader := r, prs_value := v\<rparr>))"

text \<open>\<open>init\<close> points the caller to the value and reads; it does not rewind the file.\<close>

definition plain_range_data :: "nat \<Rightarrow> (plain_range_state, byte list) range_data" where
  "plain_range_data sz = \<lparr>rd_init = plain_range_read sz, rd_next = plain_range_read sz\<rparr>"

definition plain_range :: "nat \<Rightarrow> (plain_range_state, byte list) range" where
  "plain_range sz = Some (plain_range_data sz)"

subsection \<open>The writer\<close>

record plain_writer =
  pw_path :: string

text \<open>\<open>err\<close> is the text of \<open>errno\<close>.\<close>

definition mk_plain_writer :: "string \<Rightarrow> disk \<Rightarrow> string \<Rightarrow> exn + plain_writer \<times> disk" where
  "mk_plain_writer err d basepath = (case fopen_ab d basepath of
     None \<Rightarrow> Inl (mk_exn FileException [''PlainLogWriter could not open file for writing'', basepath, err])
   | Some d \<Rightarrow> Inr (\<lparr>pw_path = basepath\<rparr>, d))"

definition plain_append ::
  "string \<Rightarrow> write_result \<Rightarrow> byte list \<Rightarrow> plain_writer \<Rightarrow> disk \<Rightarrow> (exn + unit) \<times> disk" where
  "plain_append err result item w d =
     ((case result of
         Written \<Rightarrow> Inr ()
       | Write_failed k \<Rightarrow> Inl (mk_exn FileException [''PlainLogWriter could not write to file'', pw_path w, err])
       | Flush_failed k \<Rightarrow> Inl (mk_exn FileException [''PlainLogWriter could not flush to file'', pw_path w, err])),
      append_file d (pw_path w) (written_bytes result item))"

definition plain_get :: "nat \<Rightarrow> plain_writer \<Rightarrow> disk \<Rightarrow> byte list \<Rightarrow>
    (plain_range_state, byte list) range \<times> plain_range_state" where
  "plain_get sz w d value = (plain_range sz, mk_plain_range_state d (pw_path w) value)"

section \<open>RotatingLog\<close>

text \<open>
  \<open>close_file\<close> is declared to return a \<open>bool\<close> and returns nothing, which is undefined. The
  parameter \<open>returns\<close> says whether the compiled function comes back to its caller all the same.
\<close>

definition str_less :: "string \<Rightarrow> string \<Rightarrow> bool" where
  "str_less a b = ord.lexordp (\<lambda>x y. (of_char x :: nat) < of_char y) a b"

text \<open>The directory part of a path without doubled slashes.\<close>

definition parent_path :: "string \<Rightarrow> string" where
  "parent_path p =
     (let dir = rev (dropWhile (\<lambda>c. c \<noteq> CHR ''/'') (rev p))
      in if dir = ''/'' then dir else butlast dir)"

definition has_prefix :: "string \<Rightarrow> string \<Rightarrow> bool" where
  "has_prefix prefix s = (take (length prefix) s = prefix)"

subsection \<open>The reader\<close>

record rotating_reader =
  rr_basepath :: string
  rr_paths :: "string list"
  rr_paths_it :: nat
  rr_file :: "stream option"

text \<open>The files next to the base path whose paths begin with it, as an ordered set.\<close>

definition rotating_paths :: "disk \<Rightarrow> string \<Rightarrow> string list" where
  "rotating_paths d basepath = foldl (\<lambda>s p. set_insert str_less p s) []
     (filter (has_prefix basepath) (filter (\<lambda>p. parent_path p = parent_path basepath) (map fst (d_files d))))"

definition mk_rotating_reader :: "disk \<Rightarrow> string \<Rightarrow> exn + rotating_reader" where
  "mk_rotating_reader d basepath =
     (if parent_path basepath \<in> set (d_directories d)
      then Inr \<lparr>rr_basepath = basepath, rr_paths = rotating_paths d basepath, rr_paths_it = 0, rr_file = None\<rparr>
      else Inl (mk_exn StdException [''filesystem error: directory iterator cannot open directory'']))"

definition close_file :: "bool \<Rightarrow> rotating_reader \<Rightarrow> rotating_reader option" where
  "close_file returns r = (if returns then Some (r\<lparr>rr_file := None\<rparr>) else None)"

text \<open>A file that cannot be opened: the message names the path after it, if there is one.\<close>

definition rotate_file :: "string \<Rightarrow> disk \<Rightarrow> rotating_reader \<Rightarrow> (exn + bool \<times> rotating_reader) option" where
  "rotate_file err d r =
     (case rr_file r of
        Some _ \<Rightarrow> Some (Inr (True, r))
      | None \<Rightarrow>
          if length (rr_paths r) \<le> rr_paths_it r then Some (Inr (False, r))
          else let file = fopen_rb d (rr_paths r ! rr_paths_it r); it = rr_paths_it r + 1
               in if file = None
                  then if it < length (rr_paths r)
                    then Some (Inl (mk_exn FileException
                      [''RotatingLogReader could not open file for reading'', rr_paths r ! it, err]))
                    else None
                  else Some (Inr (True, r\<lparr>rr_file := file, rr_paths_it := it\<rparr>)))"

function rotating_read ::
  "bool \<Rightarrow> string \<Rightarrow> nat \<Rightarrow> disk \<Rightarrow> rotating_reader \<Rightarrow> byte list \<Rightarrow> (exn + bool \<times> byte list \<times> rotating_reader) option" where
  "rotating_read returns err sz d r item =
     (case rr_file r of
        None \<Rightarrow> None
      | Some st \<Rightarrow> (case fread1 sz d st item of (n, item, st) \<Rightarrow>
          if n = 1 then Some (Inr (True, item, r\<lparr>rr_file := Some st\<rparr>))
          else (case close_file returns r of None \<Rightarrow> None
            | Some r \<Rightarrow> (case rotate_file err d r of None \<Rightarrow> None
                | Some (Inl e) \<Rightarrow> Some (Inl e)
                | Some (Inr (ok, r)) \<Rightarrow>
                    if ok then rotating_read returns err sz d r item
                    else Some (Inr (False, item, r))))))"
  by pat_completeness auto
termination
  by (relation "measure (\<lambda>(returns, err, sz, d, r, item). Suc (length (rr_paths r)) - rr_paths_it r)")
    (auto simp: close_file_def rotate_file_def Let_def split: if_splits option.splits)

declare rotating_read.simps [simp del]

definition rotating_next ::
  "bool \<Rightarrow> string \<Rightarrow> nat \<Rightarrow> disk \<Rightarrow> rotating_reader \<Rightarrow> byte list \<Rightarrow> (exn + bool \<times> byte list \<times> rotating_reader) option" where
  "rotating_next returns err sz d r item =
     (case rotate_file err d r of None \<Rightarrow> None
      | Some (Inl e) \<Rightarrow> Some (Inl e)
      | Some (Inr (ok, r)) \<Rightarrow> if ok then rotating_read returns err sz d r item else Some (Inr (False, item, r)))"

text \<open>Neither method of \<open>RotatingLogRangeData\<close> returns the result that its caller uses.\<close>

definition rotating_range_data :: "(rotating_reader, byte list) range_data" where
  "rotating_range_data = \<lparr>rd_init = (\<lambda>s value. None), rd_next = (\<lambda>s value. None)\<rparr>"

subsection \<open>The writer\<close>

record rotating_writer =
  rw_basepath :: string
  rw_interval :: int
  rw_bytes_written :: uint64
  rw_check_threshold :: uint64
  rw_last_timestamp :: int
  rw_path :: string
  rw_open :: bool

definition rotating_stop :: "rotating_writer \<Rightarrow> rotating_writer" where
  "rotating_stop w = w\<lparr>rw_open := False\<rparr>"

definition rotating_path :: "time_zone \<Rightarrow> string \<Rightarrow> int \<Rightarrow> string option" where
  "rotating_path tz basepath now = map_option (\<lambda>lt. basepath @ ''.'' @ strftime_iso lt) (localtime tz now)"

text \<open>When the file cannot be opened, the writer is left closed.\<close>

definition rotating_start ::
  "string \<Rightarrow> time_zone \<Rightarrow> int \<Rightarrow> rotating_writer \<Rightarrow> disk \<Rightarrow> ((exn + unit) \<times> rotating_writer \<times> disk) option" where
  "rotating_start err tz now w d =
     map_option (\<lambda>path.
       let w = (rotating_stop w)\<lparr>rw_last_timestamp := now, rw_path := path\<rparr>
       in case fopen_ab d path of
            None \<Rightarrow> (Inl (mk_exn FileException [''RotatingLogWriter could not open file for writing'', path, err]), w, d)
          | Some d \<Rightarrow> (Inr (), w\<lparr>rw_open := True\<rparr>, d))
     (rotating_path tz (rw_basepath w) now)"

definition mk_rotating_writer ::
  "string \<Rightarrow> time_zone \<Rightarrow> int \<Rightarrow> string \<Rightarrow> int \<Rightarrow> uint64 \<Rightarrow> disk \<Rightarrow>
     ((exn + unit) \<times> rotating_writer \<times> disk) option" where
  "mk_rotating_writer err tz now basepath interval check_threshold d =
     rotating_start err tz now
       \<lparr>rw_basepath = basepath, rw_interval = interval, rw_bytes_written = 0, rw_check_threshold = check_threshold,
        rw_last_timestamp = 0, rw_path = [], rw_open = False\<rparr> d"

text \<open>
  Appending: \<open>now\<close> is the time of the check and \<open>now'\<close> that of the new file. The new file is
  opened after the item was written; the counter is reset only when it could be opened.
\<close>

definition rotating_append ::
  "string \<Rightarrow> time_zone \<Rightarrow> write_result \<Rightarrow> int \<Rightarrow> int \<Rightarrow> byte list \<Rightarrow> rotating_writer \<Rightarrow> disk \<Rightarrow>
     ((exn + unit) \<times> rotating_writer \<times> disk) option" where
  "rotating_append err tz result now now' item w d =
     (if \<not> rw_open w then None
      else let d = append_file d (rw_path w) (written_bytes result item)
      in case result of
           Write_failed k \<Rightarrow>
             Some (Inl (mk_exn FileException [''RotatingLogWriter could not write to file'', rw_path w, err]), w, d)
         | Flush_failed k \<Rightarrow>
             Some (Inl (mk_exn FileException [''RotatingLogWriter could not flush to file'', rw_path w, err]), w, d)
         | Written \<Rightarrow>
             let w = w\<lparr>rw_bytes_written := rw_bytes_written w + of_nat (length item)\<rparr>
             in if rw_check_threshold w < rw_bytes_written w \<and> rw_interval w \<le> now - rw_last_timestamp w
                then map_option (\<lambda>(r, w, d). (r, (if r = Inr () then w\<lparr>rw_bytes_written := 0\<rparr> else w), d))
                  (rotating_start err tz now' w d)
                else Some (Inr (), w, d))"

section \<open>GzipLog\<close>

text \<open>
  The disk gives the uncompressed contents of the files. The results of \<open>gzwrite\<close> (the number
  of bytes written, 0 for an error), \<open>gzputs\<close> (\<open>-1\<close> for an error) and \<open>gzflush\<close> are inputs.
\<close>

record gzip_log =
  gz_path :: string
  gz_pos :: nat

definition mk_gzip_writer :: "string \<Rightarrow> disk \<Rightarrow> string \<Rightarrow> exn + gzip_log \<times> disk" where
  "mk_gzip_writer err d path = (case fopen_ab d path of
     None \<Rightarrow> Inl (mk_exn FileException [''Error while open file in append-only mode'', path, err])
   | Some d \<Rightarrow> Inr (\<lparr>gz_path = path, gz_pos = 0\<rparr>, d))"

text \<open>\<open>Z_ERRNO\<close>, \<open>Z_STREAM_ERROR\<close>, \<open>Z_BUF_ERROR\<close> and \<open>Z_MEM_ERROR\<close> are \<open>-1\<close>, \<open>-2\<close>, \<open>-5\<close> and \<open>-4\<close>.\<close>

definition gzip_check :: "string \<Rightarrow> gzip_log \<Rightarrow> int \<Rightarrow> exn + unit" where
  "gzip_check err w result =
     (if result = -1 then Inl (mk_exn FileException [''Error while appending to file'', gz_path w, err])
      else if result = -2 then Inl (mk_exn FileException [''Error while appending to file'', gz_path w,
        ''The stream is invalid, is not open for writing, or is in an invalid state.''])
      else if result = -5 then Inl (mk_exn FileException [''Error while appending to file'', gz_path w,
        ''No compression progress is possible''])
      else if result = -4 then Inl (mk_exn FileException [''Error while appending to file'', gz_path w,
        ''Insufficient memory available to compress.''])
      else Inr ())"

text \<open>The three overloads: the bytes of an item, the characters of a string.\<close>

definition gzip_append :: "string \<Rightarrow> int \<Rightarrow> int \<Rightarrow> byte list \<Rightarrow> gzip_log \<Rightarrow> disk \<Rightarrow> (exn + unit) \<times> disk" where
  "gzip_append err write_result flush_result item w d =
     (let d = append_file d (gz_path w) (take (nat write_result) item)
      in case gzip_check err w write_result of
           Inl e \<Rightarrow> (Inl e, d)
         | Inr () \<Rightarrow> (gzip_check err w flush_result, d))"

definition string_bytes :: "string \<Rightarrow> byte list" where
  "string_bytes s = map (\<lambda>c. of_nat (of_char c)) s"

definition gzip_append_string :: "string \<Rightarrow> int \<Rightarrow> int \<Rightarrow> string \<Rightarrow> gzip_log \<Rightarrow> disk \<Rightarrow> (exn + unit) \<times> disk" where
  "gzip_append_string err write_result flush_result item w d =
     gzip_append err write_result flush_result (string_bytes item) w d"

text \<open>\<open>gzputs\<close> stops at the terminating zero.\<close>

definition gzip_append_chars :: "string \<Rightarrow> int \<Rightarrow> int \<Rightarrow> string \<Rightarrow> gzip_log \<Rightarrow> disk \<Rightarrow> (exn + unit) \<times> disk" where
  "gzip_append_chars err puts_result flush_result item w d =
     gzip_append err puts_result flush_result (takeWhile (\<lambda>b. b \<noteq> 0) (string_bytes item)) w d"

definition mk_gzip_reader :: "string \<Rightarrow> disk \<Rightarrow> string \<Rightarrow> exn + gzip_log" where
  "mk_gzip_reader err d path = (case fopen_rb d path of
     None \<Rightarrow> Inl (mk_exn FileException [''Error while open file in read-only mode'', path, err])
   | Some _ \<Rightarrow> Inr \<lparr>gz_path = path, gz_pos = 0\<rparr>)"

text \<open>\<open>gzread\<close> returns the number of bytes, which is short at the end of the file.\<close>

definition gzip_next :: "nat \<Rightarrow> disk \<Rightarrow> gzip_log \<Rightarrow> byte list \<Rightarrow> int \<times> byte list \<times> gzip_log" where
  "gzip_next sz d r item =
     (let bs = take sz (drop (gz_pos r) (file_bytes d (gz_path r)))
      in (int (length bs), bs @ drop (length bs) item, r\<lparr>gz_pos := gz_pos r + length bs\<rparr>))"

text \<open>The other overload ignores the count: \<open>garbage\<close> is what its local variable happens to hold.\<close>

definition gzip_next_value :: "nat \<Rightarrow> disk \<Rightarrow> gzip_log \<Rightarrow> byte list \<Rightarrow> byte list \<times> gzip_log" where
  "gzip_next_value sz d r garbage = snd (gzip_next sz d r garbage)"


section \<open>Ranges that are read once\<close>

text \<open>
  The contract of a range whose \<open>init\<close> does not go back to the beginning: a loop visits what is
  left, and nothing is left for another loop.
\<close>

locale once_range =
  fixes rd :: "('s, 'v) range_data" and inv :: "'s \<Rightarrow> bool" and rest :: "'s \<Rightarrow> 'v list"
  assumes init_end: "inv s \<Longrightarrow> rest s = [] \<Longrightarrow> \<exists>w s'. rd_init rd s v = Some (False, w, s') \<and> inv s' \<and> rest s' = []"
    and init_item: "inv s \<Longrightarrow> rest s = x # xs \<Longrightarrow> \<exists>s'. rd_init rd s v = Some (True, Some x, s') \<and> inv s' \<and> rest s' = xs"
    and next_end: "inv s \<Longrightarrow> rest s = [] \<Longrightarrow> \<exists>w s'. rd_next rd s v = Some (False, w, s') \<and> inv s' \<and> rest s' = []"
    and next_item: "inv s \<Longrightarrow> rest s = x # xs \<Longrightarrow> \<exists>s'. rd_next rd s v = Some (True, Some x, s') \<and> inv s' \<and> rest s' = xs"
begin

lemma loop_once:
  "inv s \<Longrightarrow> \<exists>s'. loop_items rd \<lparr>it_finished = False, it_has_data = True, it_value = Some x\<rparr> s = Some (x # rest s, s') \<and>
    inv s' \<and> rest s' = []"
proof (induction "rest s" arbitrary: s x)
  case Nil
  then obtain w s' where "rd_next rd s (Some x) = Some (False, w, s')" "inv s'" "rest s' = []" by (metis next_end)
  then show ?case using Nil(1)[symmetric]
    by (simp add: loop_items.simps iterator_ne_def end_iterator_def iterator_incr_def)
next
  case (Cons y ys)
  then obtain s1 where s1: "rd_next rd s (Some x) = Some (True, Some y, s1)" "inv s1" "rest s1 = ys"
    by (metis next_item)
  then obtain s2 where "loop_items rd \<lparr>it_finished = False, it_has_data = True, it_value = Some y\<rparr> s1 =
      Some (y # rest s1, s2)" "inv s2" "rest s2 = []"
    using Cons.hyps(1)[of s1 y] by auto
  then show ?case using s1 Cons.hyps(2)[symmetric]
    by (subst loop_items.simps) (simp add: iterator_ne_def end_iterator_def iterator_incr_def)
qed

lemma items_once:
  assumes "inv s"
  shows "\<exists>s'. range_items (Some rd) s = Some (rest s, s') \<and> inv s' \<and> rest s' = []"
proof (cases "rest s")
  case Nil
  then obtain w s' where "rd_init rd s None = Some (False, w, s')" "inv s'" "rest s' = []"
    using init_end assms by blast
  then show ?thesis using Nil
    by (simp add: range_items_def mk_iterator_def loop_items.simps iterator_ne_def end_iterator_def)
next
  case (Cons x xs)
  then obtain s1 where s1: "rd_init rd s None = Some (True, Some x, s1)" "inv s1" "rest s1 = xs"
    using init_item assms by blast
  then show ?thesis using loop_once[OF s1(2), of x] Cons
    by (simp add: range_items_def mk_iterator_def)
qed

end

section \<open>Whole records of a file\<close>

function chunks :: "nat \<Rightarrow> 'a list \<Rightarrow> 'a list list" where
  "chunks n xs = (if n = 0 \<or> length xs < n then [] else take n xs # chunks n (drop n xs))"
  by pat_completeness auto
termination
  by (relation "measure (\<lambda>(n, xs). length xs)") auto

declare chunks.simps [simp del]

lemma chunks_short: "length xs < n \<Longrightarrow> chunks n xs = []"
  by (simp add: chunks.simps)

lemma chunks_Nil [simp]: "chunks n [] = []"
  by (cases n) (simp_all add: chunks.simps)

lemma chunks_step: "0 < n \<Longrightarrow> n \<le> length xs \<Longrightarrow> chunks n xs = take n xs # chunks n (drop n xs)"
  by (subst chunks.simps) simp

lemma chunks_append: "length x = n \<Longrightarrow> 0 < n \<Longrightarrow> chunks n (x @ xs) = x # chunks n xs"
  by (simp add: chunks_step)

lemma chunks_concat:
  "list_all (\<lambda>x. length x = n) xss \<Longrightarrow> 0 < n \<Longrightarrow> chunks n (concat xss @ ys) = xss @ chunks n ys"
  by (induction xss) (simp_all add: chunks_append)

lemma length_chunks: "0 < n \<Longrightarrow> length (chunks n xs) = length xs div n"
proof (induction n xs rule: chunks.induct)
  case (1 n xs)
  show ?case
  proof (cases "length xs < n")
    case False
    then show ?thesis using 1 le_div_geq[of n "length xs"] by (simp add: chunks_step)
  qed (simp add: chunks_short)
qed

context codec
begin

lemma chunks_encoded:
  "list_all ok xs \<Longrightarrow> chunks sz (concat (map enc xs) @ ys) = map enc xs @ chunks sz ys"
  using sz_pos by (intro chunks_concat) (auto simp: list_all_iff enc_length)

end


section \<open>Reading a plain log\<close>

definition stream_rest :: "nat \<Rightarrow> disk \<Rightarrow> stream option \<Rightarrow> byte list list" where
  "stream_rest sz d f = (case f of None \<Rightarrow> []
     | Some st \<Rightarrow> if st_eof st then [] else chunks sz (drop (st_pos st) (file_bytes d (st_path st))))"

lemma fread1_rest:
  assumes "0 < sz" "fread1 sz d st item = (n, item', st')"
  shows "stream_rest sz d (Some st) = (if n = 1 then item' # stream_rest sz d (Some st') else [])"
    and "n \<noteq> 1 \<Longrightarrow> stream_rest sz d (Some st') = []" and "n = 0 \<or> n = 1"
  using assms
  by (auto simp: fread1_def stream_rest_def Let_def chunks_step chunks_short add.commute split: if_splits)

lemma plain_read_rest:
  assumes "0 < sz" "plain_range_read sz s v = Some (ok, v', s')"
  shows "stream_rest sz (prs_disk s) (pr_file (prs_reader s)) =
      (if ok then the v' # stream_rest sz (prs_disk s') (pr_file (prs_reader s')) else [])"
    and "\<not> ok \<Longrightarrow> stream_rest sz (prs_disk s') (pr_file (prs_reader s')) = []" and "v' \<noteq> None"
proof -
  have "prs_disk s' = prs_disk s"
    using assms(2) by (auto simp: plain_range_read_def plain_next_def split: option.splits prod.splits)
  then have "stream_rest sz (prs_disk s) (pr_file (prs_reader s)) =
      (if ok then the v' # stream_rest sz (prs_disk s') (pr_file (prs_reader s')) else []) \<and>
    (\<not> ok \<longrightarrow> stream_rest sz (prs_disk s') (pr_file (prs_reader s')) = []) \<and> v' \<noteq> None"
  proof (cases "pr_file (prs_reader s)")
    case None
    then show ?thesis using assms(2) by (auto simp: plain_range_read_def plain_next_def stream_rest_def)
  next
    case (Some st)
    obtain n item st' where f: "fread1 sz (prs_disk s) st (prs_value s) = (n, item, st')" by (metis prod_cases3)
    then show ?thesis using assms(2) Some fread1_rest[OF assms(1) f]
      by (auto simp: plain_range_read_def plain_next_def)
  qed
  then show "stream_rest sz (prs_disk s) (pr_file (prs_reader s)) =
      (if ok then the v' # stream_rest sz (prs_disk s') (pr_file (prs_reader s')) else [])"
    "\<not> ok \<Longrightarrow> stream_rest sz (prs_disk s') (pr_file (prs_reader s')) = []" "v' \<noteq> None" by auto
qed

lemma plain_range_read_total: "\<exists>ok v' s'. plain_range_read sz s v = Some (ok, v', s')"
  by (auto simp: plain_range_read_def split: prod.splits)

text \<open>The record size is positive: it is one plus a parameter.\<close>

interpretation plain_log: once_range "plain_range_data (Suc k)" "\<lambda>s. True"
  "\<lambda>s. stream_rest (Suc k) (prs_disk s) (pr_file (prs_reader s))" for k
proof
  fix s v x xs
  let ?rest = "\<lambda>s. stream_rest (Suc k) (prs_disk s) (pr_file (prs_reader s))"
  obtain ok v' s' where r: "plain_range_read (Suc k) s v = Some (ok, v', s')" using plain_range_read_total by blast
  note p = plain_read_rest[OF zero_less_Suc r]
  show "?rest s = [] \<Longrightarrow> \<exists>w s'. rd_init (plain_range_data (Suc k)) s v = Some (False, w, s') \<and> True \<and> ?rest s' = []"
    "?rest s = [] \<Longrightarrow> \<exists>w s'. rd_next (plain_range_data (Suc k)) s v = Some (False, w, s') \<and> True \<and> ?rest s' = []"
    using r p by (auto simp: plain_range_data_def split: if_splits)
  show "?rest s = x # xs \<Longrightarrow> \<exists>s'. rd_init (plain_range_data (Suc k)) s v = Some (True, Some x, s') \<and> True \<and> ?rest s' = xs"
    "?rest s = x # xs \<Longrightarrow> \<exists>s'. rd_next (plain_range_data (Suc k)) s v = Some (True, Some x, s') \<and> True \<and> ?rest s' = xs"
    using r p by (auto simp: plain_range_data_def split: if_splits)
qed

text \<open>A loop over the range of a readable log visits the whole records of its file, once.\<close>

lemma plain_log_items:
  assumes "0 < sz" "map_of (d_files d) path \<noteq> None" "d_readable d path"
  shows "\<exists>s'. range_items (plain_range sz) (mk_plain_range_state d path v) = Some (chunks sz (file_bytes d path), s') \<and>
    (\<exists>s''. range_items (plain_range sz) s' = Some ([], s''))"
proof -
  obtain k where sz: "sz = Suc k" using assms(1) by (cases sz) auto
  obtain s' where s': "range_items (Some (plain_range_data (Suc k))) (mk_plain_range_state d path v) =
      Some (stream_rest (Suc k) (prs_disk (mk_plain_range_state d path v)) (pr_file (prs_reader (mk_plain_range_state d path v))), s')"
    "stream_rest (Suc k) (prs_disk s') (pr_file (prs_reader s')) = []"
    using plain_log.items_once[of k "mk_plain_range_state d path v"] by blast
  obtain s'' where "range_items (Some (plain_range_data (Suc k))) s' =
      Some (stream_rest (Suc k) (prs_disk s') (pr_file (prs_reader s')), s'')"
    using plain_log.items_once[of k s'] by blast
  then show ?thesis
    using s' assms(2,3) by (auto simp: sz plain_range_def mk_plain_range_state_def mk_plain_reader_def fopen_rb_def stream_rest_def)
qed

section \<open>Writing a plain log\<close>

definition plain_append_all :: "string \<Rightarrow> byte list list \<Rightarrow> plain_writer \<Rightarrow> disk \<Rightarrow> disk" where
  "plain_append_all err items w d = fold (\<lambda>item d. snd (plain_append err Written item w d)) items d"

lemma append_file_frame [simp]:
  "map_of (d_files (append_file d p bs)) q \<noteq> None \<longleftrightarrow> q = p \<or> map_of (d_files d) q \<noteq> None"
  "d_readable (append_file d p bs) = d_readable d"
  by (auto simp: append_file_def update_conv')

lemma plain_append_disk: "snd (plain_append err r item w d) = append_file d (pw_path w) (written_bytes r item)"
  by (simp add: plain_append_def)

lemma plain_append_all:
  "file_bytes (plain_append_all err items w d) (pw_path w) = file_bytes d (pw_path w) @ concat items"
  "d_readable (plain_append_all err items w d) = d_readable d"
  "map_of (d_files d) (pw_path w) \<noteq> None \<Longrightarrow> map_of (d_files (plain_append_all err items w d)) (pw_path w) \<noteq> None"
  by (induction items arbitrary: d) (simp_all add: plain_append_all_def plain_append_disk written_bytes_def del: not_None_eq)

lemma mk_plain_writer_file:
  assumes "mk_plain_writer err d path = Inr (w, d')"
  shows "pw_path w = path" "file_bytes d' q = file_bytes d q" "d_readable d' = d_readable d"
    "map_of (d_files d') path \<noteq> None"
  using assms by (auto simp: mk_plain_writer_def fopen_ab_def file_bytes_def update_conv' split: if_splits)


section \<open>Reading a rotating log\<close>

text \<open>The items that up to \<open>n\<close> calls of \<open>next\<close> give.\<close>

fun rotating_take ::
  "bool \<Rightarrow> string \<Rightarrow> nat \<Rightarrow> disk \<Rightarrow> nat \<Rightarrow> rotating_reader \<Rightarrow> byte list \<Rightarrow> byte list list option" where
  "rotating_take returns err sz d 0 r item = Some []"
| "rotating_take returns err sz d (Suc n) r item =
     (case rotating_next returns err sz d r item of
        Some (Inr (True, item, r)) \<Rightarrow> map_option ((#) item) (rotating_take returns err sz d n r item)
      | Some (Inr (False, item, r)) \<Rightarrow> Some []
      | _ \<Rightarrow> None)"

definition rotating_rest :: "nat \<Rightarrow> disk \<Rightarrow> rotating_reader \<Rightarrow> byte list list" where
  "rotating_rest sz d r = stream_rest sz d (rr_file r) @
     concat (map (\<lambda>p. chunks sz (file_bytes d p)) (drop (rr_paths_it r) (rr_paths r)))"

definition rotating_inv :: "disk \<Rightarrow> rotating_reader \<Rightarrow> bool" where
  "rotating_inv d r = (\<forall>p \<in> set (drop (rr_paths_it r) (rr_paths r)). fopen_rb d p \<noteq> None)"

lemma rotate_file_cases:
  assumes "rotating_inv d r" "rr_file r = None"
  shows "if length (rr_paths r) \<le> rr_paths_it r
    then rotate_file err d r = Some (Inr (False, r)) \<and> rotating_rest sz d r = []
    else \<exists>r'. rotate_file err d r = Some (Inr (True, r')) \<and> rr_file r' \<noteq> None \<and> rotating_inv d r' \<and>
      rotating_rest sz d r' = rotating_rest sz d r"
proof (cases "length (rr_paths r) \<le> rr_paths_it r")
  case False
  let ?i = "rr_paths_it r"
  have dr: "drop ?i (rr_paths r) = rr_paths r ! ?i # drop (?i + 1) (rr_paths r)"
    using False nth_drop_Cons[of ?i "rr_paths r"] by simp
  then obtain st where st: "fopen_rb d (rr_paths r ! ?i) = Some st" using assms(1) by (auto simp: rotating_inv_def)
  then have "stream_rest sz d (Some st) = chunks sz (file_bytes d (rr_paths r ! ?i))"
    by (auto simp: fopen_rb_def stream_rest_def split: if_splits)
  then have "rotating_rest sz d (r\<lparr>rr_file := Some st, rr_paths_it := ?i + 1\<rparr>) = rotating_rest sz d r"
    unfolding rotating_rest_def using assms(2) dr by (simp add: stream_rest_def)
  moreover have "rotating_inv d (r\<lparr>rr_file := Some st, rr_paths_it := ?i + 1\<rparr>)"
    using assms(1) dr by (simp add: rotating_inv_def)
  ultimately show ?thesis using False assms(2) st by (auto simp: rotate_file_def)
qed (use assms(2) in \<open>simp add: rotate_file_def rotating_rest_def stream_rest_def\<close>)

lemma rotating_read_rest:
  assumes "0 < sz" "rotating_inv d r" "rr_file r \<noteq> None"
  shows "\<exists>ok item' r'. rotating_read True err sz d r item = Some (Inr (ok, item', r')) \<and> rotating_inv d r' \<and>
    rotating_rest sz d r = (if ok then item' # rotating_rest sz d r' else [])"
  using assms(2,3)
proof (induction "Suc (length (rr_paths r)) - rr_paths_it r" arbitrary: r item rule: less_induct)
  case less
  obtain st where st: "rr_file r = Some st" using less.prems(2) by auto
  obtain n item' st' where f: "fread1 sz d st item = (n, item', st')" by (metis prod_cases3)
  note rest = fread1_rest[OF assms(1) f]
  show ?case
  proof (cases "n = 1")
    case True
    then have "rotating_read True err sz d r item = Some (Inr (True, item', r\<lparr>rr_file := Some st'\<rparr>))"
      by (subst rotating_read.simps) (simp add: st f)
    then show ?thesis using less.prems(1) rest True by (intro exI[of _ True] exI[of _ item'] exI) (auto simp: rotating_inv_def rotating_rest_def st)
  next
    case False
    let ?r = "r\<lparr>rr_file := None\<rparr>"
    have inv: "rotating_inv d ?r" "rr_file ?r = None" using less.prems(1) by (simp_all add: rotating_inv_def)
    have same: "rotating_rest sz d r = rotating_rest sz d ?r"
      using rest(1) False by (simp add: rotating_rest_def st, simp add: stream_rest_def)
    have step: "rotating_read True err sz d r item = (case rotate_file err d ?r of None \<Rightarrow> None
        | Some (Inl e) \<Rightarrow> Some (Inl e)
        | Some (Inr (ok, r)) \<Rightarrow> if ok then rotating_read True err sz d r item' else Some (Inr (False, item', r)))"
      using False by (subst rotating_read.simps) (simp add: st f close_file_def)
    show ?thesis
    proof (cases "length (rr_paths r) \<le> rr_paths_it r")
      case True
      then have "rotate_file err d ?r = Some (Inr (False, ?r))" "rotating_rest sz d ?r = []"
        using rotate_file_cases[OF inv, of err sz] by simp_all
      then show ?thesis using step inv(1) same by (intro exI[of _ False]) simp
    next
      case f': False
      then obtain r' where r': "rotate_file err d ?r = Some (Inr (True, r'))" "rr_file r' \<noteq> None" "rotating_inv d r'"
        "rotating_rest sz d r' = rotating_rest sz d ?r"
        using rotate_file_cases[OF inv, of err sz] by auto
      have "Suc (length (rr_paths r')) - rr_paths_it r' < Suc (length (rr_paths r)) - rr_paths_it r"
        using r'(1) f' by (auto simp: rotate_file_def Let_def split: if_splits)
      from less.hyps[OF this r'(3,2), of item'] show ?thesis using step r'(1,4) same by simp
    qed
  qed
qed

lemma rotating_next_rest:
  assumes "0 < sz" "rotating_inv d r"
  shows "\<exists>ok item' r'. rotating_next True err sz d r item = Some (Inr (ok, item', r')) \<and> rotating_inv d r' \<and>
    rotating_rest sz d r = (if ok then item' # rotating_rest sz d r' else [])"
proof (cases "rr_file r")
  case None
  show ?thesis
  proof (cases "length (rr_paths r) \<le> rr_paths_it r")
    case True
    then have "rotate_file err d r = Some (Inr (False, r))" "rotating_rest sz d r = []"
      using rotate_file_cases[OF assms(2) None, of err sz] by simp_all
    then show ?thesis using assms(2) by (auto simp: rotating_next_def)
  next
    case False
    then obtain r' where r': "rotate_file err d r = Some (Inr (True, r'))" "rr_file r' \<noteq> None" "rotating_inv d r'"
      "rotating_rest sz d r' = rotating_rest sz d r"
      using rotate_file_cases[OF assms(2) None, of err sz] by auto
    then show ?thesis using rotating_read_rest[OF assms(1) r'(3,2), of err item] by (simp add: rotating_next_def)
  qed
next
  case (Some st)
  then have "rotate_file err d r = Some (Inr (True, r))" by (simp add: rotate_file_def)
  then show ?thesis using rotating_read_rest[OF assms, of err item] Some by (simp add: rotating_next_def)
qed

lemma rotating_take_rest:
  assumes "0 < sz" "rotating_inv d r"
  shows "rotating_take True err sz d n r item = Some (take n (rotating_rest sz d r))"
  using assms(2)
proof (induction n arbitrary: r item)
  case (Suc n)
  obtain ok item' r' where "rotating_next True err sz d r item = Some (Inr (ok, item', r'))" "rotating_inv d r'"
    "rotating_rest sz d r = (if ok then item' # rotating_rest sz d r' else [])"
    using rotating_next_rest[OF assms(1) Suc.prems] by blast
  then show ?case using Suc.IH[of r' item'] by (cases ok) simp_all
qed simp

text \<open>Where \<open>close_file\<close> does not return, only the first file can be read.\<close>

lemma rotating_take_first:
  assumes "0 < sz" "rr_file r = Some st"
  shows "rotating_take False err sz d n r item =
    (if n \<le> length (stream_rest sz d (Some st)) then Some (take n (stream_rest sz d (Some st))) else None)"
  using assms(2)
proof (induction n arbitrary: r st item)
  case (Suc n)
  obtain m item' st' where f: "fread1 sz d st item = (m, item', st')" by (metis prod_cases3)
  note rest = fread1_rest[OF assms(1) f]
  have "rotating_next False err sz d r item = rotating_read False err sz d r item"
    using Suc.prems by (simp add: rotating_next_def rotate_file_def)
  also have "\<dots> = (if m = 1 then Some (Inr (True, item', r\<lparr>rr_file := Some st'\<rparr>)) else None)"
    by (subst rotating_read.simps) (simp add: Suc.prems f close_file_def)
  finally show ?case using rest Suc.IH[of "r\<lparr>rr_file := Some st'\<rparr>" st' item'] by simp
qed simp


section \<open>Properties\<close>

lemma mk_plain_writer_total:
  assumes "d_writable d path"
  obtains w d' where "mk_plain_writer err d path = Inr (w, d')"
proof -
  let ?d' = "d\<lparr>d_files := AList.update path (file_bytes d path) (d_files d)\<rparr>"
  have d': "fopen_ab d path = Some ?d'" unfolding fopen_ab_def using assms by (rule if_P)
  have "mk_plain_writer err d path = Inr (\<lparr>pw_path = path\<rparr>, ?d')"
    unfolding mk_plain_writer_def d' option.case by (rule refl)
  then show ?thesis by (rule that)
qed

definition empty_disk :: disk where
  "empty_disk = \<lparr>d_files = [], d_directories = [''/log''], d_readable = (\<lambda>p. True), d_writable = (\<lambda>p. True)\<rparr>"

text \<open>
  C21: Records of any type that keeps the codec contract, appended to a new plain log, are read
  back by the range of the log as they were, in order. A second loop over the same range
  visits nothing, because the range does not rewind its file.
\<close>

theorem plain_log_roundtrip:
  assumes "codec enc decode sz ok" "list_all ok items"
    and "mk_plain_writer err d path = Inr (w, d')" "file_bytes d path = []" "d_readable d path"
  shows "\<exists>s s'. range_items (fst (plain_get sz w d' v)) (snd (plain_get sz w (plain_append_all err (map enc items) w d') v)) =
      Some (map enc items, s) \<and> map decode (map enc items) = map Some items \<and>
    range_items (fst (plain_get sz w d' v)) s = Some ([], s')"
proof -
  let ?d = "plain_append_all err (map enc items) w d'"
  note w = mk_plain_writer_file[OF assms(3)]
  have c: "chunks sz (concat (map enc items)) = map enc items"
    using codec.chunks_encoded[OF assms(1,2), of "[]"] by simp
  have f: "file_bytes ?d path = concat (map enc items)"
    using plain_append_all(1)[of err "map enc items" w d'] unfolding w(1) w(2) assms(4) by simp
  have rd: "d_readable ?d path" unfolding plain_append_all(2) w(3) by (rule assms(5))
  have m: "map_of (d_files ?d) path \<noteq> None"
    by (rule plain_append_all(3)[of d' w err "map enc items", unfolded w(1)]) (rule w(4))
  obtain s s' where "range_items (plain_range sz) (mk_plain_range_state ?d path v) = Some (chunks sz (file_bytes ?d path), s)"
    "range_items (plain_range sz) s = Some ([], s')"
    using plain_log_items[OF codec.sz_pos[OF assms(1)] m rd, of v] by (elim exE conjE)
  note loops = this[unfolded f c]
  have "map decode (map enc items) = map Some items" using codec.decode_all[OF assms(1,2)] by simp
  then show ?thesis
    unfolding plain_get_def w(1) fst_conv snd_conv
    by - (rule exI[of _ s], rule exI[of _ s'], simp only: loops)
qed

theorem plain_log_roundtrip_witness:
  "\<exists>w d' s s'. mk_plain_writer [] empty_disk ''trades'' = Inr (w, d') \<and>
     range_items (fst (plain_get 60 w d' []))
       (snd (plain_get 60 w (plain_append_all [] (map trade_bytes [mk_trade 0, mk_trade NAN]) w d') [])) =
       Some (map trade_bytes [mk_trade 0, mk_trade NAN], s) \<and>
     map decode_trade (map trade_bytes [mk_trade 0, mk_trade NAN]) = map Some [mk_trade 0, mk_trade NAN] \<and>
     range_items (fst (plain_get 60 w d' [])) s = Some ([], s')"
proof -
  obtain w d' where w: "mk_plain_writer [] empty_disk ''trades'' = Inr (w, d')"
    by (rule mk_plain_writer_total[of empty_disk]) (simp add: empty_disk_def)
  have "list_all (\<lambda>t. True) [mk_trade 0, mk_trade NAN]" "file_bytes empty_disk ''trades'' = []" "d_readable empty_disk ''trades''"
    by (simp_all add: empty_disk_def file_bytes_def)
  note r = plain_log_roundtrip[OF trade_codec.codec_axioms this(1) w this(2,3), of "[]"]
  obtain s s' where "range_items (fst (plain_get 60 w d' []))
       (snd (plain_get 60 w (plain_append_all [] (map trade_bytes [mk_trade 0, mk_trade NAN]) w d') [])) =
       Some (map trade_bytes [mk_trade 0, mk_trade NAN], s)"
     "map decode_trade (map trade_bytes [mk_trade 0, mk_trade NAN]) = map Some [mk_trade 0, mk_trade NAN]"
     "range_items (fst (plain_get 60 w d' [])) s = Some ([], s')" using r by (elim exE conjE)
  then show ?thesis
    by - (rule exI[of _ w], rule exI[of _ d'], rule exI[of _ s], rule exI[of _ s'], rule conjI, rule w, simp only: simp_thms)
qed

text \<open>
  An append that fails half way throws, but leaves the beginning of its record in the file:
  the range yields the records before it, and then everything that is appended afterwards cut
  at the wrong places, one record fewer than were appended.
\<close>

theorem plain_log_torn:
  assumes "codec enc decode sz ok" "list_all ok xs" "list_all ok zs" "ok y" "0 < k" "k < sz"
    and "mk_plain_writer err d path = Inr (w, d1)" "file_bytes d path = []" "d_readable d path"
    and "plain_append err (Write_failed k) (enc y) w (plain_append_all err (map enc xs) w d1) = (res, d2)"
  shows "(\<exists>e. res = Inl e \<and> exn_class e = FileException) \<and>
    (\<exists>s rest. range_items (plain_range sz) (mk_plain_range_state (plain_append_all err (map enc zs) w d2) path v) =
      Some (map enc xs @ rest, s) \<and> rest = chunks sz (take k (enc y) @ concat (map enc zs)) \<and> length rest = length zs)"
proof (intro conjI)
  let ?d = "plain_append_all err (map enc zs) w d2" and ?torn = "take k (enc y) @ concat (map enc zs)"
  note w = mk_plain_writer_file[OF assms(7)]
  have res: "res = Inl (mk_exn FileException [''PlainLogWriter could not write to file'', pw_path w, err])"
    "d2 = append_file (plain_append_all err (map enc xs) w d1) (pw_path w) (take k (enc y))"
    using assms(10) by (simp_all add: plain_append_def written_bytes_def)
  then show "\<exists>e. res = Inl e \<and> exn_class e = FileException" by (simp add: mk_exn_def)
  have f: "file_bytes ?d path = concat (map enc xs) @ ?torn"
    using plain_append_all(1)[of err "map enc zs" w d2] plain_append_all(1)[of err "map enc xs" w d1]
    unfolding w(1) w(2) assms(8) res(2) by (simp only: file_bytes_append append_assoc append_Nil if_True refl)
  have rd: "d_readable ?d path"
    unfolding plain_append_all(2) res(2) append_file_frame w(3) by (rule assms(9))
  have "map_of (d_files d2) path \<noteq> None" unfolding res(2) append_file_frame w(1) by (rule disjI1, rule refl)
  then have m: "map_of (d_files ?d) path \<noteq> None"
    by (rule plain_append_all(3)[of d2 w err "map enc zs", unfolded w(1)])
  obtain s where s: "range_items (plain_range sz) (mk_plain_range_state ?d path v) = Some (chunks sz (file_bytes ?d path), s)"
    using plain_log_items[OF codec.sz_pos[OF assms(1)] m rd, of v] by (elim exE conjE)
  have "length ?torn = k + length zs * sz"
    using assms(5,6) codec.enc_length[OF assms(1,4)] codec.concat_length[OF assms(1,3)] by simp
  then have "length (chunks sz ?torn) = length zs"
    using length_chunks[OF codec.sz_pos[OF assms(1)], of ?torn] assms(6) by simp
  then show "\<exists>s rest. range_items (plain_range sz) (mk_plain_range_state ?d path v) = Some (map enc xs @ rest, s) \<and>
      rest = chunks sz ?torn \<and> length rest = length zs"
    using s unfolding f codec.chunks_encoded[OF assms(1,2)]
    by (intro exI[of _ s] exI[of _ "chunks sz ?torn"]) (rule conjI, assumption, rule conjI, rule refl)
qed

theorem plain_log_torn_witness:
  "\<exists>w d1 s rest. mk_plain_writer [] empty_disk ''orders'' = Inr (w, d1) \<and>
     range_items (plain_range 36) (mk_plain_range_state (plain_append_all [] (map order_bytes [zero_order]) w
       (snd (plain_append [] (Write_failed 4) (order_bytes zero_order) w d1))) ''orders'' []) = Some (rest, s) \<and> length rest = 1"
proof -
  obtain w d1 where w: "mk_plain_writer [] empty_disk ''orders'' = Inr (w, d1)"
    by (rule mk_plain_writer_total[of empty_disk]) (simp add: empty_disk_def)
  have e: "file_bytes empty_disk ''orders'' = []" "d_readable empty_disk ''orders''"
    by (simp_all add: empty_disk_def file_bytes_def)
  obtain res d2 where p: "plain_append [] (Write_failed 4) (order_bytes zero_order) w d1 = (res, d2)" by fastforce
  have z: "plain_append_all [] (map order_bytes []) w d1 = d1" by (simp add: plain_append_all_def)
  have "plain_append [] (Write_failed 4) (order_bytes zero_order) w (plain_append_all [] (map order_bytes []) w d1) = (res, d2)"
    unfolding z by (rule p)
  from plain_log_torn[OF order_codec.codec_axioms _ _ _ _ _ w e this, of "[zero_order]" "[]"]
  obtain rest s where "range_items (plain_range 36) (mk_plain_range_state
      (plain_append_all [] (map order_bytes [zero_order]) w d2) ''orders'' []) = Some (map order_bytes [] @ rest, s)"
    "length rest = length [zero_order]" by (simp del: list.map) blast
  moreover have "d2 = snd (plain_append [] (Write_failed 4) (order_bytes zero_order) w d1)" using p by simp
  ultimately show ?thesis using w by (intro exI conjI) simp_all
qed

text \<open>
  C22: A rotating log is read file by file, in the order of the paths, whole records only, as
  long as \<open>close_file\<close> comes back from its missing return statement; where it does not, the
  reader is undefined as soon as it reaches the end of its first file.
\<close>

theorem rotating_log_reads:
  assumes "0 < sz" "mk_rotating_reader d basepath = Inr r" "\<forall>p \<in> set (rotating_paths d basepath). fopen_rb d p \<noteq> None"
  shows "rotating_take True err sz d n r item =
      Some (take n (concat (map (\<lambda>p. chunks sz (file_bytes d p)) (rotating_paths d basepath)))) \<and>
    (case rotating_paths d basepath of [] \<Rightarrow> True
     | p # ps \<Rightarrow> length (chunks sz (file_bytes d p)) < n \<longrightarrow> rotating_take False err sz d n r item = None)"
proof (intro conjI)
  have r: "rr_paths r = rotating_paths d basepath" "rr_paths_it r = 0" "rr_file r = None"
    using assms(2) by (auto simp: mk_rotating_reader_def split: if_splits)
  have inv: "rotating_inv d r" using assms(3) by (simp add: rotating_inv_def r)
  show "rotating_take True err sz d n r item =
      Some (take n (concat (map (\<lambda>p. chunks sz (file_bytes d p)) (rotating_paths d basepath))))"
    using rotating_take_rest[OF assms(1) inv] by (simp add: rotating_rest_def r stream_rest_def)
  show "case rotating_paths d basepath of [] \<Rightarrow> True
     | p # ps \<Rightarrow> length (chunks sz (file_bytes d p)) < n \<longrightarrow> rotating_take False err sz d n r item = None"
  proof (cases "rotating_paths d basepath")
    case (Cons p ps)
    then obtain st where st: "fopen_rb d p = Some st" using assms(3) by auto
    let ?r = "r\<lparr>rr_file := Some st, rr_paths_it := 1\<rparr>"
    have "stream_rest sz d (Some st) = chunks sz (file_bytes d p)"
      using st by (auto simp: fopen_rb_def stream_rest_def split: if_splits)
    then have t: "rotating_take False err sz d n ?r item = None" if "length (chunks sz (file_bytes d p)) < n" for n
      using rotating_take_first[OF assms(1), of ?r st err d n item] that by simp
    have "rotating_next False err sz d r item = rotating_next False err sz d ?r item"
      using r Cons st by (simp add: rotating_next_def rotate_file_def)
    then have "rotating_take False err sz d n r item = rotating_take False err sz d n ?r item"
      by (cases n) simp_all
    then show ?thesis using t Cons by simp
  qed simp
qed

theorem rotating_log_reads_witness:
  "rotating_take True [] 1
     (empty_disk\<lparr>d_files := [(''/log/b.2'', [2, 3]), (''/log/b.1'', [1]), (''/log/c'', [9])]\<rparr>) 5
     \<lparr>rr_basepath = ''/log/b'', rr_paths = [''/log/b.1'', ''/log/b.2''], rr_paths_it = 0, rr_file = None\<rparr> [0] =
   Some [[1], [2], [3]]"
proof -
  let ?d = "empty_disk\<lparr>d_files := [(''/log/b.2'', [2, 3]), (''/log/b.1'', [1]), (''/log/c'', [9])]\<rparr>"
  let ?r = "\<lparr>rr_basepath = ''/log/b'', rr_paths = [''/log/b.1'', ''/log/b.2''], rr_paths_it = 0, rr_file = None\<rparr>"
  have p: "rotating_paths ?d ''/log/b'' = [''/log/b.1'', ''/log/b.2'']"
    by (simp add: rotating_paths_def parent_path_def has_prefix_def str_less_def)
  have r: "mk_rotating_reader ?d ''/log/b'' = Inr ?r"
    unfolding mk_rotating_reader_def p by (simp add: parent_path_def empty_disk_def)
  have f: "\<forall>p \<in> set (rotating_paths ?d ''/log/b''). fopen_rb ?d p \<noteq> None"
    unfolding p by (simp add: fopen_rb_def empty_disk_def)
  have c: "chunks (Suc 0) [1] = [[1 :: byte]]" "chunks (Suc 0) [2, 3] = [[2 :: byte], [3]]"
    by (simp_all add: chunks.simps)
  show ?thesis
    using rotating_log_reads[OF _ r f, of 1 "[]" 5 "[0]"] unfolding p by (simp add: file_bytes_def c)
qed

end
