(* ===== verification/Directories.thy ===== *)
theory Directories
  imports Logs
begin

text \<open>
  The functions of \<open>src/IO/directories.hpp\<close> on the disk of the log files. The root directory
  always exists; \<open>cwd\<close> is the current directory. A directory can be created where the disk
  allows writing.
\<close>

definition absolute :: "string \<Rightarrow> string \<Rightarrow> string" where
  "absolute cwd p = (if has_prefix ''/'' p then p else if p = [] then cwd else cwd @ ''/'' @ p)"

definition is_directory :: "disk \<Rightarrow> string \<Rightarrow> bool" where
  "is_directory d p = (p = ''/'' \<or> p \<in> set (d_directories d))"

definition path_exists :: "disk \<Rightarrow> string \<Rightarrow> bool" where
  "path_exists d p = (is_directory d p \<or> map_of (d_files d) p \<noteq> None)"

definition create_directory :: "string \<Rightarrow> disk \<Rightarrow> (exn + unit) \<times> disk" where
  "create_directory p d =
     (if d_writable d p then (Inr (), d\<lparr>d_directories := p # d_directories d\<rparr>)
      else (Inl (mk_exn StdException [''filesystem error: cannot create directory'']), d))"

lemma parent_path_shorter:
  assumes "has_prefix ''/'' p" "p \<noteq> ''/''"
  shows "length (parent_path p) < length p" and "has_prefix ''/'' (parent_path p)"
proof -
  obtain q where p: "p = CHR ''/'' # q" "q \<noteq> []" using assms by (cases p) (auto simp: has_prefix_def)
  define dir where "dir = rev (dropWhile (\<lambda>c. c \<noteq> CHR ''/'') (rev p))"
  let ?keep = "\<lambda>c. c \<noteq> CHR ''/''"
  have "dropWhile ?keep (rev p) = dropWhile ?keep (rev q) @ ''/''"
    unfolding p(1) rev.simps by (simp add: dropWhile_append)
  moreover define r where "r = rev (dropWhile ?keep (rev q))"
  ultimately have dir: "dir = CHR ''/'' # r" by (simp add: dir_def)
  have len: "length r \<le> length q"
    unfolding r_def length_rev using length_dropWhile_le[of ?keep "rev q"] by simp
  have pp: "parent_path p = (if r = [] then ''/'' else CHR ''/'' # butlast r)"
    unfolding parent_path_def Let_def dir_def[symmetric] dir by simp
  show "length (parent_path p) < length p"
  proof (cases "r = []")
    case True
    then have "parent_path p = ''/''" using pp by simp
    moreover have "0 < length q" using p(2) by simp
    ultimately show ?thesis by (simp add: p(1)[symmetric] del: length_greater_0_conv) (simp add: p(1))
  next
    case False
    then have "length (parent_path p) = length r" using pp by (cases r rule: rev_cases) simp_all
    then show ?thesis using len by (simp add: p(1))
  qed
  show "has_prefix ''/'' (parent_path p)" unfolding pp by (simp add: has_prefix_def)
qed

text \<open>A missing directory is created after its parents.\<close>

function make_abs_directory :: "string \<Rightarrow> disk \<Rightarrow> (exn + unit) \<times> disk" where
  "make_abs_directory p d =
     (if is_directory d p \<or> \<not> has_prefix ''/'' p then (Inr (), d)
      else if path_exists d p
      then (Inl (mk_exn FileException
        [''Could not create directory `'' @ p @ ''`, path exists as something else than a directory'']), d)
      else case make_abs_directory (parent_path p) d of
             (Inl e, d) \<Rightarrow> (Inl e, d)
           | (Inr _, d) \<Rightarrow> create_directory p d)"
  by pat_completeness auto
termination
  by (relation "measure (\<lambda>(p, d). length p)") (auto simp: is_directory_def parent_path_shorter)

declare make_abs_directory.simps [simp del]

definition make_directory :: "string \<Rightarrow> string \<Rightarrow> disk \<Rightarrow> (exn + unit) \<times> disk" where
  "make_directory cwd p d = make_abs_directory (absolute cwd p) d"

definition extract_directory :: "string \<Rightarrow> string \<Rightarrow> string" where
  "extract_directory cwd p = parent_path (absolute cwd p)"

text \<open>
  The directory exists after a call that does not throw; the call adds directories only.
\<close>

lemma make_abs_directory_made:
  "make_abs_directory p d = (Inr (), d') \<Longrightarrow> has_prefix ''/'' p \<Longrightarrow> is_directory d' p \<and>
    set (d_directories d) \<subseteq> set (d_directories d') \<and> d_files d' = d_files d"
proof (induction p d arbitrary: d' rule: make_abs_directory.induct)
  case (1 p d)
  show ?case
  proof (cases "is_directory d p \<or> path_exists d p")
    case True
    then show ?thesis using "1.prems" by (subst (asm) make_abs_directory.simps) (auto split: if_splits)
  next
    case False
    then have p: "p \<noteq> ''/''" by (simp add: is_directory_def)
    obtain r d1 where m: "make_abs_directory (parent_path p) d = (r, d1)" by fastforce
    from "1.prems"(1) have "(case r of Inl e \<Rightarrow> (Inl e, d1) | Inr _ \<Rightarrow> create_directory p d1) = (Inr (), d')"
      using False "1.prems"(2) by (subst (asm) make_abs_directory.simps) (simp add: m split: sum.splits)
    then have "r = Inr ()" and c: "create_directory p d1 = (Inr (), d')" by (auto split: sum.splits)
    then have "set (d_directories d) \<subseteq> set (d_directories d1) \<and> d_files d1 = d_files d"
      using "1.IH"[of d1] False "1.prems"(2) m parent_path_shorter(2)[OF "1.prems"(2) p] by simp
    then show ?thesis using c by (auto simp: create_directory_def is_directory_def split: if_splits)
  qed
qed

end
