(* ===== verification/Upscale.thy ===== *)
theory Upscale
  imports Directories
begin

text \<open>
  The database of \<open>src/db/UpscaleBTree.hpp\<close>: a B-tree of the library upscaledb with duplicate
  keys, the ranges over it, insertion, counting and the extreme keys.

  The library is not part of the repository: its functions are the parameter \<open>ups\<close>, over a
  type of library states; what the code relies on is the locale \<open>ups_store\<close>, which lets every
  call fail. A call that does not succeed leaves the buffers of its caller alone. A call in
  conflict with a transaction is repeated until it is not, so every operation may run forever:
  \<open>None\<close>.
\<close>

section \<open>The library\<close>

datatype ups_status = UPS_SUCCESS | UPS_INV_PARAMETER | UPS_KEY_NOT_FOUND | UPS_DUPLICATE_KEY | UPS_FILE_NOT_FOUND
  | UPS_DATABASE_ALREADY_EXISTS | UPS_CURSOR_IS_NIL | UPS_TXN_CONFLICT | UPS_OTHER int

datatype cursor_move = UPS_CURSOR_FIRST | UPS_CURSOR_LAST | UPS_CURSOR_NEXT | UPS_CURSOR_PREVIOUS
datatype cursor_find = UPS_FIND_EQ_MATCH | UPS_FIND_GEQ_MATCH | UPS_FIND_GT_MATCH

datatype ups_key_type = UPS_TYPE_BINARY | UPS_TYPE_UINT8 | UPS_TYPE_UINT16 | UPS_TYPE_UINT32 | UPS_TYPE_UINT64
  | UPS_TYPE_REAL32 | UPS_TYPE_REAL64

text \<open>A function of the library returns its status, what it writes to its arguments and the new state.\<close>

type_synonym ('d, 'o) ups_fun = "'d \<Rightarrow> ups_status \<times> 'o \<times> 'd"

record ('d, 'k, 'r) ups =
  ups_env_open :: "string \<Rightarrow> bool \<Rightarrow> nat \<Rightarrow> ('d, unit) ups_fun"
  ups_env_create :: "string \<Rightarrow> bool \<Rightarrow> nat \<Rightarrow> nat \<Rightarrow> ('d, unit) ups_fun"
  ups_env_create_db :: "bool \<Rightarrow> ups_key_type \<Rightarrow> nat option \<Rightarrow> ('d, unit) ups_fun"
  ups_env_open_db :: "('d, unit) ups_fun"
  ups_env_close :: "('d, unit) ups_fun"
  ups_txn_begin :: "string \<Rightarrow> ('d, nat) ups_fun"
  ups_txn_commit :: "nat \<Rightarrow> ('d, unit) ups_fun"
  ups_txn_abort :: "nat \<Rightarrow> ('d, unit) ups_fun"
  ups_db_insert :: "bool \<Rightarrow> 'k \<times> 'r \<Rightarrow> ('d, unit) ups_fun"
  ups_cursor_create :: "nat \<Rightarrow> ('d, nat) ups_fun"
  ups_cursor_close :: "nat \<Rightarrow> ('d, unit) ups_fun"
  ups_cursor_move :: "nat \<Rightarrow> cursor_move \<Rightarrow> ('d, 'k \<times> 'r) ups_fun"
  ups_cursor_find :: "nat \<Rightarrow> cursor_find \<Rightarrow> 'k \<Rightarrow> ('d, 'k \<times> 'r) ups_fun"

section \<open>Calls, exceptions and sequences\<close>

text \<open>
  \<open>UpscaleDBException\<close> carries the method and the status; its message also shows the addresses
  that the call was given.
\<close>

datatype 'k db_error = Ups_error string ups_status | Duplicate_error 'k | Other_error exn

type_synonym ('d, 'k, 'a) action = "'d \<Rightarrow> (('k db_error + 'a) \<times> 'd) option"

definition db_return :: "'a \<Rightarrow> ('d, 'k, 'a) action" where
  "db_return x = (\<lambda>d. Some (Inr x, d))"

definition db_throw :: "'k db_error \<Rightarrow> ('d, 'k, 'a) action" where
  "db_throw e = (\<lambda>d. Some (Inl e, d))"

definition db_bind :: "('d, 'k, 'a) action \<Rightarrow> ('a \<Rightarrow> ('d, 'k, 'b) action) \<Rightarrow> ('d, 'k, 'b) action" where
  "db_bind m f = (\<lambda>d. case m d of None \<Rightarrow> None
     | Some (Inl e, d) \<Rightarrow> Some (Inl e, d)
     | Some (Inr x, d) \<Rightarrow> f x d)"

definition db_catch :: "('d, 'k, 'a) action \<Rightarrow> ('k db_error \<Rightarrow> ('d, 'k, 'a) action) \<Rightarrow> ('d, 'k, 'a) action" where
  "db_catch m h = (\<lambda>d. case m d of None \<Rightarrow> None
     | Some (Inl e, d) \<Rightarrow> h e d
     | Some (Inr x, d) \<Rightarrow> Some (Inr x, d))"

text \<open>The macro \<open>UPS_SAFE_CALL\<close>.\<close>

partial_function (option) safe_call :: "('d, 'o) ups_fun \<Rightarrow> 'd \<Rightarrow> (ups_status \<times> 'o \<times> 'd) option" where
  "safe_call f d = (case f d of (status, out, d) \<Rightarrow>
     if status = UPS_TXN_CONFLICT then safe_call f d else Some (status, out, d))"

definition ups_safe_call :: "string \<Rightarrow> ('d, 'o) ups_fun \<Rightarrow> ('d, 'k, 'o) action" where
  "ups_safe_call method f = (\<lambda>d. map_option (\<lambda>(status, out, d).
     (if status = UPS_SUCCESS then Inr out else Inl (Ups_error method status), d)) (safe_call f d))"

text \<open>The statuses that mean that there is no such entry.\<close>

definition no_entry :: "'k db_error \<Rightarrow> bool" where
  "no_entry e = (case e of Ups_error m s \<Rightarrow> s \<in> {UPS_KEY_NOT_FOUND, UPS_INV_PARAMETER, UPS_CURSOR_IS_NIL} | _ \<Rightarrow> False)"

definition no_next :: "'k db_error \<Rightarrow> bool" where
  "no_next e = (case e of Ups_error m s \<Rightarrow> s \<in> {UPS_KEY_NOT_FOUND, UPS_INV_PARAMETER} | _ \<Rightarrow> False)"

section \<open>Ranges\<close>

text \<open>The cursor is not initialised before \<open>init\<close>: \<open>None\<close>.\<close>

record ('k, 'r) ubt_range =
  ubr_is_reverse :: bool
  ubr_is_fullrange :: bool
  ubr_is_point :: bool
  ubr_key :: 'k
  ubr_record :: 'r
  ubr_key_begin :: 'k
  ubr_key_end :: 'k
  ubr_txn :: nat
  ubr_cursor :: "nat option"

text \<open>\<open>key\<close> and \<open>record\<close> are what default constructors give.\<close>

definition mk_full_range :: "nat \<Rightarrow> 'k \<Rightarrow> 'r \<Rightarrow> ('k, 'r) ubt_range" where
  "mk_full_range txn key record = \<lparr>ubr_is_reverse = False, ubr_is_fullrange = True, ubr_is_point = False, ubr_key = key,
     ubr_record = record, ubr_key_begin = key, ubr_key_end = key, ubr_txn = txn, ubr_cursor = None\<rparr>"

definition mk_interval_range ::
  "('k \<Rightarrow> 'k \<Rightarrow> bool) \<Rightarrow> ('k \<Rightarrow> 'k \<Rightarrow> bool) \<Rightarrow> nat \<Rightarrow> 'r \<Rightarrow> 'k \<Rightarrow> 'k \<Rightarrow> ('k, 'r) ubt_range" where
  "mk_interval_range eq lt txn record key_begin key_end =
     \<lparr>ubr_is_reverse = lt key_end key_begin, ubr_is_fullrange = False, ubr_is_point = eq key_begin key_end, ubr_key = key_begin,
      ubr_record = record, ubr_key_begin = key_begin, ubr_key_end = key_end, ubr_txn = txn, ubr_cursor = None\<rparr>"

text \<open>The destructor closes the cursor, also one that was never created.\<close>

definition ubr_destroy :: "('d, 'k, 'r) ups \<Rightarrow> ('k, 'r) ubt_range \<Rightarrow> 'd \<Rightarrow> 'd option" where
  "ubr_destroy U s d = (case ubr_cursor s of None \<Rightarrow> None
     | Some c \<Rightarrow> Some (snd (snd (ups_cursor_close U c d))))"

text \<open>
  \<open>init\<close> starts a bounded range with \<open>find\<close> from the key that the object holds, which is the
  bound only the first time.
\<close>

definition ubr_start :: "('d, 'k, 'r) ups \<Rightarrow> ('k, 'r) ubt_range \<Rightarrow> nat \<Rightarrow> ('d, 'k, 'k \<times> 'r) action" where
  "ubr_start U s c =
     (if ubr_is_fullrange s then ups_safe_call ''ups_cursor_move'' (ups_cursor_move U c UPS_CURSOR_FIRST)
      else ups_safe_call ''ups_cursor_find'' (ups_cursor_find U c
        (if ubr_is_point s then UPS_FIND_EQ_MATCH else if ubr_is_reverse s then UPS_FIND_GEQ_MATCH else UPS_FIND_GT_MATCH)
        (ubr_key s)))"

definition ubr_init :: "('d, 'k, 'r) ups \<Rightarrow> ('k, 'r) ubt_range \<Rightarrow> ('d, 'k, bool \<times> ('k, 'r) ubt_range) action" where
  "ubr_init U s =
     db_bind (ups_safe_call ''ups_cursor_create'' (ups_cursor_create U (ubr_txn s))) (\<lambda>c.
     let s = s\<lparr>ubr_cursor := Some c\<rparr>
     in db_catch
          (db_bind (ubr_start U s c) (\<lambda>(k, r). db_return (True, s\<lparr>ubr_key := k, ubr_record := r\<rparr>)))
          (\<lambda>e. if no_entry e then db_return (False, s) else db_throw e))"

definition ubr_beyond :: "('k \<Rightarrow> 'k \<Rightarrow> bool) \<Rightarrow> ('k, 'r) ubt_range \<Rightarrow> bool" where
  "ubr_beyond lt s =
     ((\<not> ubr_is_fullrange s \<and> (\<not> ubr_is_reverse s \<and> lt (ubr_key_end s) (ubr_key s))) \<or>
      (ubr_is_reverse s \<and> lt (ubr_key s) (ubr_key_end s)))"

definition ubr_next ::
  "('k \<Rightarrow> 'k \<Rightarrow> bool) \<Rightarrow> ('d, 'k, 'r) ups \<Rightarrow> ('k, 'r) ubt_range \<Rightarrow> ('d, 'k, bool \<times> ('k, 'r) ubt_range) action" where
  "ubr_next lt U s =
     (case ubr_cursor s of None \<Rightarrow> (\<lambda>d. None)
      | Some c \<Rightarrow> db_catch
          (db_bind (ups_safe_call ''ups_cursor_move'' (ups_cursor_move U c
             (if ubr_is_reverse s then UPS_CURSOR_PREVIOUS else UPS_CURSOR_NEXT))) (\<lambda>(k, r).
           let s = s\<lparr>ubr_key := k, ubr_record := r\<rparr> in db_return (\<not> ubr_beyond lt s, s)))
          (\<lambda>e. if no_next e then db_return (False, s) else db_throw e))"

text \<open>As range data, over the object and the library; an exception leaves a loop without a result.\<close>

definition ubr_read ::
  "('d, 'k, bool \<times> ('k, 'r) ubt_range) action \<Rightarrow> 'd \<Rightarrow> (bool \<times> 'r option \<times> ('k, 'r) ubt_range \<times> 'd) option" where
  "ubr_read m d = (case m d of Some (Inr (ok, s), d) \<Rightarrow> Some (ok, Some (ubr_record s), s, d) | _ \<Rightarrow> None)"

definition ubt_range_data ::
  "('k \<Rightarrow> 'k \<Rightarrow> bool) \<Rightarrow> ('d, 'k, 'r) ups \<Rightarrow> (('k, 'r) ubt_range \<times> 'd, 'r) range_data" where
  "ubt_range_data lt U = \<lparr>
     rd_init = (\<lambda>(s, d) value. ubr_read (ubr_init U s) d),
     rd_next = (\<lambda>(s, d) value. ubr_read (ubr_next lt U s) d)\<rparr>"

section \<open>The tree\<close>

text \<open>The types of keys, as \<open>get_ups_key_type\<close> maps them; a \<open>struct\<close> key is binary.\<close>

datatype key_class = Key_int8 | Key_uint8 | Key_int16 | Key_uint16 | Key_int32 | Key_uint32 | Key_int64 | Key_uint64
  | Key_float | Key_double | Key_Timestamp | Key_struct nat

fun get_ups_key_type :: "key_class \<Rightarrow> ups_key_type" where
  "get_ups_key_type Key_int8 = UPS_TYPE_UINT8"
| "get_ups_key_type Key_uint8 = UPS_TYPE_UINT8"
| "get_ups_key_type Key_int16 = UPS_TYPE_UINT16"
| "get_ups_key_type Key_uint16 = UPS_TYPE_UINT16"
| "get_ups_key_type Key_int32 = UPS_TYPE_UINT32"
| "get_ups_key_type Key_uint32 = UPS_TYPE_UINT32"
| "get_ups_key_type Key_int64 = UPS_TYPE_UINT64"
| "get_ups_key_type Key_uint64 = UPS_TYPE_UINT64"
| "get_ups_key_type Key_float = UPS_TYPE_REAL32"
| "get_ups_key_type Key_double = UPS_TYPE_REAL64"
| "get_ups_key_type Key_Timestamp = UPS_TYPE_REAL64"
| "get_ups_key_type (Key_struct n) = UPS_TYPE_BINARY"

definition key_size :: "key_class \<Rightarrow> nat option" where
  "key_size c = (case c of Key_struct n \<Rightarrow> Some n | _ \<Rightarrow> None)"

record ubt =
  ubt_path :: string
  ubt_allow_duplicates :: bool
  ubt_autocommit :: bool
  ubt_cache_size :: nat
  ubt_read_txn :: nat

text \<open>The constructor, after the directory has been made.\<close>

definition ubt_open_env :: "('d, 'k, 'r) ups \<Rightarrow> string \<Rightarrow> bool \<Rightarrow> nat \<Rightarrow> ('d, 'k, unit) action" where
  "ubt_open_env U path autocommit cache_size =
     db_catch (ups_safe_call ''ups_env_open'' (ups_env_open U path autocommit cache_size))
       (\<lambda>e. case e of
          Ups_error m UPS_FILE_NOT_FOUND \<Rightarrow>
            ups_safe_call ''ups_env_create'' (ups_env_create U path autocommit cache_size 4096)
        | _ \<Rightarrow> db_throw e)"

definition ubt_open_db :: "('d, 'k, 'r) ups \<Rightarrow> key_class \<Rightarrow> bool \<Rightarrow> ('d, 'k, unit) action" where
  "ubt_open_db U key allow_duplicates =
     db_catch (ups_safe_call ''ups_env_create_db'' (ups_env_create_db U allow_duplicates (get_ups_key_type key) (key_size key)))
       (\<lambda>e. case e of
          Ups_error m UPS_DATABASE_ALREADY_EXISTS \<Rightarrow> ups_safe_call ''ups_env_open_db'' (ups_env_open_db U)
        | _ \<Rightarrow> db_throw e)"

definition mk_ubt ::
  "('d, 'k, 'r) ups \<Rightarrow> string \<Rightarrow> key_class \<Rightarrow> string \<Rightarrow> bool \<Rightarrow> nat \<Rightarrow> bool \<Rightarrow> (disk \<times> 'd, 'k, ubt) action" where
  "mk_ubt U cwd key path allow_duplicates cache_size autocommit = (\<lambda>(disk, d).
     case make_directory cwd (extract_directory cwd path) disk of
       (Inl e, disk) \<Rightarrow> Some (Inl (Other_error e), disk, d)
     | (Inr _, disk) \<Rightarrow> map_option (\<lambda>(r, d). (r, disk, d)) (
         db_bind (ubt_open_env U path autocommit cache_size) (\<lambda>_.
         db_bind (ubt_open_db U key allow_duplicates) (\<lambda>_.
         db_bind (ups_safe_call ''ups_txn_begin'' (ups_txn_begin U ''READER'')) (\<lambda>txn.
         db_return \<lparr>ubt_path = path, ubt_allow_duplicates = allow_duplicates, ubt_autocommit = autocommit,
           ubt_cache_size = cache_size, ubt_read_txn = txn\<rparr>))) d))"

definition ubt_destroy :: "('d, 'k, 'r) ups \<Rightarrow> ubt \<Rightarrow> 'd \<Rightarrow> 'd" where
  "ubt_destroy U t d = snd (snd (ups_env_close U (snd (snd (ups_txn_abort U (ubt_read_txn t) d)))))"

text \<open>The transaction that \<open>insert\<close> begins is not the one that it inserts in.\<close>

definition ubt_insert :: "('d, 'k, 'r) ups \<Rightarrow> ubt \<Rightarrow> 'k \<Rightarrow> 'r \<Rightarrow> ('d, 'k, unit) action" where
  "ubt_insert U t key record =
     db_bind (ups_safe_call ''ups_txn_begin'' (ups_txn_begin U ''WRITER'')) (\<lambda>txn.
     db_bind (db_catch
       (ups_safe_call ''ups_db_insert'' (ups_db_insert U (ubt_allow_duplicates t) (key, record)))
       (\<lambda>e. case e of Ups_error m UPS_DUPLICATE_KEY \<Rightarrow> db_throw (Duplicate_error key) | _ \<Rightarrow> db_throw e)) (\<lambda>_.
     ups_safe_call ''ups_txn_commit'' (ups_txn_commit U txn)))"

definition ubt_get :: "ubt \<Rightarrow> 'k \<Rightarrow> 'r \<Rightarrow> ('k, 'r) ubt_range" where
  "ubt_get t key record = mk_full_range (ubt_read_txn t) key record"

definition ubt_get_interval ::
  "('k \<Rightarrow> 'k \<Rightarrow> bool) \<Rightarrow> ('k \<Rightarrow> 'k \<Rightarrow> bool) \<Rightarrow> ubt \<Rightarrow> 'r \<Rightarrow> 'k \<Rightarrow> 'k \<Rightarrow> ('k, 'r) ubt_range" where
  "ubt_get_interval eq lt t record key_begin key_end =
     mk_interval_range eq lt (ubt_read_txn t) record key_begin key_end"

definition ubt_get_key :: "('k \<Rightarrow> 'k \<Rightarrow> bool) \<Rightarrow> ('k \<Rightarrow> 'k \<Rightarrow> bool) \<Rightarrow> ubt \<Rightarrow> 'r \<Rightarrow> 'k \<Rightarrow> ('k, 'r) ubt_range" where
  "ubt_get_key eq lt t record key = ubt_get_interval eq lt t record key key"

text \<open>
  The loop of \<open>count\<close>: from the first entry not below the key, until a greater key, counting the
  entries that \<open>hit\<close> accepts.
\<close>

partial_function (option) count_loop ::
  "('k \<Rightarrow> 'k \<Rightarrow> bool) \<Rightarrow> ('d, 'k, 'r) ups \<Rightarrow> nat \<Rightarrow> 'k \<Rightarrow> ('k \<times> 'r \<Rightarrow> bool) \<Rightarrow> bool \<Rightarrow> nat \<Rightarrow> 'k \<times> 'r \<Rightarrow> 'd \<Rightarrow>
     (('k db_error + nat) \<times> 'd) option" where
  "count_loop lt U c searched hit stop_at_first n entry d =
     (if lt searched (fst entry) then Some (Inr n, d)
      else let n = (if hit entry then n + 1 else n)
      in if hit entry \<and> stop_at_first then Some (Inr n, d)
      else (case ups_safe_call ''ups_cursor_move'' (ups_cursor_move U c UPS_CURSOR_NEXT) d of
              None \<Rightarrow> None
            | Some (Inr entry, d) \<Rightarrow> count_loop lt U c searched hit stop_at_first n entry d
            | Some (Inl e, d) \<Rightarrow>
                if no_next e then Some (Inr n, d)
                else db_bind (ups_safe_call ''ups_cursor_close'' (ups_cursor_close U c)) (\<lambda>_. db_throw e) d))"

definition ubt_count_where ::
  "('k \<Rightarrow> 'k \<Rightarrow> bool) \<Rightarrow> ('d, 'k, 'r) ups \<Rightarrow> ubt \<Rightarrow> 'k \<Rightarrow> ('k \<times> 'r \<Rightarrow> bool) \<Rightarrow> bool \<Rightarrow> ('d, 'k, nat) action" where
  "ubt_count_where lt U t searched hit stop_at_first =
     db_bind (ups_safe_call ''ups_cursor_create'' (ups_cursor_create U (ubt_read_txn t))) (\<lambda>c.
     db_bind (db_catch
       (db_bind (ups_safe_call ''ups_cursor_find'' (ups_cursor_find U c UPS_FIND_GEQ_MATCH searched)) (\<lambda>entry. db_return (Some entry)))
       (\<lambda>e. db_bind (ups_safe_call ''ups_cursor_close'' (ups_cursor_close U c)) (\<lambda>_.
              if no_entry e then db_return None else db_throw e))) (\<lambda>first.
     case first of
       None \<Rightarrow> db_return 0
     | Some entry \<Rightarrow>
         db_bind (count_loop lt U c searched hit stop_at_first 0 entry) (\<lambda>n.
         db_bind (ups_safe_call ''ups_cursor_close'' (ups_cursor_close U c)) (\<lambda>_. db_return n))))"

text \<open>The two public counts: of a record under a key, and of a key.\<close>

definition ubt_count_record ::
  "('k \<Rightarrow> 'k \<Rightarrow> bool) \<Rightarrow> ('r \<Rightarrow> 'r \<Rightarrow> bool) \<Rightarrow> ('d, 'k, 'r) ups \<Rightarrow> ubt \<Rightarrow> 'k \<Rightarrow> 'r \<Rightarrow> bool \<Rightarrow> ('d, 'k, nat) action" where
  "ubt_count_record lt eq_record U t searched_key searched_record stop_at_first =
     ubt_count_where lt U t searched_key (\<lambda>entry. eq_record (snd entry) searched_record) stop_at_first"

definition ubt_count_key ::
  "('k \<Rightarrow> 'k \<Rightarrow> bool) \<Rightarrow> ('k \<Rightarrow> 'k \<Rightarrow> bool) \<Rightarrow> ('d, 'k, 'r) ups \<Rightarrow> ubt \<Rightarrow> 'k \<Rightarrow> bool \<Rightarrow> ('d, 'k, nat) action" where
  "ubt_count_key lt eq U t searched_key stop_at_first =
     ubt_count_where lt U t searched_key (\<lambda>entry. eq (fst entry) searched_key) stop_at_first"

definition ubt_contains_key ::
  "('k \<Rightarrow> 'k \<Rightarrow> bool) \<Rightarrow> ('k \<Rightarrow> 'k \<Rightarrow> bool) \<Rightarrow> ('d, 'k, 'r) ups \<Rightarrow> ubt \<Rightarrow> 'k \<Rightarrow> ('d, 'k, bool) action" where
  "ubt_contains_key lt eq U t key = db_bind (ubt_count_key lt eq U t key True) (\<lambda>n. db_return (n \<noteq> 0))"

text \<open>An exception of the move leaves the cursor open.\<close>

definition ubt_extremum_key :: "('d, 'k, 'r) ups \<Rightarrow> ubt \<Rightarrow> bool \<Rightarrow> ('d, 'k, 'k) action" where
  "ubt_extremum_key U t is_lowest =
     db_bind (ups_safe_call ''ups_cursor_create'' (ups_cursor_create U (ubt_read_txn t))) (\<lambda>c.
     db_bind (ups_safe_call ''ups_cursor_move'' (ups_cursor_move U c (if is_lowest then UPS_CURSOR_FIRST else UPS_CURSOR_LAST)))
       (\<lambda>(k, r).
     db_bind (ups_safe_call ''ups_cursor_close'' (ups_cursor_close U c)) (\<lambda>_. db_return k)))"

definition ubt_lowest_key :: "('d, 'k, 'r) ups \<Rightarrow> ubt \<Rightarrow> ('d, 'k, 'k) action" where
  "ubt_lowest_key U t = ubt_extremum_key U t True"

definition ubt_highest_key :: "('d, 'k, 'r) ups \<Rightarrow> ubt \<Rightarrow> ('d, 'k, 'k) action" where
  "ubt_highest_key U t = ubt_extremum_key U t False"


section \<open>What the code relies on\<close>

text \<open>
  The entries of the database in the order of their keys, equal keys in the order of insertion,
  and the index that each cursor is on. A move or a find goes to a target or finds no entry; a
  move to the next or the previous entry with a cursor that is on none acts like a move to the
  first or the last one.
\<close>

definition first_index :: "('a \<Rightarrow> bool) \<Rightarrow> 'a list \<Rightarrow> nat option" where
  "first_index P xs = (let n = length (takeWhile (\<lambda>x. \<not> P x) xs) in if n < length xs then Some n else None)"

definition insert_after :: "('k \<Rightarrow> 'k \<Rightarrow> bool) \<Rightarrow> 'k \<times> 'r \<Rightarrow> ('k \<times> 'r) list \<Rightarrow> ('k \<times> 'r) list" where
  "insert_after lt e xs = takeWhile (\<lambda>x. \<not> lt (fst e) (fst x)) xs @ e # dropWhile (\<lambda>x. \<not> lt (fst e) (fst x)) xs"

definition find_target :: "('k \<Rightarrow> 'k \<Rightarrow> bool) \<Rightarrow> cursor_find \<Rightarrow> 'k \<Rightarrow> ('k \<times> 'r) list \<Rightarrow> nat option" where
  "find_target lt flag key xs = first_index (\<lambda>x. case flag of
     UPS_FIND_EQ_MATCH \<Rightarrow> \<not> lt (fst x) key \<and> \<not> lt key (fst x)
   | UPS_FIND_GEQ_MATCH \<Rightarrow> \<not> lt (fst x) key
   | UPS_FIND_GT_MATCH \<Rightarrow> lt key (fst x)) xs"

definition first_target :: "'e list \<Rightarrow> nat option" where
  "first_target xs = (if xs = [] then None else Some 0)"

definition last_target :: "'e list \<Rightarrow> nat option" where
  "last_target xs = (if xs = [] then None else Some (length xs - 1))"

definition move_target :: "cursor_move \<Rightarrow> nat option \<Rightarrow> 'e list \<Rightarrow> nat option" where
  "move_target m i xs = (case m of
     UPS_CURSOR_FIRST \<Rightarrow> first_target xs
   | UPS_CURSOR_LAST \<Rightarrow> last_target xs
   | UPS_CURSOR_NEXT \<Rightarrow> (case i of None \<Rightarrow> first_target xs | Some i \<Rightarrow> if i + 1 < length xs then Some (i + 1) else None)
   | UPS_CURSOR_PREVIOUS \<Rightarrow> (case i of None \<Rightarrow> last_target xs | Some i \<Rightarrow> if i = 0 then None else Some (i - 1)))"

text \<open>
  Every call may fail. A call in conflict with a transaction changes nothing; after any other
  failure nothing is promised, except that a find or a move that fails does not answer with a
  status that means that there is no such entry.
\<close>

definition call_result :: "('d \<Rightarrow> bool) \<Rightarrow> ('d \<Rightarrow> 'e list) \<Rightarrow> 'e list \<Rightarrow> 'd \<Rightarrow> ups_status \<times> 'o \<times> 'd \<Rightarrow> bool" where
  "call_result ok entries es d res = (case res of (status, out, d') \<Rightarrow>
     (status = UPS_SUCCESS \<longrightarrow> ok d' \<and> entries d' = es) \<and>
     (status = UPS_TXN_CONFLICT \<longrightarrow> ok d' \<and> entries d' = entries d))"

definition cursor_result ::
  "('d \<Rightarrow> bool) \<Rightarrow> ('d \<Rightarrow> 'e list) \<Rightarrow> ('d \<Rightarrow> nat \<Rightarrow> nat option) \<Rightarrow> 'd \<Rightarrow> nat \<Rightarrow> nat option \<Rightarrow>
     ups_status \<times> 'e \<times> 'd \<Rightarrow> bool" where
  "cursor_result ok entries pos d c target res = (case res of (status, e, d') \<Rightarrow>
     (status \<in> {UPS_SUCCESS, UPS_KEY_NOT_FOUND, UPS_TXN_CONFLICT} \<longrightarrow> ok d' \<and> entries d' = entries d) \<and>
     (status = UPS_SUCCESS \<longrightarrow> (case target of None \<Rightarrow> False | Some i \<Rightarrow> e = entries d ! i \<and> pos d' c = Some i)) \<and>
     (status = UPS_KEY_NOT_FOUND \<longrightarrow> target = None) \<and>
     (status = UPS_TXN_CONFLICT \<longrightarrow> pos d' c = pos d c) \<and>
     status \<noteq> UPS_INV_PARAMETER \<and> status \<noteq> UPS_CURSOR_IS_NIL)"

locale ups_store = weak_order lt okk
  for lt :: "'k \<Rightarrow> 'k \<Rightarrow> bool" and okk :: "'k \<Rightarrow> bool" +
  fixes U :: "('d, 'k, 'r) ups" and ok :: "'d \<Rightarrow> bool" and entries :: "'d \<Rightarrow> ('k \<times> 'r) list"
    and pos :: "'d \<Rightarrow> nat \<Rightarrow> nat option"
  assumes entries_okk: "ok d \<Longrightarrow> e \<in> set (entries d) \<Longrightarrow> okk (fst e)"
    and entries_sorted: "ok d \<Longrightarrow> sorted_wrt (\<lambda>a b. \<not> lt (fst b) (fst a)) (entries d)"
    and cursor_create: "ok d \<Longrightarrow> call_result ok entries (entries d) d (ups_cursor_create U txn d)"
    and cursor_close: "ok d \<Longrightarrow> call_result ok entries (entries d) d (ups_cursor_close U c d)"
    and cursor_find: "ok d \<Longrightarrow> okk key \<Longrightarrow>
      cursor_result ok entries pos d c (find_target lt flag key (entries d)) (ups_cursor_find U c flag key d)"
    and cursor_move: "ok d \<Longrightarrow>
      cursor_result ok entries pos d c (move_target m (pos d c) (entries d)) (ups_cursor_move U c m d)"
    and db_insert: "ok d \<Longrightarrow> okk (fst e) \<Longrightarrow>
      call_result ok entries (insert_after lt e (entries d)) d (ups_db_insert U True e d) \<and>
      fst (ups_db_insert U True e d) \<noteq> UPS_DUPLICATE_KEY"
    and txn_begin: "ok d \<Longrightarrow> call_result ok entries (entries d) d (ups_txn_begin U name d)"
    and txn_commit: "ok d \<Longrightarrow> call_result ok entries (entries d) d (ups_txn_commit U t d)"

text \<open>A library none of whose calls fails or is in conflict.\<close>

definition reliable :: "('d, 'k, 'r) ups \<Rightarrow> ('d \<Rightarrow> bool) \<Rightarrow> bool" where
  "reliable U ok \<longleftrightarrow> (\<forall>d. ok d \<longrightarrow>
     (\<forall>t. fst (ups_cursor_create U t d) = UPS_SUCCESS) \<and> (\<forall>c. fst (ups_cursor_close U c d) = UPS_SUCCESS) \<and>
     (\<forall>c m. fst (ups_cursor_move U c m d) \<in> {UPS_SUCCESS, UPS_KEY_NOT_FOUND}) \<and>
     (\<forall>c flag key. fst (ups_cursor_find U c flag key d) \<in> {UPS_SUCCESS, UPS_KEY_NOT_FOUND}) \<and>
     (\<forall>e. fst (ups_db_insert U True e d) = UPS_SUCCESS) \<and>
     (\<forall>name. fst (ups_txn_begin U name d) = UPS_SUCCESS) \<and> (\<forall>t. fst (ups_txn_commit U t d) = UPS_SUCCESS))"

lemma reliableD:
  assumes "reliable U ok" "ok d"
  shows "fst (ups_cursor_create U t d) = UPS_SUCCESS" "fst (ups_cursor_close U c d) = UPS_SUCCESS"
    "fst (ups_cursor_move U c m d) \<in> {UPS_SUCCESS, UPS_KEY_NOT_FOUND}"
    "fst (ups_cursor_find U c flag key d) \<in> {UPS_SUCCESS, UPS_KEY_NOT_FOUND}"
    "fst (ups_db_insert U True e d) = UPS_SUCCESS"
    "fst (ups_txn_begin U name d) = UPS_SUCCESS" "fst (ups_txn_commit U t d) = UPS_SUCCESS"
  using assms unfolding reliable_def by metis+

section \<open>What an operation leads to\<close>

text \<open>
  \<open>runs R r Q E\<close>: the result \<open>r\<close> is a value with \<open>Q\<close> or an exception with \<open>E\<close>, and it is there
  when \<open>R\<close> holds. \<open>yields R r Q\<close>: it is a value with \<open>Q\<close>, unless the library failed.
\<close>

definition runs :: "bool \<Rightarrow> (('e + 'a) \<times> 'd) option \<Rightarrow> ('a \<Rightarrow> 'd \<Rightarrow> bool) \<Rightarrow> ('e \<Rightarrow> 'd \<Rightarrow> bool) \<Rightarrow> bool" where
  "runs R r Q E = (case r of None \<Rightarrow> \<not> R | Some (Inr x, d) \<Rightarrow> Q x d | Some (Inl e, d) \<Rightarrow> E e d)"

definition library_error :: "'k db_error \<Rightarrow> bool" where
  "library_error e = (case e of Ups_error m s \<Rightarrow> True | _ \<Rightarrow> False)"

definition yields :: "bool \<Rightarrow> (('k db_error + 'a) \<times> 'd) option \<Rightarrow> ('a \<Rightarrow> 'd \<Rightarrow> bool) \<Rightarrow> bool" where
  "yields R r Q = runs R r Q (\<lambda>e d. \<not> R \<and> library_error e)"

named_theorems runs_intro

lemma runs_simps [simp]:
  "runs R (Some (Inr x, d)) Q E = Q x d" "runs R (Some (Inl e, d)) Q E = E e d" "runs R None Q E = (\<not> R)"
  by (simp_all add: runs_def)

lemma runs_return [simp]: "runs R (db_return x d) Q E = Q x d"
  by (simp add: db_return_def)

lemma runs_throw [simp]: "runs R (db_throw e d) Q E = E e d"
  by (simp add: db_throw_def)

lemma runs_bind [runs_intro]:
  "runs R (m d) (\<lambda>x d'. runs R (f x d') Q E) E \<Longrightarrow> runs R (db_bind m f d) Q E"
  by (auto simp: runs_def db_bind_def split: option.splits sum.splits)

lemma runs_catch [runs_intro]:
  "runs R (m d) Q (\<lambda>e d'. runs R (h e d') Q E) \<Longrightarrow> runs R (db_catch m h d) Q E"
  by (auto simp: runs_def db_catch_def split: option.splits sum.splits)

lemma runs_case:
  "runs R r (\<lambda>x d. runs R (f x d) Q E) (\<lambda>e d. runs R (g e d) Q E) \<Longrightarrow>
   runs R (case r of None \<Rightarrow> None | Some (Inr x, d) \<Rightarrow> f x d | Some (Inl e, d) \<Rightarrow> g e d) Q E"
  by (auto simp: runs_def split: option.splits sum.splits)

lemma runs_mono:
  assumes "runs R r Q E" "\<And>x d. Q x d \<Longrightarrow> Q' x d" "\<And>e d. E e d \<Longrightarrow> E' e d"
  shows "runs R r Q' E'"
  using assms by (auto simp: runs_def split: option.splits sum.splits)

lemma yields_mono: "yields R r Q \<Longrightarrow> (\<And>x d. Q x d \<Longrightarrow> Q' x d) \<Longrightarrow> yields R r Q'"
  unfolding yields_def by (erule runs_mono)

text \<open>A call is repeated while it is in conflict, so it is made once from a state like the first one.\<close>

lemma safe_call_result:
  fixes f :: "('d, 'o) ups_fun"
  assumes "safe_call f d = Some (status, out, d')" "I d"
    and "\<And>d0 o1 d1. I d0 \<Longrightarrow> f d0 = (UPS_TXN_CONFLICT, o1, d1) \<Longrightarrow> I d1"
  shows "status \<noteq> UPS_TXN_CONFLICT \<and> (\<exists>d0. I d0 \<and> f d0 = (status, out, d'))"
proof -
  define P where "P = (\<lambda>(f :: ('d, 'o) ups_fun) d r. I d \<longrightarrow> (\<forall>d0 o1 d1. I d0 \<longrightarrow> f d0 = (UPS_TXN_CONFLICT, o1, d1) \<longrightarrow> I d1) \<longrightarrow>
    fst r \<noteq> UPS_TXN_CONFLICT \<and> (\<exists>d0. I d0 \<and> f d0 = r))"
  have "P f d (status, out, d')"
  proof (rule safe_call.raw_induct[OF _ assms(1)])
    fix call g e r
    assume ih: "\<And>g e r. call g e = Some r \<Longrightarrow> P g e r"
      and r: "(case g e of (s, o1, d1) \<Rightarrow> if s = UPS_TXN_CONFLICT then call g d1 else Some (s, o1, d1)) = Some r"
    obtain s o1 d1 where g: "g e = (s, o1, d1)" by (cases "g e")
    show "P g e r"
    proof (cases "s = UPS_TXN_CONFLICT")
      case True
      then have "P g d1 r" using r by (intro ih) (simp add: g)
      then show ?thesis using g True unfolding P_def by blast
    next
      case False
      then have "r = g e" using r by (simp add: g)
      then show ?thesis using g False unfolding P_def by auto
    qed
  qed
  then show ?thesis unfolding P_def using assms(2,3) by (metis fst_conv)
qed

lemma safe_call_none: "safe_call f d = None \<Longrightarrow> fst (f d) = UPS_TXN_CONFLICT"
  by (subst (asm) safe_call.simps) (auto split: prod.splits if_splits)

lemma call_runs:
  assumes "I d" "\<And>d0 o1 d1. I d0 \<Longrightarrow> f d0 = (UPS_TXN_CONFLICT, o1, d1) \<Longrightarrow> I d1"
    and "R \<Longrightarrow> fst (f d) \<noteq> UPS_TXN_CONFLICT"
    and "\<And>d0 out d'. I d0 \<Longrightarrow> f d0 = (UPS_SUCCESS, out, d') \<Longrightarrow> Q out d'"
    and "\<And>d0 status out d'. I d0 \<Longrightarrow> f d0 = (status, out, d') \<Longrightarrow> status \<noteq> UPS_SUCCESS \<Longrightarrow> status \<noteq> UPS_TXN_CONFLICT \<Longrightarrow>
      E (Ups_error n status) d'"
  shows "runs R (ups_safe_call n f d) Q E"
proof (cases "safe_call f d")
  case None
  then show ?thesis using safe_call_none[OF None] assms(3) by (auto simp: ups_safe_call_def)
next
  case (Some r)
  obtain status out d' where r: "r = (status, out, d')" by (cases r)
  obtain d0 where "status \<noteq> UPS_TXN_CONFLICT" "I d0" "f d0 = (status, out, d')"
    using safe_call_result[of f d status out d' I] Some r assms(1,2) by blast
  then show ?thesis using Some r assms(4,5) by (simp add: ups_safe_call_def)
qed

section \<open>Loops that a failing library may cut short\<close>

text \<open>
  As \<open>range_step\<close>, for range data whose steps may throw: the loop then has no result. When the
  steps are \<open>sure\<close> to return it has one.
\<close>

definition visits :: "bool \<Rightarrow> ('v list \<times> 's) option \<Rightarrow> ('v list \<Rightarrow> 's \<Rightarrow> bool) \<Rightarrow> bool" where
  "visits sure r Q = (case r of None \<Rightarrow> \<not> sure | Some (xs, s) \<Rightarrow> Q xs s)"

lemma visits_mono: "visits sure r Q \<Longrightarrow> (\<And>xs s. Q xs s \<Longrightarrow> Q' xs s) \<Longrightarrow> visits sure r Q'"
  by (auto simp: visits_def split: option.splits)

locale range_walk =
  fixes rd :: "('s, 'v) range_data"
    and inv :: "'s \<Rightarrow> bool"
    and kept :: "'s \<Rightarrow> 'c"
    and rest :: "'s \<Rightarrow> 'v list option"
    and sure :: bool
  assumes next_end: "inv s \<Longrightarrow> rest s = Some [] \<Longrightarrow> (case rd_next rd s v of None \<Rightarrow> \<not> sure
      | Some (found, w, s') \<Rightarrow> \<not> found \<and> inv s' \<and> kept s' = kept s)"
    and next_item: "inv s \<Longrightarrow> rest s = Some (x # xs) \<Longrightarrow> (case rd_next rd s v of None \<Rightarrow> \<not> sure
      | Some (found, w, s') \<Rightarrow> found \<and> w = Some x \<and> inv s' \<and> kept s' = kept s \<and> rest s' = Some xs)"
begin

lemma loop_from_item:
  assumes "inv s" "rest s = Some xs"
  shows "visits sure (loop_items rd \<lparr>it_finished = False, it_has_data = True, it_value = Some x\<rparr> s)
    (\<lambda>ys s'. ys = x # xs \<and> inv s' \<and> kept s' = kept s)"
  using assms
proof (induction xs arbitrary: s x)
  case Nil
  have last: "loop_items rd \<lparr>it_finished = True, it_has_data = True, it_value = w\<rparr> s' = Some ([], s')" for w s'
    by (simp add: loop_items.simps iterator_ne_def end_iterator_def)
  show ?case
    using next_end[OF Nil, of "Some x"]
    by (subst loop_items.simps)
      (cases "rd_next rd s (Some x)"; auto simp: visits_def iterator_ne_def end_iterator_def iterator_incr_def last)
next
  case (Cons y ys)
  show ?case
  proof (cases "rd_next rd s (Some x)")
    case None
    then show ?thesis using next_item[OF Cons.prems, of "Some x"]
      by (subst loop_items.simps) (simp add: visits_def iterator_ne_def end_iterator_def iterator_incr_def)
  next
    case (Some r)
    then obtain s1 where s1: "rd_next rd s (Some x) = Some (True, Some y, s1)" "inv s1" "kept s1 = kept s" "rest s1 = Some ys"
      using next_item[OF Cons.prems, of "Some x"] by (cases r) auto
    have step: "loop_items rd \<lparr>it_finished = False, it_has_data = True, it_value = Some x\<rparr> s =
      map_option (\<lambda>(vs, s). (x # vs, s)) (loop_items rd \<lparr>it_finished = False, it_has_data = True, it_value = Some y\<rparr> s1)"
      by (subst loop_items.simps)
        (cases "loop_items rd \<lparr>it_finished = False, it_has_data = True, it_value = Some y\<rparr> s1";
          simp add: iterator_ne_def end_iterator_def iterator_incr_def s1(1) split: prod.split)
    show ?thesis unfolding step using Cons.IH[OF s1(2,4), of y] s1(3) by (auto simp: visits_def split: option.splits)
  qed
qed

lemma items_from_init:
  assumes "rd_init rd s None = Some (True, Some x, s1)" "inv s1" "kept s1 = kept s" "rest s1 = Some xs"
  shows "visits sure (range_items (Some rd) s) (\<lambda>ys s'. ys = x # xs \<and> inv s' \<and> kept s' = kept s)"
  using loop_from_item[OF assms(2,4), of x] assms(1,3) by (simp add: range_items_def mk_iterator_def)

lemma no_items_from_init:
  assumes "rd_init rd s None = Some (False, w, s1)"
  shows "range_items (Some rd) s = Some ([], s1)"
  using assms by (simp add: range_items_def mk_iterator_def loop_items.simps iterator_ne_def end_iterator_def)

lemma no_loop_from_init: "rd_init rd s None = None \<Longrightarrow> range_items (Some rd) s = None"
  by (simp add: range_items_def mk_iterator_def)

end

section \<open>Walking with a cursor\<close>

text \<open>Where a move or a find lands, and how it misses.\<close>

definition lands ::
  "('d \<Rightarrow> bool) \<Rightarrow> ('d \<Rightarrow> 'e list) \<Rightarrow> ('d \<Rightarrow> nat \<Rightarrow> nat option) \<Rightarrow> 'd \<Rightarrow> nat \<Rightarrow> nat option \<Rightarrow> 'e \<Rightarrow> 'd \<Rightarrow> bool" where
  "lands ok entries pos d c target e d' \<longleftrightarrow>
     (\<exists>j. target = Some j \<and> e = entries d ! j \<and> pos d' c = Some j \<and> ok d' \<and> entries d' = entries d)"

definition misses ::
  "bool \<Rightarrow> ('d \<Rightarrow> bool) \<Rightarrow> ('d \<Rightarrow> 'e list) \<Rightarrow> 'd \<Rightarrow> nat option \<Rightarrow> 'k db_error \<Rightarrow> 'd \<Rightarrow> bool" where
  "misses R ok entries d target e d' \<longleftrightarrow> library_error e \<and>
     (no_entry e \<and> no_next e \<and> target = None \<and> ok d' \<and> entries d' = entries d \<or> \<not> no_entry e \<and> \<not> no_next e \<and> \<not> R)"

lemma misses_found [simp]: "misses R ok entries d (Some j) e d' = (library_error e \<and> \<not> no_entry e \<and> \<not> no_next e \<and> \<not> R)"
  by (auto simp: misses_def)

lemma lands_simps [simp]:
  "lands ok entries pos d c None e d' = False"
  "lands ok entries pos d c (Some j) e d' = (e = entries d ! j \<and> pos d' c = Some j \<and> ok d' \<and> entries d' = entries d)"
  by (auto simp: lands_def)

text \<open>The records that are left to a loop whose cursor is on an entry.\<close>

definition ubr_in :: "('k \<Rightarrow> 'k \<Rightarrow> bool) \<Rightarrow> ('k, 'r) ubt_range \<Rightarrow> 'k \<times> 'r \<Rightarrow> bool" where
  "ubr_in lt s e = (\<not> ubr_beyond lt (s\<lparr>ubr_key := fst e\<rparr>))"

definition ubr_ahead :: "bool \<Rightarrow> nat \<Rightarrow> 'e list \<Rightarrow> 'e list" where
  "ubr_ahead reverse i es = (if reverse then rev (take i es) else drop (i + 1) es)"

definition ubr_left ::
  "('k \<Rightarrow> 'k \<Rightarrow> bool) \<Rightarrow> ('d \<Rightarrow> ('k \<times> 'r) list) \<Rightarrow> ('d \<Rightarrow> nat \<Rightarrow> nat option) \<Rightarrow> ('k, 'r) ubt_range \<times> 'd \<Rightarrow> 'r list option" where
  "ubr_left lt entries pos = (\<lambda>(s, d). Option.bind (ubr_cursor s) (\<lambda>c. Option.bind (pos d c) (\<lambda>i.
     if i < length (entries d) then
       Some (map snd (takeWhile (ubr_in lt s) (ubr_ahead (ubr_is_reverse s) i (entries d))))
     else None)))"

definition ubr_move :: "bool \<Rightarrow> cursor_move" where
  "ubr_move reverse = (if reverse then UPS_CURSOR_PREVIOUS else UPS_CURSOR_NEXT)"

lemma ubr_ahead_move:
  "i < length es \<Longrightarrow> ubr_ahead reverse i es = (case move_target (ubr_move reverse) (Some i) es of
     None \<Rightarrow> [] | Some j \<Rightarrow> es ! j # ubr_ahead reverse j es)"
  "i < length es \<Longrightarrow> move_target (ubr_move reverse) (Some i) es = Some j \<Longrightarrow> j < length es"
  by (cases i; auto simp: ubr_ahead_def move_target_def ubr_move_def take_Suc_conv_app_nth Cons_nth_drop_Suc split: if_splits)+

lemma ubr_in_update [simp]:
  "ubr_in lt (s\<lparr>ubr_key := k\<rparr>) = ubr_in lt s" "ubr_in lt (s\<lparr>ubr_record := r\<rparr>) = ubr_in lt s"
  "ubr_in lt (s\<lparr>ubr_cursor := c\<rparr>) = ubr_in lt s"
  by (simp_all add: fun_eq_iff ubr_in_def ubr_beyond_def)

lemma ubr_beyond_update:
  "ubr_beyond lt (s\<lparr>ubr_key := k, ubr_record := r\<rparr>) = (\<not> ubr_in lt s (k, r))"
  by (simp add: ubr_in_def ubr_beyond_def)

lemma ubr_read_yields:
  assumes "yields R (m d) P"
  shows "case ubr_read m d of None \<Rightarrow> \<not> R | Some (found, v, s, d') \<Rightarrow> v = Some (ubr_record s) \<and> P (found, s) d'"
  using assms by (auto simp: yields_def runs_def ubr_read_def split: option.splits sum.splits)

context ups_store
begin

lemma cursor_runs:
  assumes "ok d"
    and law: "\<And>d0. ok d0 \<Longrightarrow> entries d0 = entries d \<Longrightarrow> pos d0 c = pos d c \<Longrightarrow> cursor_result ok entries pos d0 c target (f d0)"
    and sure: "\<And>d0. reliable U ok \<Longrightarrow> ok d0 \<Longrightarrow> fst (f d0) \<in> {UPS_SUCCESS, UPS_KEY_NOT_FOUND}"
  shows "runs (reliable U ok) (ups_safe_call n f d) (lands ok entries pos d c target) (misses (reliable U ok) ok entries d target)"
proof (rule call_runs[where I = "\<lambda>d0. ok d0 \<and> entries d0 = entries d \<and> pos d0 c = pos d c"])
  fix d0 status e d' assume d0: "ok d0 \<and> entries d0 = entries d \<and> pos d0 c = pos d c"
  show "ok d' \<and> entries d' = entries d \<and> pos d' c = pos d c" if "f d0 = (UPS_TXN_CONFLICT, e, d')"
    using law[of d0] d0 that by (simp add: cursor_result_def)
  show "lands ok entries pos d c target e d'" if "f d0 = (UPS_SUCCESS, e, d')"
    using law[of d0] d0 that by (simp add: cursor_result_def split: option.splits)
  show "misses (reliable U ok) ok entries d target (Ups_error n status) d'"
    if "f d0 = (status, e, d')" "status \<noteq> UPS_SUCCESS" "status \<noteq> UPS_TXN_CONFLICT"
  proof (cases "status = UPS_KEY_NOT_FOUND")
    case False
    then have "\<not> reliable U ok" using sure[of d0] d0 that by auto
    then show ?thesis using law[of d0] d0 that False
      by (simp add: cursor_result_def misses_def no_entry_def no_next_def library_error_def)
  qed (use law[of d0] d0 that in \<open>simp add: cursor_result_def misses_def no_entry_def no_next_def library_error_def\<close>)
qed (use assms(1) sure[of d] in auto)

lemma move_runs:
  assumes "ok d"
  shows "runs (reliable U ok) (ups_safe_call n (ups_cursor_move U c m) d)
    (lands ok entries pos d c (move_target m (pos d c) (entries d)))
    (misses (reliable U ok) ok entries d (move_target m (pos d c) (entries d)))"
proof (rule cursor_runs[OF assms])
  show "cursor_result ok entries pos d0 c (move_target m (pos d c) (entries d)) (ups_cursor_move U c m d0)"
    if "ok d0" "entries d0 = entries d" "pos d0 c = pos d c" for d0
    using cursor_move[of d0 c m] that by simp
qed (rule reliableD(3))

lemma find_runs:
  assumes "ok d" "okk key"
  shows "runs (reliable U ok) (ups_safe_call n (ups_cursor_find U c flag key) d)
    (lands ok entries pos d c (find_target lt flag key (entries d)))
    (misses (reliable U ok) ok entries d (find_target lt flag key (entries d)))"
proof (rule cursor_runs[OF assms(1)])
  show "cursor_result ok entries pos d0 c (find_target lt flag key (entries d)) (ups_cursor_find U c flag key d0)"
    if "ok d0" "entries d0 = entries d" for d0
    using cursor_find[of d0 key c flag] that assms(2) by simp
qed (rule reliableD(4))

text \<open>The calls that answer nothing about the entries.\<close>

lemma plain_runs:
  assumes "ok d" "\<And>d0. ok d0 \<Longrightarrow> entries d0 = entries d \<Longrightarrow> call_result ok entries es d0 (f d0)"
    and "\<And>d0. reliable U ok \<Longrightarrow> ok d0 \<Longrightarrow> fst (f d0) = UPS_SUCCESS"
  shows "yields (reliable U ok) (ups_safe_call n f d) (\<lambda>x d'. ok d' \<and> entries d' = es)"
  unfolding yields_def
proof (rule call_runs[where I = "\<lambda>d0. ok d0 \<and> entries d0 = entries d"])
  fix d0 out d' assume d0: "ok d0 \<and> entries d0 = entries d"
  show "ok d' \<and> entries d' = entries d" if "f d0 = (UPS_TXN_CONFLICT, out, d')"
    using assms(2)[of d0] d0 that by (simp add: call_result_def)
  show "ok d' \<and> entries d' = es" if "f d0 = (UPS_SUCCESS, out, d')"
    using assms(2)[of d0] d0 that by (simp add: call_result_def)
  show "\<not> reliable U ok \<and> library_error (Ups_error n status)" if "f d0 = (status, out, d')" "status \<noteq> UPS_SUCCESS" for status
    using assms(3)[of d0] d0 that by (auto simp: library_error_def)
qed (use assms in auto)

lemma create_runs: "ok d \<Longrightarrow> yields (reliable U ok) (ups_safe_call n (ups_cursor_create U t) d) (\<lambda>c d'. ok d' \<and> entries d' = entries d)"
  by (rule plain_runs) (use cursor_create[of _ t] reliableD(1) in fastforce)+

lemma close_runs: "ok d \<Longrightarrow> yields (reliable U ok) (ups_safe_call n (ups_cursor_close U c) d) (\<lambda>x d'. ok d' \<and> entries d' = entries d)"
  by (rule plain_runs) (use cursor_close[of _ c] reliableD(2) in fastforce)+

lemma next_runs:
  assumes "ok d" "ubr_cursor s = Some c"
  shows "yields (reliable U ok) (ubr_next lt U s d) (\<lambda>(found, s') d'. ok d' \<and> entries d' = entries d \<and>
    (case move_target (ubr_move (ubr_is_reverse s)) (pos d c) (entries d) of None \<Rightarrow> \<not> found \<and> s' = s
     | Some j \<Rightarrow> found = ubr_in lt s (entries d ! j) \<and> pos d' c = Some j \<and>
         s' = s\<lparr>ubr_key := fst (entries d ! j), ubr_record := snd (entries d ! j)\<rparr>))"
proof -
  have c: "(case ubr_cursor s of None \<Rightarrow> g | Some c \<Rightarrow> h c) = h c" for g :: "('d, 'k, bool \<times> ('k, 'r) ubt_range) action" and h
    using assms(2) by simp
  show ?thesis
    unfolding ubr_next_def c yields_def ubr_move_def[symmetric]
    by (intro runs_intro, rule runs_mono[OF move_runs[OF assms(1)]])
      (auto simp: misses_def ubr_beyond_update Let_def prod_eq_iff split: option.splits)
qed

end

sublocale ups_store \<subseteq> walk: range_walk "ubt_range_data lt U" "\<lambda>(s, d). ok d"
  "\<lambda>(s, d). (entries d, ubr_is_fullrange s, ubr_is_reverse s)" "ubr_left lt entries pos" "reliable U ok"
proof
  fix a :: "('k, 'r) ubt_range \<times> 'd" and v :: "'r option" and x :: 'r and xs
  obtain s d where a: "a = (s, d)" by (cases a)
  assume inv: "case a of (s, d) \<Rightarrow> ok d"
  have ok: "ok d" using inv a by simp
  let ?m = "\<lambda>i. move_target (ubr_move (ubr_is_reverse s)) (Some i) (entries d)"
  note step = ubr_read_yields[of "reliable U ok" "ubr_next lt U s" d, OF next_runs[OF ok]]
  show "case rd_next (ubt_range_data lt U) a v of None \<Rightarrow> \<not> reliable U ok
      | Some (found, w, s') \<Rightarrow> \<not> found \<and> (case s' of (s, d) \<Rightarrow> ok d) \<and>
        (case s' of (s, d) \<Rightarrow> (entries d, ubr_is_fullrange s, ubr_is_reverse s)) =
        (case a of (s, d) \<Rightarrow> (entries d, ubr_is_fullrange s, ubr_is_reverse s))"
    if left: "ubr_left lt entries pos a = Some []"
  proof -
    obtain c i where c: "ubr_cursor s = Some c" "pos d c = Some i" "i < length (entries d)"
      "takeWhile (ubr_in lt s) (ubr_ahead (ubr_is_reverse s) i (entries d)) = []"
      using left a by (auto simp: ubr_left_def split: Option.bind_splits if_splits)
    have "\<not> ubr_in lt s (entries d ! j)" if "?m i = Some j" for j
      using c(3,4) that by (auto simp: ubr_ahead_move split: if_splits)
    then show ?thesis using step[OF c(1)] c(2) a by (auto simp: ubt_range_data_def split: option.splits prod.splits)
  qed
  show "case rd_next (ubt_range_data lt U) a v of None \<Rightarrow> \<not> reliable U ok
      | Some (found, w, s') \<Rightarrow> found \<and> w = Some x \<and> (case s' of (s, d) \<Rightarrow> ok d) \<and>
        (case s' of (s, d) \<Rightarrow> (entries d, ubr_is_fullrange s, ubr_is_reverse s)) =
        (case a of (s, d) \<Rightarrow> (entries d, ubr_is_fullrange s, ubr_is_reverse s)) \<and> ubr_left lt entries pos s' = Some xs"
    if left: "ubr_left lt entries pos a = Some (x # xs)"
  proof -
    obtain c i where c: "ubr_cursor s = Some c" "pos d c = Some i" "i < length (entries d)"
      "map snd (takeWhile (ubr_in lt s) (ubr_ahead (ubr_is_reverse s) i (entries d))) = x # xs"
      using left a by (auto simp: ubr_left_def split: Option.bind_splits if_splits)
    then obtain j where j: "?m i = Some j" by (cases "?m i") (simp_all add: ubr_ahead_move)
    then have hit: "ubr_in lt s (entries d ! j)" "snd (entries d ! j) = x" "j < length (entries d)"
      "map snd (takeWhile (ubr_in lt s) (ubr_ahead (ubr_is_reverse s) j (entries d))) = xs"
      using c(3,4) by (auto simp: ubr_ahead_move(1) ubr_ahead_move(2)[OF c(3) j] split: if_splits)
    show ?thesis using step[OF c(1)] c(1,2) j hit a
      by (auto simp: ubt_range_data_def ubr_left_def split: option.splits prod.splits)
  qed
qed

text \<open>What a loop visits: the entry that \<open>init\<close> finds, unchecked, and the entries ahead of it that are in the range.\<close>

definition ubr_flag :: "('k, 'r) ubt_range \<Rightarrow> cursor_find" where
  "ubr_flag s = (if ubr_is_point s then UPS_FIND_EQ_MATCH else if ubr_is_reverse s then UPS_FIND_GEQ_MATCH else UPS_FIND_GT_MATCH)"

definition ubr_target :: "('k \<Rightarrow> 'k \<Rightarrow> bool) \<Rightarrow> ('k, 'r) ubt_range \<Rightarrow> ('k \<times> 'r) list \<Rightarrow> nat option" where
  "ubr_target lt s es = (if ubr_is_fullrange s then first_target es else find_target lt (ubr_flag s) (ubr_key s) es)"

lemma ubr_target_cursor [simp]: "ubr_target lt (s\<lparr>ubr_cursor := c\<rparr>) es = ubr_target lt s es"
  by (simp add: ubr_target_def ubr_flag_def)

lemma first_index_simps [simp]:
  "first_index P [] = None"
  "first_index P (x # xs) = (if P x then Some 0 else map_option Suc (first_index P xs))"
  by (simp_all add: first_index_def Let_def)

lemma first_index_Some:
  "first_index P xs = Some n \<Longrightarrow> n < length xs \<and> dropWhile (\<lambda>x. \<not> P x) xs = xs ! n # drop (n + 1) xs"
proof (induction xs arbitrary: n)
  case (Cons x xs)
  then show ?case by (cases "P x"; cases n) auto
qed simp

lemma first_index_None: "first_index P xs = None \<Longrightarrow> dropWhile (\<lambda>x. \<not> P x) xs = []"
  by (induction xs) (simp_all split: if_splits)

lemma ubr_target_bound: "ubr_target lt s es = Some j \<Longrightarrow> j < length es"
  unfolding ubr_target_def find_target_def
  by (cases "ubr_is_fullrange s") (simp_all add: first_target_def first_index_Some split: if_splits)

context ups_store
begin

lemma start_runs:
  assumes "ok d" "ubr_is_fullrange s \<or> okk (ubr_key s)"
  shows "runs (reliable U ok) (ubr_start U s c d) (lands ok entries pos d c (ubr_target lt s (entries d)))
    (misses (reliable U ok) ok entries d (ubr_target lt s (entries d)))"
proof (cases "ubr_is_fullrange s")
  case True
  then show ?thesis using move_runs[OF assms(1), of "''ups_cursor_move''" c UPS_CURSOR_FIRST]
    by (simp add: ubr_start_def ubr_target_def move_target_def)
next
  case False
  then show ?thesis using find_runs[OF assms(1), of "ubr_key s" "''ups_cursor_find''" c "ubr_flag s"] assms(2)
    by (simp add: ubr_start_def ubr_target_def ubr_flag_def)
qed

lemma init_yields:
  assumes "ok d" "ubr_is_fullrange s \<or> okk (ubr_key s)"
  shows "yields (reliable U ok) (ubr_init U s d) (\<lambda>(found, s') d'. ok d' \<and> entries d' = entries d \<and>
    (case ubr_target lt s (entries d) of None \<Rightarrow> \<not> found \<and> (\<exists>c. s' = s\<lparr>ubr_cursor := Some c\<rparr>)
     | Some j \<Rightarrow> found \<and> (\<exists>c. pos d' c = Some j \<and>
         s' = s\<lparr>ubr_cursor := Some c, ubr_key := fst (entries d ! j), ubr_record := snd (entries d ! j)\<rparr>)))"
  (is "yields _ _ ?Q")
  unfolding ubr_init_def yields_def Let_def
proof (intro runs_bind, rule runs_mono[OF create_runs[OF assms(1), unfolded yields_def]])
  fix c d1 assume d1: "ok d1 \<and> entries d1 = entries d"
  let ?s = "s\<lparr>ubr_cursor := Some c\<rparr>"
  have s: "ubr_is_fullrange ?s \<or> okk (ubr_key ?s)" "ok d1" using assms(2) d1 by simp_all
  show "runs (reliable U ok) (db_catch (db_bind (ubr_start U ?s c) (\<lambda>(k, r). db_return (True, ?s\<lparr>ubr_key := k, ubr_record := r\<rparr>)))
      (\<lambda>e. if no_entry e then db_return (False, ?s) else db_throw e) d1) ?Q (\<lambda>e d. \<not> reliable U ok \<and> library_error e)"
  proof (cases "ubr_target lt s (entries d)")
    case None
    show ?thesis
      by (intro runs_intro, rule runs_mono[OF start_runs[OF s(2,1)]]) (use d1 None in \<open>auto simp: misses_def\<close>)
  next
    case (Some j)
    show ?thesis
      by (intro runs_intro, rule runs_mono[OF start_runs[OF s(2,1)]])
        (use d1 Some in \<open>auto simp: prod_eq_iff intro!: exI[of _ c]\<close>)
  qed
qed

lemma loop_visits:
  assumes "ok d" "ubr_is_fullrange s \<or> okk (ubr_key s)"
    and "(case ubr_target lt s (entries d) of None \<Rightarrow> []
      | Some j \<Rightarrow> entries d ! j # takeWhile (ubr_in lt s) (ubr_ahead (ubr_is_reverse s) j (entries d))) = xs"
  shows "visits (reliable U ok) (range_items (Some (ubt_range_data lt U)) (s, d)) (\<lambda>ys (s', d'). ys = map snd xs \<and>
    ok d' \<and> entries d' = entries d \<and> ubr_is_fullrange s' = ubr_is_fullrange s \<and> ubr_is_reverse s' = ubr_is_reverse s)"
proof -
  note init = ubr_read_yields[of "reliable U ok" "ubr_init U s" d, OF init_yields[OF assms(1,2)]]
  have rd: "rd_init (ubt_range_data lt U) (s, d) None = ubr_read (ubr_init U s) d" by (simp add: ubt_range_data_def)
  show ?thesis
  proof (cases "ubr_read (ubr_init U s) d")
    case None
    then show ?thesis using walk.no_loop_from_init[of "(s, d)"] init rd by (simp add: visits_def)
  next
    case (Some r)
    show ?thesis
    proof (cases "ubr_target lt s (entries d)")
      case None
      then obtain v s1 d1 where i: "ubr_read (ubr_init U s) d = Some (False, v, s1, d1)" "ok d1" "entries d1 = entries d"
        "ubr_is_fullrange s1 = ubr_is_fullrange s" "ubr_is_reverse s1 = ubr_is_reverse s"
        using init Some by (cases r) auto
      from walk.no_items_from_init[OF rd[unfolded i(1)]] show ?thesis using i(2-) None assms(3) by (simp add: visits_def)
    next
      case target: (Some j)
      then obtain s1 d1 c where i: "ubr_read (ubr_init U s) d = Some (True, Some (snd (entries d ! j)), s1, d1)" "ok d1"
        "entries d1 = entries d" "pos d1 c = Some j"
        "s1 = s\<lparr>ubr_cursor := Some c, ubr_key := fst (entries d ! j), ubr_record := snd (entries d ! j)\<rparr>"
        using init Some by (cases r) auto
      from walk.items_from_init[OF rd[unfolded i(1)], of "map snd (takeWhile (ubr_in lt s) (ubr_ahead (ubr_is_reverse s) j (entries d)))"]
      have "visits (reliable U ok) (range_items (Some (ubt_range_data lt U)) (s, d)) (\<lambda>ys s'. ys = map snd xs \<and>
        (case s' of (s, d) \<Rightarrow> ok d) \<and> (case s' of (s, d) \<Rightarrow> (entries d, ubr_is_fullrange s, ubr_is_reverse s)) =
        (entries d, ubr_is_fullrange s, ubr_is_reverse s))"
        using i(2-) ubr_target_bound[OF target] target assms(3) by (auto simp: ubr_left_def)
      then show ?thesis by (rule visits_mono) (auto split: prod.splits)
    qed
  qed
qed

subsection \<open>The ranges over the entries\<close>

lemma full_visits:
  assumes "ok d" "ubr_is_fullrange s" "\<not> ubr_is_reverse s"
  shows "visits (reliable U ok) (range_items (Some (ubt_range_data lt U)) (s, d)) (\<lambda>ys (s', d'). ys = map snd (entries d) \<and>
    ok d' \<and> entries d' = entries d \<and> ubr_is_fullrange s' \<and> \<not> ubr_is_reverse s')"
proof -
  have "ubr_in lt s = (\<lambda>e. True)" using assms by (simp add: fun_eq_iff ubr_in_def ubr_beyond_def)
  then have "(case ubr_target lt s (entries d) of None \<Rightarrow> []
      | Some j \<Rightarrow> entries d ! j # takeWhile (ubr_in lt s) (ubr_ahead (ubr_is_reverse s) j (entries d))) = entries d"
    using assms by (cases "entries d") (simp_all add: ubr_target_def first_target_def ubr_ahead_def)
  from loop_visits[OF assms(1) _ this] show ?thesis using assms(2,3) by simp
qed

lemma first_of_sorted:
  assumes "sorted_wrt (\<lambda>x y. \<not> P y \<longrightarrow> \<not> P x) es"
  shows "filter P es = (case first_index P es of None \<Rightarrow> [] | Some j \<Rightarrow> es ! j # drop (j + 1) es)"
  using dropWhile_eq_filter_mono[OF assms] by (auto split: option.split dest: first_index_Some first_index_None)

lemma above_sorted:
  assumes "ok d" "okk k"
  shows "sorted_wrt (\<lambda>x y. \<not> lt k (fst y) \<longrightarrow> \<not> lt k (fst x)) (entries d)"
    "sorted_wrt (\<lambda>x y. \<not> \<not> lt (fst y) k \<longrightarrow> \<not> \<not> lt (fst x) k) (entries d)"
  by (rule sorted_wrt_mono_rel[OF _ entries_sorted[OF assms(1)]],
      use neg_trans[OF assms(2)] neg_trans[OF _ _ assms(2)] entries_okk[OF assms(1)] in blast)+

lemma interval_visits:
  assumes "ok d" "okk b" "okk e" "lt b e" "\<not> eq b e"
  shows "visits (reliable U ok) (range_items (Some (ubt_range_data lt U)) (ubt_get_interval eq lt t r b e, d)) (\<lambda>ys (s', d').
    ys = map snd (case filter (\<lambda>x. lt b (fst x)) (entries d) of [] \<Rightarrow> []
        | x # xs \<Rightarrow> x # takeWhile (\<lambda>x. \<not> lt e (fst x)) xs) \<and> ok d' \<and> entries d' = entries d)"
proof -
  let ?s = "ubt_get_interval eq lt t r b e"
  have s: "\<not> ubr_is_fullrange ?s" "\<not> ubr_is_reverse ?s" "ubr_key ?s = b" "ubr_flag ?s = UPS_FIND_GT_MATCH"
    "ubr_in lt ?s = (\<lambda>x. \<not> lt e (fst x))"
    using assms(5) asym[OF assms(2,3,4)]
    by (simp_all add: fun_eq_iff ubt_get_interval_def mk_interval_range_def ubr_flag_def ubr_in_def ubr_beyond_def)
  have "(case ubr_target lt ?s (entries d) of None \<Rightarrow> []
      | Some j \<Rightarrow> entries d ! j # takeWhile (ubr_in lt ?s) (ubr_ahead (ubr_is_reverse ?s) j (entries d))) =
    (case filter (\<lambda>x. lt b (fst x)) (entries d) of [] \<Rightarrow> [] | x # xs \<Rightarrow> x # takeWhile (\<lambda>x. \<not> lt e (fst x)) xs)"
    unfolding first_of_sorted[OF above_sorted(1)[OF assms(1,2)]]
    using s by (simp add: ubr_target_def find_target_def ubr_ahead_def split: option.split)
  from loop_visits[OF assms(1) _ this] show ?thesis using s(3) assms(2) by (auto elim!: visits_mono)
qed

lemma point_of_sorted:
  assumes "sorted_wrt (\<lambda>a b. \<not> lt (fst b) (fst a)) es" "\<forall>x \<in> set es. okk (fst x)" "okk k"
  shows "filter (\<lambda>x. \<not> lt (fst x) k \<and> \<not> lt k (fst x)) es =
    (case first_index (\<lambda>x. \<not> lt (fst x) k \<and> \<not> lt k (fst x)) es of None \<Rightarrow> []
     | Some j \<Rightarrow> es ! j # takeWhile (\<lambda>x. \<not> lt k (fst x)) (drop (j + 1) es))"
  using assms(1,2)
proof (induction es)
  case (Cons x es)
  show ?case
  proof (cases "\<not> lt (fst x) k \<and> \<not> lt k (fst x)")
    case True
    have ge: "\<not> lt (fst y) k" if "y \<in> set es" for y
      using that Cons.prems True assms(3) neg_trans[of "fst y" "fst x" k] by auto
    have "sorted_wrt (\<lambda>a b. \<not> lt k (fst b) \<longrightarrow> \<not> lt k (fst a)) es"
      by (rule sorted_wrt_mono_rel[where P = "\<lambda>a b. \<not> lt (fst b) (fst a)"])
        (use Cons.prems assms(3) neg_trans[of k] in auto)
    from takeWhile_eq_filter_mono[OF this]
    have "takeWhile (\<lambda>x. \<not> lt k (fst x)) es = filter (\<lambda>x. \<not> lt (fst x) k \<and> \<not> lt k (fst x)) es"
      using ge by (simp cong: filter_cong)
    then show ?thesis using True by simp
  next
    case False
    then show ?thesis using Cons by (auto split: option.splits)
  qed
qed simp

lemma point_visits:
  assumes "ok d" "okk k" "eq k k"
  shows "visits (reliable U ok) (range_items (Some (ubt_range_data lt U)) (ubt_get_key eq lt t r k, d)) (\<lambda>ys (s', d').
    ys = map snd (filter (\<lambda>x. \<not> lt (fst x) k \<and> \<not> lt k (fst x)) (entries d)) \<and> ok d' \<and> entries d' = entries d)"
proof -
  let ?s = "ubt_get_key eq lt t r k"
  have s: "\<not> ubr_is_fullrange ?s" "\<not> ubr_is_reverse ?s" "ubr_key ?s = k" "ubr_flag ?s = UPS_FIND_EQ_MATCH"
    "ubr_in lt ?s = (\<lambda>x. \<not> lt k (fst x))"
    using assms(3) irrefl[OF assms(2)]
    by (simp_all add: fun_eq_iff ubt_get_key_def ubt_get_interval_def mk_interval_range_def ubr_flag_def ubr_in_def ubr_beyond_def)
  have "(case ubr_target lt ?s (entries d) of None \<Rightarrow> []
      | Some j \<Rightarrow> entries d ! j # takeWhile (ubr_in lt ?s) (ubr_ahead (ubr_is_reverse ?s) j (entries d))) =
    filter (\<lambda>x. \<not> lt (fst x) k \<and> \<not> lt k (fst x)) (entries d)"
    using s point_of_sorted[OF entries_sorted[OF assms(1)] _ assms(2)] entries_okk[OF assms(1)]
    by (simp add: ubr_target_def find_target_def ubr_ahead_def split: option.split)
  from loop_visits[OF assms(1) _ this] show ?thesis using s(3) assms(2) by (auto elim!: visits_mono)
qed

lemma below_first:
  "first_index P es = Some j \<Longrightarrow> take j es = takeWhile (\<lambda>x. \<not> P x) es"
proof (induction es arbitrary: j)
  case (Cons x es)
  then show ?case by (cases "P x"; cases j) auto
qed simp

text \<open>
  A range from a key down to a smaller one starts at the first entry that is not below the
  key: the first one above it when the key is absent, and nothing when every entry is below.
\<close>

lemma reverse_visits:
  assumes "ok d" "okk b" "okk e" "lt e b" "\<not> eq b e"
  shows "visits (reliable U ok) (range_items (Some (ubt_range_data lt U)) (ubt_get_interval eq lt t r b e, d)) (\<lambda>ys (s', d').
    ys = map snd (case filter (\<lambda>x. \<not> lt (fst x) b) (entries d) of [] \<Rightarrow> []
        | x # xs \<Rightarrow> x # takeWhile (\<lambda>x. \<not> lt (fst x) e) (rev (filter (\<lambda>x. lt (fst x) b) (entries d)))) \<and> ok d' \<and> entries d' = entries d)"
proof -
  let ?s = "ubt_get_interval eq lt t r b e"
  have s: "\<not> ubr_is_fullrange ?s" "ubr_is_reverse ?s" "ubr_key ?s = b" "ubr_flag ?s = UPS_FIND_GEQ_MATCH"
    "ubr_in lt ?s = (\<lambda>x. \<not> lt (fst x) e)"
    using assms(4,5)
    by (simp_all add: fun_eq_iff ubt_get_interval_def mk_interval_range_def ubr_flag_def ubr_in_def ubr_beyond_def)
  have low: "take j (entries d) = filter (\<lambda>x. lt (fst x) b) (entries d)"
    if "first_index (\<lambda>x. \<not> lt (fst x) b) (entries d) = Some j" for j
    using below_first[OF that] takeWhile_eq_filter_mono[of "\<lambda>x. lt (fst x) b" "entries d"] above_sorted(2)[OF assms(1,2)]
    by simp
  have "(case ubr_target lt ?s (entries d) of None \<Rightarrow> []
      | Some j \<Rightarrow> entries d ! j # takeWhile (ubr_in lt ?s) (ubr_ahead (ubr_is_reverse ?s) j (entries d))) =
    (case filter (\<lambda>x. \<not> lt (fst x) b) (entries d) of [] \<Rightarrow> []
     | x # xs \<Rightarrow> x # takeWhile (\<lambda>x. \<not> lt (fst x) e) (rev (filter (\<lambda>x. lt (fst x) b) (entries d))))"
    unfolding first_of_sorted[OF above_sorted(2)[OF assms(1,2)]]
    using s low by (simp add: ubr_target_def find_target_def ubr_ahead_def split: option.split)
  from loop_visits[OF assms(1) _ this] show ?thesis using s(3) assms(2) by (auto elim!: visits_mono)
qed

end

section \<open>Counting, extreme keys, insertion\<close>

lemma failed_call: "\<not> R \<Longrightarrow> yields R (ups_safe_call n f d) (\<lambda>x d. True)"
  by (auto simp: yields_def runs_def ups_safe_call_def library_error_def split: option.splits)

lemma runs_if: "runs R (if b then r1 else r2) Q E = (if b then runs R r1 Q E else runs R r2 Q E)"
  by simp

context ups_store
begin

lemma begin_runs: "ok d \<Longrightarrow> yields (reliable U ok) (ups_safe_call n (ups_txn_begin U name) d) (\<lambda>t d'. ok d' \<and> entries d' = entries d)"
  by (rule plain_runs) (use txn_begin[of _ name] reliableD(6) in fastforce)+

lemma commit_runs: "ok d \<Longrightarrow> yields (reliable U ok) (ups_safe_call n (ups_txn_commit U t) d) (\<lambda>x d'. ok d' \<and> entries d' = entries d)"
  by (rule plain_runs) (use txn_commit[of _ t] reliableD(7) in fastforce)+

text \<open>Closing a cursor on the way out with an exception.\<close>

lemma close_throws:
  assumes "\<not> reliable U ok" "library_error e"
  shows "yields (reliable U ok) (db_bind (ups_safe_call n (ups_cursor_close U c)) (\<lambda>_. db_throw e) d) Q"
  unfolding yields_def
  by (intro runs_bind, rule runs_mono[OF failed_call[OF assms(1), unfolded yields_def]]) (use assms in auto)

lemma count_loop_yields:
  assumes "ok d" "pos d c = Some i" "i < length (entries d)"
  shows "yields (reliable U ok) (count_loop lt U c k hit stop n (entries d ! i) d) (\<lambda>r d'.
    r = n + (let m = length (filter hit (takeWhile (\<lambda>x. \<not> lt k (fst x)) (drop i (entries d)))) in if stop then min 1 m else m) \<and>
    ok d' \<and> entries d' = entries d)"
  using assms
proof (induction "length (entries d) - i" arbitrary: i d n)
  case (Suc l)
  let ?e = "entries d ! i"
  let ?n = "if hit ?e then n + 1 else n"
  let ?target = "move_target UPS_CURSOR_NEXT (pos d c) (entries d)"
  have drop: "drop i (entries d) = ?e # drop (Suc i) (entries d)" using Suc.prems(3) by (simp add: Cons_nth_drop_Suc)
  have target: "?target = (if Suc i < length (entries d) then Some (Suc i) else None)"
    using Suc.prems(2) by (simp add: move_target_def)
  show ?case
  proof (cases "lt k (fst ?e) \<or> hit ?e \<and> stop")
    case True
    then show ?thesis using Suc.prems(1) by (subst count_loop.simps) (auto simp: drop Let_def yields_def)
  next
    case False
    have step: "count_loop lt U c k hit stop n ?e d =
      (case ups_safe_call ''ups_cursor_move'' (ups_cursor_move U c UPS_CURSOR_NEXT) d of
         None \<Rightarrow> None
       | Some (Inr entry, d) \<Rightarrow> count_loop lt U c k hit stop ?n entry d
       | Some (Inl e, d) \<Rightarrow>
           if no_next e then Some (Inr ?n, d)
           else db_bind (ups_safe_call ''ups_cursor_close'' (ups_cursor_close U c)) (\<lambda>_. db_throw e) d)"
      using False by (subst count_loop.simps) (simp add: Let_def)
    show ?thesis
      unfolding step yields_def
    proof (rule runs_case, rule runs_mono[OF move_runs[OF Suc.prems(1)]])
      fix e d1 assume m: "misses (reliable U ok) ok entries d ?target e d1"
      show "runs (reliable U ok) (if no_next e then Some (Inr ?n, d1)
          else db_bind (ups_safe_call ''ups_cursor_close'' (ups_cursor_close U c)) (\<lambda>_. db_throw e) d1)
        (\<lambda>r d'. r = n + (let m = length (filter hit (takeWhile (\<lambda>x. \<not> lt k (fst x)) (drop i (entries d)))) in if stop then min 1 m else m) \<and>
          ok d' \<and> entries d' = entries d) (\<lambda>e d. \<not> reliable U ok \<and> library_error e)"
      proof (cases "no_next e")
        case True
        then show ?thesis using m target False by (auto simp: misses_def drop Let_def split: if_splits)
      next
        case no: False
        then show ?thesis using m close_throws[of e, unfolded yields_def] by (auto simp: misses_def)
      qed
    next
      fix entry d1 assume "lands ok entries pos d c ?target entry d1"
      then have d1: "Suc i < length (entries d)" "entry = entries d1 ! Suc i" "pos d1 c = Some (Suc i)" "ok d1" "entries d1 = entries d"
        using target by (auto split: if_splits)
      show "runs (reliable U ok) (count_loop lt U c k hit stop ?n entry d1)
        (\<lambda>r d'. r = n + (let m = length (filter hit (takeWhile (\<lambda>x. \<not> lt k (fst x)) (drop i (entries d)))) in if stop then min 1 m else m) \<and>
          ok d' \<and> entries d' = entries d) (\<lambda>e d. \<not> reliable U ok \<and> library_error e)"
        unfolding d1(2)
        by (rule runs_mono[OF Suc.hyps(1)[of d1 "Suc i" ?n, unfolded yields_def]])
          (use Suc.hyps(2) d1 False in \<open>auto simp: drop Let_def\<close>)
    qed
  qed
qed simp

lemma count_where_yields:
  assumes "ok d" "okk k"
  shows "yields (reliable U ok) (ubt_count_where lt U t k hit stop d) (\<lambda>r d'.
    r = (let m = length (filter hit (filter (\<lambda>x. \<not> lt (fst x) k \<and> \<not> lt k (fst x)) (entries d))) in if stop then min 1 m else m) \<and>
    ok d' \<and> entries d' = entries d)" (is "yields ?R _ ?Q")
proof -
  let ?target = "find_target lt UPS_FIND_GEQ_MATCH k (entries d)"
  have geq: "filter (\<lambda>x. \<not> lt (fst x) k) (entries d) = (case ?target of None \<Rightarrow> [] | Some j \<Rightarrow> drop j (entries d))"
    using first_of_sorted[OF above_sorted(2)[OF assms]]
    by (auto simp: find_target_def Cons_nth_drop_Suc dest: first_index_Some split: option.splits)
  have "sorted_wrt (\<lambda>x y. \<not> lt k (fst y) \<longrightarrow> \<not> lt k (fst x)) (filter (\<lambda>x. \<not> lt (fst x) k) (entries d))"
    using above_sorted(1)[OF assms] by (simp add: sorted_wrt_filter)
  from takeWhile_eq_filter_mono[OF this]
  have equiv: "filter (\<lambda>x. \<not> lt (fst x) k \<and> \<not> lt k (fst x)) (entries d) =
      takeWhile (\<lambda>x. \<not> lt k (fst x)) (filter (\<lambda>x. \<not> lt (fst x) k) (entries d))"
    by (simp add: conj_commute)
  let ?E = "\<lambda>e d. \<not> ?R \<and> library_error e"
  show ?thesis
    unfolding ubt_count_where_def yields_def
  proof (intro runs_bind, rule runs_mono[OF create_runs[OF assms(1), unfolded yields_def]])
    fix c d1 assume d1: "ok d1 \<and> entries d1 = entries d"
    let ?rest = "\<lambda>first. case first of None \<Rightarrow> db_return 0
      | Some entry \<Rightarrow> db_bind (count_loop lt U c k hit stop 0 entry) (\<lambda>n.
          db_bind (ups_safe_call ''ups_cursor_close'' (ups_cursor_close U c)) (\<lambda>_. db_return n))"
    have absent: "runs ?R (?rest None d2) ?Q ?E" if "?target = None" "ok d2" "entries d2 = entries d" for d2
      using that geq equiv by simp
    have present: "runs ?R (?rest (Some entry) d2) ?Q ?E" if l: "lands ok entries pos d1 c ?target entry d2" for entry d2
    proof -
      obtain j where j: "?target = Some j" "entry = entries d2 ! j" "pos d2 c = Some j" "ok d2" "entries d2 = entries d"
        using l d1 by (auto simp: lands_def)
      then have "j < length (entries d2)" by (auto simp: find_target_def dest: first_index_Some)
      note loop = count_loop_yields[OF j(4,3) this, of k hit stop 0, unfolded yields_def]
      show ?thesis
        unfolding option.case(2) j(2)
        by (intro runs_bind, rule runs_mono[OF loop]; (intro runs_bind, rule runs_mono[OF close_runs[unfolded yields_def]])?)
          (use j(1,5) geq equiv in auto)
    qed
    have miss: "runs ?R (db_bind (ups_safe_call ''ups_cursor_close'' (ups_cursor_close U c))
        (\<lambda>_. if no_entry e then db_return None else db_throw e) d2) (\<lambda>x d'. runs ?R (?rest x d') ?Q ?E) ?E"
      if m: "misses ?R ok entries d1 ?target e d2" for e d2
    proof (cases "no_entry e")
      case True
      then have "ok d2" "?target = None" "entries d2 = entries d" using m d1 by (auto simp: misses_def)
      then show ?thesis using True absent
        by (intro runs_bind, intro runs_mono[OF close_runs[unfolded yields_def]]) auto
    next
      case False
      then show ?thesis using m close_throws[of e, unfolded yields_def] by (simp add: misses_def)
    qed
    show "runs ?R (db_bind (db_catch (db_bind (ups_safe_call ''ups_cursor_find'' (ups_cursor_find U c UPS_FIND_GEQ_MATCH k))
        (\<lambda>entry. db_return (Some entry))) (\<lambda>e. db_bind (ups_safe_call ''ups_cursor_close'' (ups_cursor_close U c))
        (\<lambda>_. if no_entry e then db_return None else db_throw e))) ?rest d1) ?Q ?E"
    proof (intro runs_intro, rule runs_mono[OF find_runs[OF _ assms(2)]])
      show "ok d1" using d1 by simp
      have same: "find_target lt UPS_FIND_GEQ_MATCH k (entries d1) = ?target" using d1 by simp
      fix entry d2 assume "lands ok entries pos d1 c (find_target lt UPS_FIND_GEQ_MATCH k (entries d1)) entry d2"
      from present[OF this[unfolded same]]
      show "runs ?R (db_return (Some entry) d2) (\<lambda>x d'. runs ?R (?rest x d') ?Q ?E)
          (\<lambda>e d'. runs ?R (db_bind (ups_safe_call ''ups_cursor_close'' (ups_cursor_close U c))
            (\<lambda>_. if no_entry e then db_return None else db_throw e) d') (\<lambda>x d'. runs ?R (?rest x d') ?Q ?E) ?E)"
        by simp
    next
      have same: "find_target lt UPS_FIND_GEQ_MATCH k (entries d1) = ?target" using d1 by simp
      fix e d2 assume "misses ?R ok entries d1 (find_target lt UPS_FIND_GEQ_MATCH k (entries d1)) e d2"
      from miss[OF this[unfolded same]]
      show "runs ?R (db_bind (ups_safe_call ''ups_cursor_close'' (ups_cursor_close U c))
          (\<lambda>_. if no_entry e then db_return None else db_throw e) d2) (\<lambda>x d'. runs ?R (?rest x d') ?Q ?E) ?E" .
    qed
  qed
qed

lemma extremum_yields:
  assumes "ok d" "entries d \<noteq> []"
  shows "yields (reliable U ok) (ubt_extremum_key U t lowest d) (\<lambda>k d'.
    k = fst (if lowest then hd (entries d) else last (entries d)) \<and> ok d' \<and> entries d' = entries d)"
  unfolding ubt_extremum_key_def yields_def
proof (intro runs_bind, rule runs_mono[OF create_runs[OF assms(1), unfolded yields_def]])
  fix c d1 assume d1: "ok d1 \<and> entries d1 = entries d"
  let ?m = "if lowest then UPS_CURSOR_FIRST else UPS_CURSOR_LAST"
  let ?Q = "\<lambda>k d'. k = fst (if lowest then hd (entries d) else last (entries d)) \<and> ok d' \<and> entries d' = entries d"
  have target: "move_target ?m (pos d1 c) (entries d1) = Some (if lowest then 0 else length (entries d) - 1)"
    using d1 assms(2) by (simp add: move_target_def first_target_def last_target_def)
  have close: "runs (reliable U ok) (db_bind (ups_safe_call ''ups_cursor_close'' (ups_cursor_close U c)) (\<lambda>_. db_return k) d2)
      ?Q (\<lambda>e d. \<not> reliable U ok \<and> library_error e)" if "lands ok entries pos d1 c (move_target ?m (pos d1 c) (entries d1)) (k, r) d2" for k r d2
    using that target d1 assms(2)
    by (intro runs_bind, intro runs_mono[OF close_runs[unfolded yields_def]])
      (auto simp: hd_conv_nth last_conv_nth prod_eq_iff split: if_splits)
  show "runs (reliable U ok) (db_bind (ups_safe_call ''ups_cursor_move'' (ups_cursor_move U c ?m))
      (\<lambda>(k, r). db_bind (ups_safe_call ''ups_cursor_close'' (ups_cursor_close U c)) (\<lambda>_. db_return k)) d1)
      ?Q (\<lambda>e d. \<not> reliable U ok \<and> library_error e)"
  proof (intro runs_bind, rule runs_mono[OF move_runs])
    show "ok d1" using d1 by simp
    fix x d2 assume "lands ok entries pos d1 c (move_target ?m (pos d1 c) (entries d1)) x d2"
    then show "runs (reliable U ok) ((case x of (k, r) \<Rightarrow>
        db_bind (ups_safe_call ''ups_cursor_close'' (ups_cursor_close U c)) (\<lambda>_. db_return k)) d2)
      ?Q (\<lambda>e d. \<not> reliable U ok \<and> library_error e)"
      using close[of "fst x" "snd x" d2] by (cases x) simp
  qed (simp add: target)
qed

lemma insert_yields:
  assumes "ok d" "okk k" "ubt_allow_duplicates t"
  shows "yields (reliable U ok) (ubt_insert U t k r d) (\<lambda>_ d'. ok d' \<and> entries d' = insert_after lt (k, r) (entries d))"
  unfolding ubt_insert_def yields_def
proof (intro runs_bind, rule runs_mono[OF begin_runs[OF assms(1), unfolded yields_def]])
  fix txn d1 assume d1: "ok d1 \<and> entries d1 = entries d"
  let ?es = "insert_after lt (k, r) (entries d)"
  let ?E = "\<lambda>e d. \<not> reliable U ok \<and> library_error e"
  have insert: "runs (reliable U ok) (ups_safe_call ''ups_db_insert'' (ups_db_insert U (ubt_allow_duplicates t) (k, r)) d1)
      (\<lambda>x d'. ok d' \<and> entries d' = ?es) (\<lambda>e d. \<not> reliable U ok \<and> (\<exists>m s. e = Ups_error m s \<and> s \<noteq> UPS_DUPLICATE_KEY))"
  proof (rule call_runs[where I = "\<lambda>d0. ok d0 \<and> entries d0 = entries d"])
    fix d0 status out d' assume d0: "ok d0 \<and> entries d0 = entries d"
    note law = db_insert[of d0 "(k, r)"]
    show "ok d' \<and> entries d' = entries d" if "ups_db_insert U (ubt_allow_duplicates t) (k, r) d0 = (UPS_TXN_CONFLICT, out, d')"
      using law d0 that assms(2,3) by (simp add: call_result_def)
    show "ok d' \<and> entries d' = ?es" if "ups_db_insert U (ubt_allow_duplicates t) (k, r) d0 = (UPS_SUCCESS, out, d')"
      using law d0 that assms(2,3) by (simp add: call_result_def)
    show "\<not> reliable U ok \<and> (\<exists>m s. Ups_error ''ups_db_insert'' status = Ups_error m s \<and> s \<noteq> UPS_DUPLICATE_KEY)"
      if "ups_db_insert U (ubt_allow_duplicates t) (k, r) d0 = (status, out, d')" "status \<noteq> UPS_SUCCESS"
      using law reliableD(5)[of U ok d0 "(k, r)"] d0 that assms(2,3) by auto
  qed (use d1 reliableD(5)[of U ok d1 "(k, r)"] assms(3) in auto)
  have commit: "runs (reliable U ok) (ups_safe_call ''ups_txn_commit'' (ups_txn_commit U txn) d2) (\<lambda>x d'. ok d' \<and> entries d' = ?es) ?E"
    if "ok d2" "entries d2 = ?es" for d2
    using commit_runs[OF that(1), unfolded yields_def] that(2) by simp
  show "runs (reliable U ok) (db_bind (db_catch (ups_safe_call ''ups_db_insert'' (ups_db_insert U (ubt_allow_duplicates t) (k, r)))
      (\<lambda>e. case e of Ups_error m UPS_DUPLICATE_KEY \<Rightarrow> db_throw (Duplicate_error k) | _ \<Rightarrow> db_throw e))
      (\<lambda>_. ups_safe_call ''ups_txn_commit'' (ups_txn_commit U txn)) d1) (\<lambda>_ d'. ok d' \<and> entries d' = ?es) ?E"
    by (intro runs_intro, rule runs_mono[OF insert]) (use commit in \<open>auto simp: library_error_def split: ups_status.split\<close>)
qed

end

lemma insert_after_sorted:
  assumes "weak_order lt okk" "sorted_wrt (\<lambda>a b. \<not> lt (fst b) (fst a)) xs" "\<forall>x \<in> set (e # xs). okk (fst x)"
  shows "sorted_wrt (\<lambda>a b. \<not> lt (fst b) (fst a)) (insert_after lt e xs)"
  using assms(2,3)
proof (induction xs)
  case (Cons x xs)
  show ?case
  proof (cases "lt (fst e) (fst x)")
    case True
    have "\<not> lt (fst y) (fst e)" if "y \<in> set xs" for y
      using that True Cons.prems weak_order.trans[OF assms(1), of "fst y" "fst e" "fst x"] by auto
    moreover have "\<not> lt (fst x) (fst e)" using True Cons.prems weak_order.asym[OF assms(1)] by auto
    ultimately show ?thesis using True Cons.prems by (auto simp: insert_after_def)
  next
    case False
    have "set (insert_after lt e xs) = set (e # xs)"
      unfolding insert_after_def by (metis Un_insert_right append.simps(2) list.simps(15) set_append takeWhile_dropWhile_id)
    then have "sorted_wrt (\<lambda>a b. \<not> lt (fst b) (fst a)) (x # insert_after lt e xs)"
      using Cons False by simp
    then show ?thesis using False by (simp add: insert_after_def)
  qed
qed (simp add: insert_after_def)

lemma set_insert_after: "set (insert_after lt e xs) = set (e # xs)"
  unfolding insert_after_def by (metis Un_insert_right append.simps(2) list.simps(15) set_append takeWhile_dropWhile_id)

section \<open>A store that keeps the contract\<close>

text \<open>
  The documented behaviour, executable: a sorted list of entries, cursors as indices into it, and
  the number of entries that there is room for, if it is bounded. An insertion fails when there
  is none.
\<close>

record ('k, 'r) mem_store =
  mem_entries :: "('k \<times> 'r) list"
  mem_cursors :: "nat \<Rightarrow> nat option"
  mem_next :: nat
  mem_room :: "nat option"

definition mem_goto :: "nat \<Rightarrow> nat option \<Rightarrow> ('k, 'r) mem_store \<Rightarrow> ups_status \<times> ('k \<times> 'r) \<times> ('k, 'r) mem_store" where
  "mem_goto c target d = (case target of
     None \<Rightarrow> (UPS_KEY_NOT_FOUND, mem_entries d ! 0, d)
   | Some i \<Rightarrow> (UPS_SUCCESS, mem_entries d ! i, d\<lparr>mem_cursors := (mem_cursors d)(c \<mapsto> i)\<rparr>))"

definition mem_insert ::
  "('k \<Rightarrow> 'k \<Rightarrow> bool) \<Rightarrow> 'k \<times> 'r \<Rightarrow> ('k, 'r) mem_store \<Rightarrow> ups_status \<times> unit \<times> ('k, 'r) mem_store" where
  "mem_insert lt e d =
     (if mem_room d = Some 0 then (UPS_OTHER (- 24), (), d)
      else (UPS_SUCCESS, (), d\<lparr>mem_entries := insert_after lt e (mem_entries d), mem_cursors := Map.empty,
        mem_room := map_option (\<lambda>n. n - 1) (mem_room d)\<rparr>))"

definition mem_ups :: "('k \<Rightarrow> 'k \<Rightarrow> bool) \<Rightarrow> (('k, 'r) mem_store, 'k, 'r) ups" where
  "mem_ups lt = \<lparr>
     ups_env_open = (\<lambda>path autocommit cache d. (UPS_SUCCESS, (), d)),
     ups_env_create = (\<lambda>path autocommit cache page d. (UPS_SUCCESS, (), d)),
     ups_env_create_db = (\<lambda>dup type size d. (UPS_SUCCESS, (), d)),
     ups_env_open_db = (\<lambda>d. (UPS_SUCCESS, (), d)),
     ups_env_close = (\<lambda>d. (UPS_SUCCESS, (), d)),
     ups_txn_begin = (\<lambda>name d. (UPS_SUCCESS, 0, d)),
     ups_txn_commit = (\<lambda>t d. (UPS_SUCCESS, (), d)),
     ups_txn_abort = (\<lambda>t d. (UPS_SUCCESS, (), d)),
     ups_db_insert = (\<lambda>dup e. mem_insert lt e),
     ups_cursor_create = (\<lambda>t d. (UPS_SUCCESS, mem_next d, d\<lparr>mem_next := mem_next d + 1\<rparr>)),
     ups_cursor_close = (\<lambda>c d. (UPS_SUCCESS, (), d\<lparr>mem_cursors := (mem_cursors d)(c := None)\<rparr>)),
     ups_cursor_move = (\<lambda>c m d. mem_goto c (move_target m (mem_cursors d c) (mem_entries d)) d),
     ups_cursor_find = (\<lambda>c flag key d. mem_goto c (find_target lt flag key (mem_entries d)) d)\<rparr>"

definition mem_ok :: "(nat option \<Rightarrow> bool) \<Rightarrow> ('k \<Rightarrow> 'k \<Rightarrow> bool) \<Rightarrow> ('k \<Rightarrow> bool) \<Rightarrow> ('k, 'r) mem_store \<Rightarrow> bool" where
  "mem_ok P lt okk d = ((\<forall>e \<in> set (mem_entries d). okk (fst e)) \<and>
     sorted_wrt (\<lambda>a b. \<not> lt (fst b) (fst a)) (mem_entries d) \<and> P (mem_room d))"

lemma mem_goto_result:
  "mem_ok P lt okk d \<Longrightarrow> cursor_result (mem_ok P lt okk) mem_entries mem_cursors d c target (mem_goto c target d)"
  by (cases target) (simp_all add: cursor_result_def mem_goto_def mem_ok_def)

lemma mem_contract:
  assumes "weak_order lt okk" "\<And>r. P r \<Longrightarrow> P (map_option (\<lambda>n. n - 1) r)"
  shows "ups_store lt okk (mem_ups lt) (mem_ok P lt okk) mem_entries mem_cursors"
proof (rule ups_store.intro[OF assms(1)], unfold_locales)
  fix d :: "('a, 'b) mem_store" and e :: "'a \<times> 'b" and name c t key flag m
  assume ok: "mem_ok P lt okk d"
  show "e \<in> set (mem_entries d) \<Longrightarrow> okk (fst e)" using ok by (auto simp: mem_ok_def)
  show "sorted_wrt (\<lambda>a b. \<not> lt (fst b) (fst a)) (mem_entries d)" using ok by (simp add: mem_ok_def)
  show "cursor_result (mem_ok P lt okk) mem_entries mem_cursors d c
      (find_target lt flag key (mem_entries d)) (ups_cursor_find (mem_ups lt) c flag key d)"
    using mem_goto_result[OF ok] by (simp add: mem_ups_def)
  show "cursor_result (mem_ok P lt okk) mem_entries mem_cursors d c
      (move_target m (mem_cursors d c) (mem_entries d)) (ups_cursor_move (mem_ups lt) c m d)"
    using mem_goto_result[OF ok] by (simp add: mem_ups_def)
  show "call_result (mem_ok P lt okk) mem_entries (insert_after lt e (mem_entries d)) d (ups_db_insert (mem_ups lt) True e d) \<and>
      fst (ups_db_insert (mem_ups lt) True e d) \<noteq> UPS_DUPLICATE_KEY" if "okk (fst e)"
    using ok that assms(2)[of "mem_room d"] insert_after_sorted[OF assms(1), of "mem_entries d" e]
    by (auto simp: mem_ups_def mem_insert_def mem_ok_def set_insert_after call_result_def)
qed (auto simp: mem_ups_def mem_ok_def call_result_def)

text \<open>Any such store of timestamps keeps the contract; one without a bound is also reliable.\<close>

interpretation time_store: ups_store "(<) :: double \<Rightarrow> double \<Rightarrow> bool" "\<lambda>x. \<not> isnan x" "mem_ups (<)"
  "mem_ok (\<lambda>r. True) (<) (\<lambda>x. \<not> isnan x)" mem_entries mem_cursors
  by (rule mem_contract[OF dbl.weak_order_axioms]) simp

interpretation roomy_store: ups_store "(<) :: double \<Rightarrow> double \<Rightarrow> bool" "\<lambda>x. \<not> isnan x" "mem_ups (<)"
  "mem_ok (\<lambda>r. r = None) (<) (\<lambda>x. \<not> isnan x)" mem_entries mem_cursors
  by (rule mem_contract[OF dbl.weak_order_axioms]) simp

lemma roomy_reliable: "reliable (mem_ups lt) (mem_ok (\<lambda>r. r = None) lt okk)"
  by (simp add: reliable_def mem_ups_def mem_insert_def mem_goto_def mem_ok_def split: option.split)

section \<open>The tree over any store that keeps the contract\<close>

lemma insert_after_equiv:
  assumes "weak_order lt okk" "sorted_wrt (\<lambda>a b. \<not> lt (fst b) (fst a)) es" "\<forall>x \<in> set es. okk (fst x)" "okk k"
  shows "filter (\<lambda>x. \<not> lt (fst x) k \<and> \<not> lt k (fst x)) (insert_after lt (k, r) es) =
    filter (\<lambda>x. \<not> lt (fst x) k \<and> \<not> lt k (fst x)) es @ [(k, r)]"
proof -
  let ?P = "\<lambda>x. \<not> lt (fst x) k \<and> \<not> lt k (fst x)"
  have "sorted_wrt (\<lambda>x y. \<not> lt k (fst y) \<longrightarrow> \<not> lt k (fst x)) es"
    by (rule sorted_wrt_mono_rel[OF _ assms(2)]) (use assms(3,4) weak_order.neg_trans[OF assms(1,4)] in blast)
  from dropWhile_eq_filter_mono[OF this] have above: "filter ?P (dropWhile (\<lambda>x. \<not> lt k (fst x)) es) = []"
    by (simp add: filter_empty_conv)
  have "filter ?P es = filter ?P (takeWhile (\<lambda>x. \<not> lt k (fst x)) es @ dropWhile (\<lambda>x. \<not> lt k (fst x)) es)"
    by (simp only: takeWhile_dropWhile_id)
  then show ?thesis using above weak_order.irrefl[OF assms(1,4)]
    unfolding insert_after_def filter_append by (simp del: filter_filter)
qed

lemma head_takeWhile_filter:
  assumes "sorted_wrt (\<lambda>x y. Q y \<longrightarrow> Q x) es"
  shows "(case filter P es of [] \<Rightarrow> [] | x # xs \<Rightarrow> x # takeWhile Q xs) =
    (if \<exists>x \<in> set es. P x \<and> Q x then filter (\<lambda>x. P x \<and> Q x) es else take 1 (filter P es))"
proof (cases "filter P es")
  case Nil
  then have "\<not> (\<exists>x \<in> set es. P x \<and> Q x)" by (auto simp: filter_empty_conv)
  then show ?thesis using Nil by simp
next
  case (Cons x xs)
  have "sorted_wrt (\<lambda>x y. Q y \<longrightarrow> Q x) (filter P es)" using assms by (rule sorted_wrt_filter)
  then have s: "sorted_wrt (\<lambda>x y. Q y \<longrightarrow> Q x) (x # xs)" using Cons by simp
  have all: "filter (\<lambda>x. P x \<and> Q x) es = filter Q (x # xs)" unfolding Cons[symmetric] by (simp add: conj_commute)
  have "(\<exists>x \<in> set es. P x \<and> Q x) \<longleftrightarrow> filter (\<lambda>x. P x \<and> Q x) es \<noteq> []" by (simp add: filter_empty_conv)
  also have "\<dots> \<longleftrightarrow> Q x" unfolding all using s by (auto simp: filter_empty_conv)
  finally have ex: "(\<exists>x \<in> set es. P x \<and> Q x) = Q x" .
  show ?thesis unfolding ex all unfolding Cons using s takeWhile_eq_filter_mono[of Q xs] by (auto simp: filter_empty_conv)
qed

text \<open>
  C19: A loop over the whole tree visits the records in the order of their keys, and so does a
  second loop. A loop over an interval visits the records after its beginning up to its end,
  when there are any; when there is none it visits the first record beyond the end, which
  \<open>init\<close> does not check. A loop over one key visits its records. A loop
  has no result only when a call of the library fails or stays in conflict.
\<close>

theorem ubt_loops:
  assumes "ups_store lt okk U ok entries pos" "ok d" "okk b" "okk e" "lt b e" "eq b b" "\<not> eq b e"
  shows "visits (reliable U ok) (range_items (Some (ubt_range_data lt U)) (ubt_get t b r, d)) (\<lambda>xs s.
      xs = map snd (entries d) \<and>
      visits (reliable U ok) (range_items (Some (ubt_range_data lt U)) s) (\<lambda>ys s. ys = map snd (entries d))) \<and>
    visits (reliable U ok) (range_items (Some (ubt_range_data lt U)) (ubt_get_interval eq lt t r b e, d)) (\<lambda>xs s.
      xs = map snd (if \<exists>x \<in> set (entries d). lt b (fst x) \<and> \<not> lt e (fst x)
        then filter (\<lambda>x. lt b (fst x) \<and> \<not> lt e (fst x)) (entries d)
        else take 1 (filter (\<lambda>x. lt b (fst x)) (entries d)))) \<and>
    visits (reliable U ok) (range_items (Some (ubt_range_data lt U)) (ubt_get_key eq lt t r b, d)) (\<lambda>xs s.
      xs = map snd (filter (\<lambda>x. \<not> lt (fst x) b \<and> \<not> lt b (fst x)) (entries d)))"
proof (intro conjI)
  note full = ups_store.full_visits[OF assms(1)]
  show "visits (reliable U ok) (range_items (Some (ubt_range_data lt U)) (ubt_get t b r, d)) (\<lambda>xs s.
      xs = map snd (entries d) \<and>
      visits (reliable U ok) (range_items (Some (ubt_range_data lt U)) s) (\<lambda>ys s. ys = map snd (entries d)))"
  proof (rule visits_mono[OF full[OF assms(2)]])
    have again: "visits (reliable U ok) (range_items (Some (ubt_range_data lt U)) (s, d')) (\<lambda>ys s. ys = map snd (entries d))"
      if "ok d'" "entries d' = entries d" "ubr_is_fullrange s" "\<not> ubr_is_reverse s" for s :: "('a, 'c) ubt_range" and d'
      by (rule visits_mono[OF full[OF that(1,3,4)]]) (use that(2) in auto)
    fix xs and s :: "('a, 'c) ubt_range \<times> 'b"
    assume "case s of (s', d') \<Rightarrow> xs = map snd (entries d) \<and> ok d' \<and> entries d' = entries d \<and> ubr_is_fullrange s' \<and> \<not> ubr_is_reverse s'"
    then show "xs = map snd (entries d) \<and> visits (reliable U ok) (range_items (Some (ubt_range_data lt U)) s) (\<lambda>ys s. ys = map snd (entries d))"
      using again by (cases s) auto
  qed (simp_all add: ubt_get_def mk_full_range_def)
  show "visits (reliable U ok) (range_items (Some (ubt_range_data lt U)) (ubt_get_interval eq lt t r b e, d)) (\<lambda>xs s.
      xs = map snd (if \<exists>x \<in> set (entries d). lt b (fst x) \<and> \<not> lt e (fst x)
        then filter (\<lambda>x. lt b (fst x) \<and> \<not> lt e (fst x)) (entries d)
        else take 1 (filter (\<lambda>x. lt b (fst x)) (entries d))))"
    unfolding head_takeWhile_filter[OF ups_store.above_sorted(1)[OF assms(1,2,4)], symmetric]
    by (rule visits_mono[OF ups_store.interval_visits[where eq = eq, OF assms(1-5,7), of t r]]) auto
  show "visits (reliable U ok) (range_items (Some (ubt_range_data lt U)) (ubt_get_key eq lt t r b, d)) (\<lambda>xs s.
      xs = map snd (filter (\<lambda>x. \<not> lt (fst x) b \<and> \<not> lt b (fst x)) (entries d)))"
    by (rule visits_mono[OF ups_store.point_visits[where eq = eq, OF assms(1-3,6), of t r]]) auto
qed

text \<open>
  A loop from a key down to a smaller one begins with the first record that is not below
  the key, so with one above it when the key is absent, and visits nothing when every record is
  below the key, also when there are records in the interval.
\<close>

theorem ubt_reverse_loop:
  assumes "ups_store lt okk U ok entries pos" "ok d" "okk b" "okk e" "lt e b" "\<not> eq b e"
  shows "visits (reliable U ok) (range_items (Some (ubt_range_data lt U)) (ubt_get_interval eq lt t r b e, d)) (\<lambda>xs s.
    xs = map snd (case filter (\<lambda>x. \<not> lt (fst x) b) (entries d) of [] \<Rightarrow> []
     | x # xs \<Rightarrow> x # takeWhile (\<lambda>x. \<not> lt (fst x) e) (rev (filter (\<lambda>x. lt (fst x) b) (entries d)))))"
  by (rule visits_mono[OF ups_store.reverse_visits[where eq = eq, OF assms, of t r]]) auto

lemma mset_insert_after: "mset (insert_after lt e es) = add_mset e (mset es)"
  using mset_append[of "takeWhile (\<lambda>x. \<not> lt (fst e) (fst x)) es" "dropWhile (\<lambda>x. \<not> lt (fst e) (fst x)) es"]
  unfolding takeWhile_dropWhile_id insert_after_def by simp

lemma ubt_inserted:
  assumes "ups_store lt okk U ok entries pos" "ok d" "okk k" "ubt_allow_duplicates t"
  shows "yields (reliable U ok) (ubt_insert U t k r d) (\<lambda>_ d'. ok d' \<and> mset (entries d') = add_mset (k, r) (mset (entries d)))"
  by (rule yields_mono[OF ups_store.insert_yields[OF assms]]) (simp add: mset_insert_after)

text \<open>No key is below the first one or above the last one.\<close>

lemma sorted_ends:
  assumes "weak_order lt okk" "sorted_wrt (\<lambda>a b. \<not> lt (fst b) (fst a)) es" "\<forall>x \<in> set es. okk (fst x)" "x \<in> set es"
  shows "\<not> lt (fst x) (fst (hd es))" "\<not> lt (fst (last es)) (fst x)"
proof -
  note irrefl = weak_order.irrefl[OF assms(1)]
  show "\<not> lt (fst x) (fst (hd es))" using assms(2-) irrefl by (cases es) auto
  show "\<not> lt (fst (last es)) (fst x)" using assms(2-) irrefl by (cases es rule: rev_cases) (auto simp: sorted_wrt_append)
qed

text \<open>
  C18: What has been inserted can be read back: the records under the key are those that were
  there and then the new one, all other records stay, the counts see one more, and the extreme
  keys are keys that enclose every key. An operation has no result only when a call of the
  library fails, and then it throws an exception of the library, or stays in conflict.
\<close>

theorem ubt_insert_read:
  assumes "ups_store lt okk U ok entries pos" "ok d" "okk k" "ubt_allow_duplicates t"
    and "\<And>x y. okk x \<Longrightarrow> okk y \<Longrightarrow> eq x y = (\<not> lt x y \<and> \<not> lt y x)"
  shows "yields (reliable U ok) (ubt_insert U t k r d) (\<lambda>_ d'. ok d' \<and>
    mset (entries d') = add_mset (k, r) (mset (entries d)) \<and>
    visits (reliable U ok) (range_items (Some (ubt_range_data lt U)) (ubt_get_key eq lt t r0 k, d')) (\<lambda>xs s.
      xs = map snd (filter (\<lambda>x. eq (fst x) k) (entries d)) @ [r]) \<and>
    yields (reliable U ok) (ubt_count_key lt eq U t k False d') (\<lambda>n d''. n = length (filter (\<lambda>x. eq (fst x) k) (entries d)) + 1) \<and>
    yields (reliable U ok) (ubt_contains_key lt eq U t k d') (\<lambda>b d. b) \<and>
    yields (reliable U ok) (ubt_lowest_key U t d') (\<lambda>low d. low \<in> fst ` set (entries d') \<and> (\<forall>x \<in> set (entries d'). \<not> lt (fst x) low)) \<and>
    yields (reliable U ok) (ubt_highest_key U t d') (\<lambda>high d. high \<in> fst ` set (entries d') \<and> (\<forall>x \<in> set (entries d'). \<not> lt high (fst x))))"
proof (rule yields_mono[OF ups_store.insert_yields[OF assms(1-4)]], elim conjE, intro conjI)
  fix d' assume d': "ok d'" "entries d' = insert_after lt (k, r) (entries d)"
  note wo = ups_store.axioms(1)[OF assms(1)]
  note okk = ups_store.entries_okk[OF assms(1)]
  note sorted = ups_store.entries_sorted[OF assms(1)]
  have equiv: "filter (\<lambda>x. \<not> lt (fst x) k \<and> \<not> lt k (fst x)) (entries d) = filter (\<lambda>x. eq (fst x) k) (entries d)"
    using okk[OF assms(2)] assms(3,5) by (intro filter_cong) auto
  have here: "filter (\<lambda>x. \<not> lt (fst x) k \<and> \<not> lt k (fst x)) (entries d') = filter (\<lambda>x. eq (fst x) k) (entries d) @ [(k, r)]"
    unfolding d'(2) equiv[symmetric]
    by (rule insert_after_equiv[OF wo sorted[OF assms(2)] _ assms(3)]) (use okk[OF assms(2)] in blast)
  have refl: "eq k k" using assms(3,5) weak_order.irrefl[OF wo assms(3)] by blast
  have ne: "entries d' \<noteq> []" unfolding d'(2) by (simp add: insert_after_def)
  note ends = sorted_ends[OF wo sorted[OF d'(1)]]
  note count = ups_store.count_where_yields[OF assms(1) d'(1) assms(3), of t "\<lambda>x. eq (fst x) k", unfolded here]
  show "ok d'" by fact
  show "mset (entries d') = add_mset (k, r) (mset (entries d))" unfolding d'(2) by (rule mset_insert_after)
  show "visits (reliable U ok) (range_items (Some (ubt_range_data lt U)) (ubt_get_key eq lt t r0 k, d')) (\<lambda>xs s.
      xs = map snd (filter (\<lambda>x. eq (fst x) k) (entries d)) @ [r])"
    by (rule visits_mono[OF ups_store.point_visits[where eq = eq, OF assms(1) d'(1) assms(3) refl, of t r0]]) (auto simp: here)
  show "yields (reliable U ok) (ubt_count_key lt eq U t k False d') (\<lambda>n d''. n = length (filter (\<lambda>x. eq (fst x) k) (entries d)) + 1)"
    unfolding ubt_count_key_def by (rule yields_mono[OF count]) (simp add: refl)
  show "yields (reliable U ok) (ubt_contains_key lt eq U t k d') (\<lambda>b d. b)"
    unfolding ubt_contains_key_def ubt_count_key_def yields_def
    by (intro runs_bind, rule runs_mono[OF count[unfolded yields_def]]) (auto simp: refl)
  show "yields (reliable U ok) (ubt_lowest_key U t d') (\<lambda>low d. low \<in> fst ` set (entries d') \<and> (\<forall>x \<in> set (entries d'). \<not> lt (fst x) low))"
    unfolding ubt_lowest_key_def
    by (rule yields_mono[OF ups_store.extremum_yields[OF assms(1) d'(1) ne]]) (use ends(1) okk[OF d'(1)] ne in auto)
  show "yields (reliable U ok) (ubt_highest_key U t d') (\<lambda>high d. high \<in> fst ` set (entries d') \<and> (\<forall>x \<in> set (entries d'). \<not> lt high (fst x)))"
    unfolding ubt_highest_key_def
    by (rule yields_mono[OF ups_store.extremum_yields[OF assms(1) d'(1) ne]]) (use ends(2) okk[OF d'(1)] ne in auto)
qed


section \<open>Witnesses\<close>

definition demo_store :: "(double, nat) mem_store" where
  "demo_store = \<lparr>mem_entries = [(lit 1, 10), (lit 5, 50), (lit 5, 51)], mem_cursors = Map.empty, mem_next = 1, mem_room = None\<rparr>"

definition demo_ubt :: ubt where
  "demo_ubt = \<lparr>ubt_path = ''x'', ubt_allow_duplicates = True, ubt_autocommit = False, ubt_cache_size = 16, ubt_read_txn = 1\<rparr>"

lemma demo_order:
  "lit 1 < lit 2" "lit 2 < lit 3" "lit 3 < lit 5" "lit 2 < lit 5" "lit 1 < lit 3" "lit 1 < lit 5"
  "\<not> lit 5 < lit 1" "\<not> lit 5 < lit 3" "\<not> lit 5 < lit 2" "\<not> lit 3 < lit 1" "\<not> lit 2 < lit 1" "\<not> lit 5 < lit 5"
  "\<not> isnan (lit 1)" "\<not> isnan (lit 2)" "\<not> isnan (lit 3)" "\<not> isnan (lit 5)"
  "d_eq (lit 2) (lit 2)" "\<not> d_eq (lit 2) (lit 3)" "\<not> d_eq (lit 3) (lit 2)" "\<not> d_eq (lit 1) (lit 5)" "d_eq (lit 5) (lit 5)"
  by code_simp+

lemma demo_ok: "mem_ok (\<lambda>r. r = None) (<) (\<lambda>x. \<not> isnan x) demo_store"
  by (simp add: mem_ok_def demo_store_def demo_order)

lemma visits_sure: "visits True r Q \<longleftrightarrow> (\<exists>xs s. r = Some (xs, s) \<and> Q xs s)"
  by (auto simp: visits_def split: option.split)

lemma yields_sure: "yields True r Q \<longleftrightarrow> (\<exists>x d. r = Some (Inr x, d) \<and> Q x d)"
  by (auto simp: yields_def runs_def split: option.split sum.split)

theorem ubt_loops_witness:
  "map_option fst (range_items (Some (ubt_range_data (<) (mem_ups (<)))) (ubt_get_interval d_eq (<) demo_ubt 0 (lit 2) (lit 3), demo_store)) =
     Some [50]"
  using ubt_loops[OF roomy_store.ups_store_axioms demo_ok, of "lit 2" "lit 3" d_eq demo_ubt 0, THEN conjunct2, THEN conjunct1]
  by (simp add: demo_order roomy_reliable visits_sure) (auto simp: demo_store_def demo_order)

theorem ubt_reverse_loop_witness:
  "map_option fst (range_items (Some (ubt_range_data (<) (mem_ups (<)))) (ubt_get_interval d_eq (<) demo_ubt 0 (lit 3) (lit 2), demo_store)) =
     Some [50]"
  using ubt_reverse_loop[OF roomy_store.ups_store_axioms demo_ok, of "lit 3" "lit 2" d_eq demo_ubt 0]
  by (simp add: demo_order roomy_reliable visits_sure) (auto simp: demo_store_def demo_order)

theorem ubt_insert_read_witness:
  "\<exists>d'. ubt_insert (mem_ups (<)) demo_ubt (lit 5) 52 demo_store = Some (Inr () :: double db_error + unit, d') \<and>
    map_option fst (range_items (Some (ubt_range_data (<) (mem_ups (<)))) (ubt_get_key d_eq (<) demo_ubt 0 (lit 5), d')) =
      Some [50, 51, 52]"
proof -
  have "d_eq x y = (\<not> x < y \<and> \<not> y < x)" if "\<not> isnan x" "\<not> isnan y" for x y
    using that by (auto simp: eq_key less_key)
  from ubt_insert_read[OF roomy_store.ups_store_axioms demo_ok _ _ this, of "lit 5" demo_ubt 52 0]
  show ?thesis by (simp add: demo_order demo_ubt_def roomy_reliable visits_sure yields_sure) (auto simp: demo_store_def demo_order)
qed

end
