(* ===== verification/DB_History.thy ===== *)
theory DB_History
  imports Upscale History
begin

text \<open>
  \<open>src/history/DBHistory.hpp\<close>: a history that appends every item to a plain log and, except for
  orders, inserts it in a tree under its timestamp. Each tree is a database of its own, with its
  own state of the library.
\<close>

section \<open>The object and its world\<close>

record ('a, 'b, 'c) db_world =
  dw_disk :: disk
  dw_balances :: 'a
  dw_trades :: 'b
  dw_decisions :: 'c

record ('a, 'b, 'c) db_libs =
  lib_balances :: "('a, timestamp, balance_change) ups"
  lib_trades :: "('b, timestamp, trade) ups"
  lib_decisions :: "('c, timestamp, decision) ups"

record db_history =
  db_basepath :: string
  db_basepath_is_initialized :: bool
  db_balance_changes :: plain_writer
  db_balance_changes_by_timestamp :: ubt
  db_trades :: plain_writer
  db_trades_by_timestamp :: ubt
  db_orders :: plain_writer
  db_decisions :: plain_writer
  db_decisions_by_timestamp :: ubt

type_synonym ('a, 'b, 'c, 'x) db_action = "(('a, 'b, 'c) db_world, timestamp, 'x) action"

text \<open>An operation on one part of the world.\<close>

definition on_disk :: "(disk \<Rightarrow> (exn + 'x) \<times> disk) \<Rightarrow> ('a, 'b, 'c, 'x) db_action" where
  "on_disk f w = (case f (dw_disk w) of (r, d) \<Rightarrow>
     Some (case r of Inl e \<Rightarrow> Inl (Other_error e) | Inr x \<Rightarrow> Inr x, w\<lparr>dw_disk := d\<rparr>))"

definition on_balances :: "('a, timestamp, 'x) action \<Rightarrow> ('a, 'b, 'c, 'x) db_action" where
  "on_balances m w = map_option (\<lambda>(r, d). (r, w\<lparr>dw_balances := d\<rparr>)) (m (dw_balances w))"

definition on_trades :: "('b, timestamp, 'x) action \<Rightarrow> ('a, 'b, 'c, 'x) db_action" where
  "on_trades m w = map_option (\<lambda>(r, d). (r, w\<lparr>dw_trades := d\<rparr>)) (m (dw_trades w))"

definition on_decisions :: "('c, timestamp, 'x) action \<Rightarrow> ('a, 'b, 'c, 'x) db_action" where
  "on_decisions m w = map_option (\<lambda>(r, d). (r, w\<lparr>dw_decisions := d\<rparr>)) (m (dw_decisions w))"

section \<open>The constructor\<close>

text \<open>
  The handler is for \<open>std::exception\<close>, which is a private base of the exception that
  \<open>make_directory\<close> throws itself.
\<close>

definition init_directory :: "string \<Rightarrow> string \<Rightarrow> disk \<Rightarrow> (exn + bool) \<times> disk" where
  "init_directory cwd path d = (case make_directory cwd path d of
     (Inl e, d) \<Rightarrow> (if catches StdException (exn_class e) then Inr False else Inl e, d)
   | (Inr _, d) \<Rightarrow> (Inr True, d))"

definition open_log :: "string \<Rightarrow> string \<Rightarrow> ('a, 'b, 'c, plain_writer) db_action" where
  "open_log err path = on_disk (\<lambda>d. case mk_plain_writer err d path of Inl e \<Rightarrow> (Inl e, d) | Inr (w, d) \<Rightarrow> (Inr w, d))"

definition open_tree :: "('d, timestamp, 'r) ups \<Rightarrow> string \<Rightarrow> string \<Rightarrow> (disk \<times> 'd, timestamp, ubt) action" where
  "open_tree U cwd path = mk_ubt U cwd Key_Timestamp path True (2 ^ 24) False"

text \<open>The members are constructed in the order of their declarations.\<close>

definition mk_db_history ::
  "('a, 'b, 'c) db_libs \<Rightarrow> string \<Rightarrow> string \<Rightarrow> string \<Rightarrow> ('a, 'b, 'c, db_history) db_action" where
  "mk_db_history L err cwd basepath =
     db_bind (on_disk (init_directory cwd basepath)) (\<lambda>is_initialized.
     db_bind (open_log err (basepath @ ''/balance_changes'')) (\<lambda>balance_changes.
     db_bind (\<lambda>w. map_option (\<lambda>(r, disk, d). (r, w\<lparr>dw_disk := disk, dw_balances := d\<rparr>))
         (open_tree (lib_balances L) cwd (basepath @ ''/balance_changes_by_timestamp'') (dw_disk w, dw_balances w))) (\<lambda>by_balance.
     db_bind (open_log err (basepath @ ''/trades'')) (\<lambda>trades.
     db_bind (\<lambda>w. map_option (\<lambda>(r, disk, d). (r, w\<lparr>dw_disk := disk, dw_trades := d\<rparr>))
         (open_tree (lib_trades L) cwd (basepath @ ''/trades_by_timestamp'') (dw_disk w, dw_trades w))) (\<lambda>by_trade.
     db_bind (open_log err (basepath @ ''/orders'')) (\<lambda>orders.
     db_bind (open_log err (basepath @ ''/decisions'')) (\<lambda>decisions.
     db_bind (\<lambda>w. map_option (\<lambda>(r, disk, d). (r, w\<lparr>dw_disk := disk, dw_decisions := d\<rparr>))
         (open_tree (lib_decisions L) cwd (basepath @ ''/decisions_by_timestamp'') (dw_disk w, dw_decisions w))) (\<lambda>by_decision.
     db_return \<lparr>db_basepath = basepath, db_basepath_is_initialized = is_initialized,
       db_balance_changes = balance_changes, db_balance_changes_by_timestamp = by_balance,
       db_trades = trades, db_trades_by_timestamp = by_trade, db_orders = orders,
       db_decisions = decisions, db_decisions_by_timestamp = by_decision\<rparr>))))))))"

section \<open>Feeding\<close>

text \<open>\<open>err\<close> and \<open>result\<close> are the error text and the outcome of the write to the log.\<close>

definition db_feed_balance_change ::
  "('a, 'b, 'c) db_libs \<Rightarrow> string \<Rightarrow> write_result \<Rightarrow> db_history \<Rightarrow> balance_change \<Rightarrow> ('a, 'b, 'c, unit) db_action" where
  "db_feed_balance_change L err result h bc =
     db_bind (on_disk (plain_append err result (balance_change_bytes bc) (db_balance_changes h))) (\<lambda>_.
     on_balances (ubt_insert (lib_balances L) (db_balance_changes_by_timestamp h) (bc_timestamp bc) bc))"

definition db_feed_trade ::
  "('a, 'b, 'c) db_libs \<Rightarrow> string \<Rightarrow> write_result \<Rightarrow> db_history \<Rightarrow> trade \<Rightarrow> ('a, 'b, 'c, unit) db_action" where
  "db_feed_trade L err result h t =
     db_bind (on_disk (plain_append err result (trade_bytes t) (db_trades h))) (\<lambda>_.
     on_trades (ubt_insert (lib_trades L) (db_trades_by_timestamp h) (t_timestamp t) t))"

definition db_feed_order ::
  "string \<Rightarrow> write_result \<Rightarrow> db_history \<Rightarrow> order \<Rightarrow> ('a, 'b, 'c, unit) db_action" where
  "db_feed_order err result h r = on_disk (plain_append err result (order_bytes r) (db_orders h))"

definition db_feed_decision ::
  "('a, 'b, 'c) db_libs \<Rightarrow> string \<Rightarrow> write_result \<Rightarrow> db_history \<Rightarrow> decision \<Rightarrow> ('a, 'b, 'c, unit) db_action" where
  "db_feed_decision L err result h d =
     db_bind (on_disk (plain_append err result (decision_bytes d) (db_decisions h))) (\<lambda>_.
     on_decisions (ubt_insert (lib_decisions L) (db_decisions_by_timestamp h) (d_timestamp d) d))"

section \<open>Reading\<close>

text \<open>
  What a loop over the range of a log sees, decoded. The value object of the range starts as
  \<open>value\<close>.
\<close>

definition log_items :: "nat \<Rightarrow> (byte list \<Rightarrow> 'x option) \<Rightarrow> plain_writer \<Rightarrow> disk \<Rightarrow> byte list \<Rightarrow> 'x option list option" where
  "log_items sz decode w d value = (case plain_get sz w d value of (r, s) \<Rightarrow> map_option (map decode \<circ> fst) (range_items r s))"

definition db_get_balance_changes :: "db_history \<Rightarrow> disk \<Rightarrow> byte list \<Rightarrow> balance_change option list option" where
  "db_get_balance_changes h d value = log_items 68 decode_balance_change (db_balance_changes h) d value"

definition db_get_trades :: "db_history \<Rightarrow> disk \<Rightarrow> byte list \<Rightarrow> trade option list option" where
  "db_get_trades h d value = log_items 60 decode_trade (db_trades h) d value"

definition db_get_orders :: "db_history \<Rightarrow> disk \<Rightarrow> byte list \<Rightarrow> order option list option" where
  "db_get_orders h d value = log_items 36 decode_order (db_orders h) d value"

definition db_get_decisions :: "db_history \<Rightarrow> disk \<Rightarrow> byte list \<Rightarrow> decision option list option" where
  "db_get_decisions h d value = log_items 92 decode_decision (db_decisions h) d value"

definition db_get_trades_by_timestamp ::
  "('a, 'b, 'c) db_libs \<Rightarrow> db_history \<Rightarrow> trade \<Rightarrow> timestamp \<Rightarrow> timestamp \<Rightarrow> 'b \<Rightarrow> trade list option" where
  "db_get_trades_by_timestamp L h value b e d = map_option fst (range_items (Some (ubt_range_data (<) (lib_trades L)))
     (ubt_get_interval d_eq (<) (db_trades_by_timestamp h) value b e, d))"

text \<open>
  \<open>get_balance_at_timestamp\<close> takes a reference that is not constant, so it does not override
  the method of the base class. Its loop has no body.
\<close>

definition db_get_balance_at_timestamp :: "db_history \<Rightarrow> disk \<Rightarrow> byte list \<Rightarrow> timestamp \<Rightarrow> balance option" where
  "db_get_balance_at_timestamp h d value ts = map_option (\<lambda>_. mk_balance) (db_get_balance_changes h d value)"

definition or_nan :: "('d, 'k, timestamp) action \<Rightarrow> ('d, 'k, timestamp) action" where
  "or_nan m = db_catch m (\<lambda>e. case e of Ups_error _ _ \<Rightarrow> db_return NAN | _ \<Rightarrow> db_throw e)"

definition db_get_time_span :: "('a, 'b, 'c) db_libs \<Rightarrow> db_history \<Rightarrow> ('a, 'b, 'c, timestamp_span) db_action" where
  "db_get_time_span L h =
     on_trades (db_bind (or_nan (ubt_lowest_key (lib_trades L) (db_trades_by_timestamp h))) (\<lambda>from.
       db_bind (or_nan (ubt_highest_key (lib_trades L) (db_trades_by_timestamp h))) (\<lambda>to.
       db_return (mk_span\<lparr>span_from := from, span_to := to\<rparr>))))"


section \<open>What the log and the tree of the trades hold\<close>

definition trade_entries :: "trade list \<Rightarrow> (timestamp \<times> trade) list" where
  "trade_entries ts = map (\<lambda>t. (t_timestamp t, t)) ts"

definition db_log_holds :: "db_history \<Rightarrow> disk \<Rightarrow> trade list \<Rightarrow> bool" where
  "db_log_holds h d ts =
     (file_bytes d (pw_path (db_trades h)) = concat (map trade_bytes ts) \<and>
      map_of (d_files d) (pw_path (db_trades h)) \<noteq> None \<and> d_readable d (pw_path (db_trades h)))"

definition db_tree_holds :: "('b \<Rightarrow> bool) \<Rightarrow> ('b \<Rightarrow> (timestamp \<times> trade) list) \<Rightarrow> db_history \<Rightarrow> 'b \<Rightarrow> trade list \<Rightarrow> bool" where
  "db_tree_holds ok entries h d ts =
     (ok d \<and> ubt_allow_duplicates (db_trades_by_timestamp h) \<and> mset (entries d) = mset (trade_entries ts))"

text \<open>A sequence of trades is fed one after the other.\<close>

fun db_feed_trades :: "('a, 'b, 'c) db_libs \<Rightarrow> string \<Rightarrow> db_history \<Rightarrow> trade list \<Rightarrow> ('a, 'b, 'c, unit) db_action" where
  "db_feed_trades L err h [] = db_return ()"
| "db_feed_trades L err h (t # ts) = db_bind (db_feed_trade L err Written h t) (\<lambda>_. db_feed_trades L err h ts)"

lemma db_log_append:
  "db_log_holds h d ts \<Longrightarrow>
   plain_append err Written (trade_bytes t) (db_trades h) d = (Inr (), append_file d (pw_path (db_trades h)) (trade_bytes t)) \<and>
   db_log_holds h (append_file d (pw_path (db_trades h)) (trade_bytes t)) (ts @ [t])"
  by (simp add: db_log_holds_def plain_append_def written_bytes_def del: not_None_eq)

lemma on_trades_runs:
  "runs R (m (dw_trades w)) (\<lambda>x d. Q x (w\<lparr>dw_trades := d\<rparr>)) (\<lambda>e d. E e (w\<lparr>dw_trades := d\<rparr>)) \<Longrightarrow> runs R (on_trades m w) Q E"
  by (auto simp: on_trades_def runs_def split: option.splits sum.splits)

lemma db_feed_trade_holds:
  assumes "ups_store (<) (\<lambda>x. \<not> isnan x) (lib_trades L) ok entries pos"
    and "db_log_holds h (dw_disk w) ts" "db_tree_holds ok entries h (dw_trades w) ts" "\<not> isnan (t_timestamp t)"
  shows "yields (reliable (lib_trades L) ok) (db_feed_trade L err Written h t w) (\<lambda>_ w'.
    db_log_holds h (dw_disk w') (ts @ [t]) \<and> db_tree_holds ok entries h (dw_trades w') (ts @ [t]))"
proof -
  let ?w = "w\<lparr>dw_disk := append_file (dw_disk w) (pw_path (db_trades h)) (trade_bytes t)\<rparr>"
  note log = db_log_append[OF assms(2), of err t]
  have tree: "ok (dw_trades ?w)" "ubt_allow_duplicates (db_trades_by_timestamp h)" using assms(3) by (simp_all add: db_tree_holds_def)
  have "db_feed_trade L err Written h t w =
      on_trades (ubt_insert (lib_trades L) (db_trades_by_timestamp h) (t_timestamp t) t) ?w"
    using log by (simp add: db_feed_trade_def db_bind_def on_disk_def)
  moreover have "yields (reliable (lib_trades L) ok) (on_trades (ubt_insert (lib_trades L) (db_trades_by_timestamp h) (t_timestamp t) t) ?w)
      (\<lambda>_ w'. db_log_holds h (dw_disk w') (ts @ [t]) \<and> db_tree_holds ok entries h (dw_trades w') (ts @ [t]))"
    unfolding yields_def
    by (rule on_trades_runs, rule runs_mono[OF ubt_inserted[OF assms(1) tree(1) assms(4) tree(2), unfolded yields_def]])
      (use log assms(3) tree(2) in \<open>simp_all add: db_tree_holds_def trade_entries_def\<close>)
  ultimately show ?thesis by simp
qed

lemma db_feed_trades_hold:
  assumes "ups_store (<) (\<lambda>x. \<not> isnan x) (lib_trades L) ok entries pos"
    and "db_log_holds h (dw_disk w) xs" "db_tree_holds ok entries h (dw_trades w) xs" "\<forall>t \<in> set ts. \<not> isnan (t_timestamp t)"
  shows "yields (reliable (lib_trades L) ok) (db_feed_trades L err h ts w) (\<lambda>_ w'.
    db_log_holds h (dw_disk w') (xs @ ts) \<and> db_tree_holds ok entries h (dw_trades w') (xs @ ts))"
  using assms(2-)
proof (induction ts arbitrary: w xs)
  case Nil
  then show ?case by (simp add: yields_def)
next
  case (Cons t ts)
  show ?case
    unfolding db_feed_trades.simps yields_def
    by (intro runs_bind, rule runs_mono[OF db_feed_trade_holds[OF assms(1) Cons.prems(1,2), unfolded yields_def]])
      (use Cons.IH[of _ "xs @ [t]", unfolded yields_def] Cons.prems(3) in auto)
qed

lemma db_get_trades_log:
  assumes "db_log_holds h d ts"
  shows "db_get_trades h d value = Some (map Some ts)"
proof -
  obtain s' where "range_items (plain_range 60) (mk_plain_range_state d (pw_path (db_trades h)) value) =
      Some (chunks 60 (file_bytes d (pw_path (db_trades h))), s')"
    using plain_log_items[of 60 d "pw_path (db_trades h)" "value"] assms by (auto simp: db_log_holds_def)
  moreover have "chunks 60 (file_bytes d (pw_path (db_trades h))) = map trade_bytes ts"
    using trade_codec.chunks_encoded[of ts "[]"] assms by (simp add: db_log_holds_def list_all_iff)
  ultimately show ?thesis using trade_codec.decode_all[of ts]
    by (simp add: db_get_trades_def log_items_def plain_get_def list_all_iff)
qed

text \<open>A failure of the library becomes a time that is not a number.\<close>

lemma db_time_span_extremes:
  assumes "ups_store (<) (\<lambda>x. \<not> isnan x) (lib_trades L) ok entries pos" "ok (dw_trades w)" "entries (dw_trades w) \<noteq> []"
  shows "yields (reliable (lib_trades L) ok) (db_get_time_span L h w) (\<lambda>s w'.
    s = \<lparr>span_from = fst (hd (entries (dw_trades w))), span_to = fst (last (entries (dw_trades w)))\<rparr> \<or>
    \<not> reliable (lib_trades L) ok \<and> (isnan (span_from s) \<or> isnan (span_to s)))"
proof -
  let ?R = "reliable (lib_trades L) ok" and ?t = "db_trades_by_timestamp h"
  have ex: "runs ?R (or_nan (ubt_extremum_key (lib_trades L) ?t low) d) (\<lambda>k d'.
      k = fst (if low then hd (entries (dw_trades w)) else last (entries (dw_trades w))) \<and> ok d' \<and> entries d' = entries (dw_trades w) \<or>
      \<not> ?R \<and> isnan k) (\<lambda>e d. False)" if "ok d" "entries d = entries (dw_trades w)" for low d
    unfolding or_nan_def
    by (intro runs_catch, rule runs_mono[OF ups_store.extremum_yields[OF assms(1) that(1), unfolded yields_def]])
      (use that(2) assms(3) in \<open>auto simp: library_error_def split: db_error.splits\<close>)
  have to: "runs ?R (or_nan (ubt_extremum_key (lib_trades L) ?t False) d) (\<lambda>k d. True) (\<lambda>e d. False)" if "\<not> ?R" for d
    unfolding or_nan_def ubt_extremum_key_def
    by (intro runs_intro, rule runs_mono[OF failed_call[OF that, unfolded yields_def]];
        (intro runs_intro, rule runs_mono[OF failed_call[OF that, unfolded yields_def]])?)
      (auto simp: library_error_def split: db_error.splits prod.splits
        intro!: runs_bind runs_mono[OF failed_call[OF that, unfolded yields_def]])
  show ?thesis
    unfolding db_get_time_span_def ubt_lowest_key_def ubt_highest_key_def yields_def
  proof (intro on_trades_runs runs_bind, rule runs_mono[OF ex[OF assms(2) refl]])
    fix lo d1
    assume low: "lo = fst (if True then hd (entries (dw_trades w)) else last (entries (dw_trades w))) \<and> ok d1 \<and>
        entries d1 = entries (dw_trades w) \<or> \<not> ?R \<and> isnan lo"
    let ?Q = "\<lambda>s. s = \<lparr>span_from = fst (hd (entries (dw_trades w))), span_to = fst (last (entries (dw_trades w)))\<rparr> \<or>
      \<not> ?R \<and> (isnan (span_from s) \<or> isnan (span_to s))"
    show "runs ?R (db_bind (or_nan (ubt_extremum_key (lib_trades L) ?t False))
        (\<lambda>to. db_return (mk_span\<lparr>span_from := lo, span_to := to\<rparr>)) d1)
        (\<lambda>s d. ?Q s) (\<lambda>e d. \<not> ?R \<and> library_error e)"
    proof (cases "\<not> ?R \<and> isnan lo")
      case True
      then show ?thesis by (intro runs_bind, intro runs_mono[OF to]) auto
    next
      case False
      then have "ok d1" "entries d1 = entries (dw_trades w)" "lo = fst (hd (entries (dw_trades w)))" using low by auto
      then show ?thesis
        by (intro runs_bind, intro runs_mono[OF ex[of d1 False]]) (auto simp: mk_span_def)
    qed
  qed simp
qed

text \<open>The first and the last key of sorted entries span the timestamps.\<close>

lemma sorted_ends_span:
  assumes "sorted_wrt (\<lambda>a b. \<not> fst b < fst a) (es :: (timestamp \<times> 'r) list)" "es \<noteq> []" "\<forall>e \<in> set es. \<not> isnan (fst e)"
  shows "spans \<lparr>span_from = fst (hd es), span_to = fst (last es)\<rparr> (fst ` set es)"
proof -
  have le: "x \<le> y" if "\<not> isnan x" "\<not> isnan y" "\<not> y < x" for x y :: timestamp
    using that by (simp add: le_key less_key)
  have "fst (hd es) \<le> fst e" if "e \<in> set es" for e
    using assms that by (cases es) (auto intro!: le simp: le_refl_not_nan)
  moreover have "fst e \<le> fst (last es)" if "e \<in> set es" for e
    using assms that by (cases es rule: rev_cases) (auto intro!: le simp: le_refl_not_nan sorted_wrt_append)
  ultimately show ?thesis using assms(2) by (simp add: spans_def)
qed

text \<open>What a query of an interval gives: the trades in it by time, or one beyond it when there is none.\<close>

definition by_time :: "timestamp \<Rightarrow> timestamp \<Rightarrow> trade list \<Rightarrow> trade list \<Rightarrow> bool" where
  "by_time b e ts xs =
     (let inside = filter (\<lambda>t. b < t_timestamp t \<and> t_timestamp t \<le> e) ts
      in if inside \<noteq> [] then mset xs = mset inside \<and> sorted_wrt (\<lambda>x y. \<not> t_timestamp y < t_timestamp x) xs
         else length xs \<le> 1 \<and> (\<forall>x \<in> set xs. x \<in> set ts \<and> e < t_timestamp x))"

lemma by_time_entries:
  assumes "sorted_wrt (\<lambda>x y. \<not> fst y < fst x) es" "mset es = mset (trade_entries ts)" "\<not> isnan e"
    and "\<forall>t \<in> set ts. \<not> isnan (t_timestamp t)"
  shows "by_time b e ts (map snd (if \<exists>x \<in> set es. b < fst x \<and> \<not> e < fst x then filter (\<lambda>x. b < fst x \<and> \<not> e < fst x) es
    else take 1 (filter (\<lambda>x. b < fst x) es)))"
proof -
  have set: "set es = (\<lambda>t. (t_timestamp t, t)) ` set ts"
    using assms(2) by (metis mset_eq_setD trade_entries_def set_map)
  have le: "t_timestamp t \<le> e \<longleftrightarrow> \<not> e < t_timestamp t" if "t \<in> set ts" for t
    using assms(3,4) that by (simp add: le_key less_key linorder_not_less)
  have inside: "filter (\<lambda>t. b < t_timestamp t \<and> t_timestamp t \<le> e) ts = filter (\<lambda>t. b < t_timestamp t \<and> \<not> e < t_timestamp t) ts"
    using le by (intro filter_cong) auto
  let ?in = "filter (\<lambda>x. b < fst x \<and> \<not> e < fst x) es"
  have some: "(\<exists>x \<in> set es. b < fst x \<and> \<not> e < fst x) \<longleftrightarrow> filter (\<lambda>t. b < t_timestamp t \<and> t_timestamp t \<le> e) ts \<noteq> []"
    unfolding inside set by (auto simp: filter_empty_conv)
  have m: "mset (map snd ?in) = mset (filter (\<lambda>t. b < t_timestamp t \<and> \<not> e < t_timestamp t) ts)"
    unfolding mset_map mset_filter assms(2) by (simp add: trade_entries_def filter_mset_image_mset image_mset.compositionality comp_def)
  have own: "fst x = t_timestamp (snd x)" if "x \<in> set es" for x using that set by auto
  have "sorted_wrt (\<lambda>x y. \<not> fst y < fst x) ?in" using assms(1) by (rule sorted_wrt_filter)
  then have s: "sorted_wrt (\<lambda>x y. \<not> t_timestamp y < t_timestamp x) (map snd ?in)"
    unfolding sorted_wrt_map by (rule sorted_wrt_mono_rel[rotated]) (use own in auto)
  show ?thesis
  proof (cases "\<exists>x \<in> set es. b < fst x \<and> \<not> e < fst x")
    case True
    then show ?thesis using m s some inside by (simp add: by_time_def Let_def)
  next
    case False
    have "e < t_timestamp (snd x) \<and> snd x \<in> set ts" if "x \<in> set (take 1 (filter (\<lambda>x. b < fst x) es))" for x
    proof -
      have x: "x \<in> set es" "b < fst x" using in_set_takeD[OF that] by simp_all
      then have "e < fst x" using False by blast
      then show ?thesis using x(1) own[OF x(1)] unfolding set by auto
    qed
    then have "\<forall>y \<in> set (map snd (take 1 (filter (\<lambda>x. b < fst x) es))). y \<in> set ts \<and> e < t_timestamp y" by auto
    moreover have "filter (\<lambda>t. b < t_timestamp t \<and> t_timestamp t \<le> e) ts = []" using False some by blast
    ultimately show ?thesis using False by (simp add: by_time_def)
  qed
qed

section \<open>Properties\<close>

text \<open>
  C20: A database history gives back what it was fed: after a sequence of trades its log holds
  the trades in their order, the query of an interval of time gives those in it by time (or one
  trade beyond it when there is none) and its time span encloses them. When a call of the
  library fails, feeding throws, the query has no result and the span has an end that is not a
  number.
\<close>

theorem db_history_trades:
  fixes L :: "('a, 'b, 'c) db_libs"
  assumes "ups_store (<) (\<lambda>x. \<not> isnan x) (lib_trades L) ok entries pos"
    and "db_log_holds h (dw_disk w) []" "db_tree_holds ok entries h (dw_trades w) []"
    and "\<forall>t \<in> set ts. \<not> isnan (t_timestamp t)" "ts \<noteq> []" "b < e"
  shows "yields (reliable (lib_trades L) ok) (db_feed_trades L err h ts w) (\<lambda>_ w'.
    db_get_trades h (dw_disk w') value = Some (map Some ts) \<and>
    (case db_get_trades_by_timestamp L h t0 b e (dw_trades w') of None \<Rightarrow> \<not> reliable (lib_trades L) ok
     | Some xs \<Rightarrow> by_time b e ts xs) \<and>
    yields (reliable (lib_trades L) ok) (db_get_time_span L h w') (\<lambda>span w''. spans span (t_timestamp ` set ts) \<or>
      \<not> reliable (lib_trades L) ok \<and> (isnan (span_from span) \<or> isnan (span_to span))))"
proof (rule yields_mono[OF db_feed_trades_hold[OF assms(1-4)]], elim conjE, intro conjI)
  fix w' :: "('a, 'b, 'c) db_world"
  assume w': "db_log_holds h (dw_disk w') ([] @ ts)" "db_tree_holds ok entries h (dw_trades w') ([] @ ts)"
  let ?es = "entries (dw_trades w')" and ?R = "reliable (lib_trades L) ok"
  have ok: "ok (dw_trades w')" and m: "mset ?es = mset (trade_entries ts)" using w'(2) by (simp_all add: db_tree_holds_def)
  then have set: "set ?es = (\<lambda>t. (t_timestamp t, t)) ` set ts"
    by (metis mset_eq_setD trade_entries_def set_map)
  then have ne: "?es \<noteq> []" and keys: "fst ` set ?es = t_timestamp ` set ts" using assms(5) by (auto simp: image_image)
  note sorted = ups_store.entries_sorted[OF assms(1) ok]
  have be: "\<not> isnan b" "\<not> isnan e" "\<not> d_eq b e" using assms(6) by (auto simp: less_double_def d_eq_def)
  show "db_get_trades h (dw_disk w') value = Some (map Some ts)" using db_get_trades_log[OF w'(1)] by simp
  show "case db_get_trades_by_timestamp L h t0 b e (dw_trades w') of None \<Rightarrow> \<not> ?R | Some xs \<Rightarrow> by_time b e ts xs"
    using ups_store.interval_visits[where eq = d_eq, OF assms(1) ok be(1,2) assms(6) be(3), of "db_trades_by_timestamp h" t0]
      by_time_entries[OF sorted m be(2) assms(4), of b]
    unfolding head_takeWhile_filter[OF ups_store.above_sorted(1)[OF assms(1) ok be(2)]]
    by (auto simp: visits_def db_get_trades_by_timestamp_def split: option.splits)
  have "spans \<lparr>span_from = fst (hd ?es), span_to = fst (last ?es)\<rparr> (t_timestamp ` set ts)"
    using sorted_ends_span[OF sorted ne] ups_store.entries_okk[OF assms(1) ok] keys by simp
  then show "yields ?R (db_get_time_span L h w') (\<lambda>span w''. spans span (t_timestamp ` set ts) \<or>
      \<not> ?R \<and> (isnan (span_from span) \<or> isnan (span_to span)))"
    by (intro yields_mono[OF db_time_span_extremes[OF assms(1) ok ne]]) auto
qed

text \<open>
  Feeding is not atomic: when the insertion in the tree fails after the trade has been
  appended to the log, the call throws and the log has the trade that the tree lacks.
\<close>

theorem db_feed_not_atomic:
  assumes "db_log_holds h (dw_disk w) ts"
    and "ubt_insert (lib_trades L) (db_trades_by_timestamp h) (t_timestamp t) t (dw_trades w) = Some (Inl e, d)"
  shows "\<exists>w'. db_feed_trade L err Written h t w = Some (Inl e, w') \<and>
    db_get_trades h (dw_disk w') value = Some (map Some (ts @ [t])) \<and> dw_trades w' = d"
proof -
  let ?d = "append_file (dw_disk w) (pw_path (db_trades h)) (trade_bytes t)"
  note log = db_log_append[OF assms(1), of err t]
  have "db_feed_trade L err Written h t w = Some (Inl e, w\<lparr>dw_disk := ?d, dw_trades := d\<rparr>)"
    using log assms(2) by (simp add: db_feed_trade_def db_bind_def on_disk_def on_trades_def)
  then show ?thesis using log db_get_trades_log[of h ?d "ts @ [t]"] by simp
qed


section \<open>Witnesses\<close>

type_synonym ('r) demo_state = "(timestamp, 'r) mem_store"

definition demo_libs :: "(balance_change demo_state, trade demo_state, decision demo_state) db_libs" where
  "demo_libs = \<lparr>lib_balances = mem_ups (<), lib_trades = mem_ups (<), lib_decisions = mem_ups (<)\<rparr>"

definition demo_history :: db_history where
  "demo_history = (let t = \<lparr>ubt_path = ''t'', ubt_allow_duplicates = True, ubt_autocommit = False, ubt_cache_size = 16,
       ubt_read_txn = 0\<rparr>
     in \<lparr>db_basepath = ''b'', db_basepath_is_initialized = True, db_balance_changes = \<lparr>pw_path = ''c''\<rparr>,
       db_balance_changes_by_timestamp = t, db_trades = \<lparr>pw_path = ''t''\<rparr>, db_trades_by_timestamp = t,
       db_orders = \<lparr>pw_path = ''o''\<rparr>, db_decisions = \<lparr>pw_path = ''d''\<rparr>, db_decisions_by_timestamp = t\<rparr>)"

definition demo_world :: "(balance_change demo_state, trade demo_state, decision demo_state) db_world" where
  "demo_world = \<lparr>dw_disk = \<lparr>d_files = [(''t'', [])], d_directories = [], d_readable = (\<lambda>p. True), d_writable = (\<lambda>p. True)\<rparr>,
     dw_balances = \<lparr>mem_entries = [], mem_cursors = Map.empty, mem_next = 0, mem_room = None\<rparr>,
     dw_trades = \<lparr>mem_entries = [], mem_cursors = Map.empty, mem_next = 0, mem_room = None\<rparr>,
     dw_decisions = \<lparr>mem_entries = [], mem_cursors = Map.empty, mem_next = 0, mem_room = None\<rparr>\<rparr>"

definition demo_trade :: trade where
  "demo_trade = \<lparr>t_id = 1, t_volume = lit 1, t_price = lit 2, t_type = BUY, t_timestamp = lit 3, t_decision_id = 0,
     t_buy_order_id = 0, t_sell_order_id = 0\<rparr>"

lemma demo_holds:
  "db_log_holds demo_history (dw_disk demo_world) []"
  "db_tree_holds (mem_ok (\<lambda>r. r = None) (<) (\<lambda>x. \<not> isnan x)) mem_entries demo_history (dw_trades demo_world) []"
  by (simp_all add: db_log_holds_def db_tree_holds_def demo_history_def demo_world_def file_bytes_def mem_ok_def trade_entries_def Let_def)

theorem db_history_trades_witness:
  "\<exists>w' span w''. db_feed_trades demo_libs '''' demo_history [demo_trade] demo_world = Some (Inr (), w') \<and>
    db_get_trades demo_history (dw_disk w') [] = Some [Some demo_trade] \<and>
    db_get_trades_by_timestamp demo_libs demo_history demo_trade (lit 2) (lit 3) (dw_trades w') = Some [demo_trade] \<and>
    db_get_time_span demo_libs demo_history w' = Some (Inr span, w'') \<and> spans span {lit 3}"
proof -
  have lib: "ups_store (<) (\<lambda>x. \<not> isnan x) (lib_trades demo_libs) (mem_ok (\<lambda>r. r = None) (<) (\<lambda>x. \<not> isnan x)) mem_entries mem_cursors"
    "reliable (lib_trades demo_libs) (mem_ok (\<lambda>r. r = None) (<) (\<lambda>x. \<not> isnan x))"
    using roomy_store.ups_store_axioms roomy_reliable by (simp_all add: demo_libs_def)
  have "lit 3 \<le> lit 3" by code_simp
  then have "by_time (lit 2) (lit 3) [demo_trade] xs \<Longrightarrow> xs = [demo_trade]" for xs
    by (simp add: by_time_def demo_trade_def demo_order)
  then show ?thesis
    using db_history_trades[OF lib(1) demo_holds, of "[demo_trade]" "lit 2" "lit 3" "''''" "[]" demo_trade]
    by (auto simp: lib(2) yields_sure demo_order demo_trade_def split: option.splits)
qed

text \<open>A library whose insertions fail.\<close>

definition full_libs :: "(balance_change demo_state, trade demo_state, decision demo_state) db_libs" where
  "full_libs = demo_libs\<lparr>lib_trades := (mem_ups (<))\<lparr>ups_db_insert := (\<lambda>dup e d. (UPS_OTHER (- 2), (), d))\<rparr>\<rparr>"

theorem db_feed_not_atomic_witness:
  "\<exists>w'. db_feed_trade full_libs '''' Written demo_history demo_trade demo_world =
      Some (Inl (Ups_error ''ups_db_insert'' (UPS_OTHER (- 2))), w') \<and>
    db_get_trades demo_history (dw_disk w') [] = Some [Some demo_trade]"
proof -
  have "ubt_insert (lib_trades full_libs) (db_trades_by_timestamp demo_history) (t_timestamp demo_trade) demo_trade
      (dw_trades demo_world) = Some (Inl (Ups_error ''ups_db_insert'' (UPS_OTHER (- 2))), dw_trades demo_world)"
    by (simp add: ubt_insert_def full_libs_def demo_libs_def mem_ups_def db_bind_def db_catch_def db_throw_def
        ups_safe_call_def safe_call.simps)
  from db_feed_not_atomic[OF demo_holds(1) this, of "''''" "[]"] show ?thesis by simp blast
qed

end
