(* ===== verification/Log_History.thy ===== *)
theory Log_History
  imports Logs History
begin

text \<open>
  \<open>src/history/LogHistory.hpp\<close>: a history that writes every item as a line of text, to the
  standard output or to a file, and reads the file back line by line.
\<close>

section \<open>Lines\<close>

record line_stream =
  ls_path :: string
  ls_pos :: nat
  ls_good :: bool

definition file_text :: "disk \<Rightarrow> string \<Rightarrow> string" where
  "file_text d p = map (\<lambda>b. char_of (unat b)) (file_bytes d p)"

definition open_lines :: "disk \<Rightarrow> string \<Rightarrow> line_stream" where
  "open_lines d p = \<lparr>ls_path = p, ls_pos = 0, ls_good = (map_of (d_files d) p \<noteq> None \<and> d_readable d p)\<rparr>"

text \<open>
  \<open>std::getline\<close>: a last line without newline is a line, and sets the end-of-file indicator.
\<close>

definition newline :: char where
  "newline = CHR 0x0A"

definition getline :: "disk \<Rightarrow> line_stream \<Rightarrow> string option \<times> line_stream" where
  "getline d st =
     (let rest = drop (ls_pos st) (file_text d (ls_path st)); line = takeWhile (\<lambda>c. c \<noteq> newline) rest
      in if \<not> ls_good st then (None, st)
         else if rest = [] then (None, st\<lparr>ls_good := False\<rparr>)
         else if length line < length rest then (Some line, st\<lparr>ls_pos := ls_pos st + length line + 1\<rparr>)
         else (Some line, st\<lparr>ls_pos := ls_pos st + length line, ls_good := False\<rparr>))"

definition lines_left :: "disk \<Rightarrow> line_stream \<Rightarrow> nat" where
  "lines_left d st = (if ls_good st then Suc (length (file_text d (ls_path st)) - ls_pos st) else 0)"

lemma getline_shorter: "getline d st = (Some line, st') \<Longrightarrow> lines_left d st' < lines_left d st"
  by (auto simp: getline_def lines_left_def Let_def split: if_splits)

section \<open>The range\<close>

record log_range =
  lr_disk :: disk
  lr_file :: line_stream

definition mk_log_range :: "disk \<Rightarrow> string \<Rightarrow> log_range" where
  "mk_log_range d path = \<lparr>lr_disk = d, lr_file = open_lines d path\<rparr>"

text \<open>The loop of \<open>iterate\<close>: until a line is parsed, which also changes the value, or there is none.\<close>

function iterate_lines ::
  "(string \<Rightarrow> 'v \<Rightarrow> bool \<times> 'v) \<Rightarrow> disk \<Rightarrow> line_stream \<Rightarrow> 'v \<Rightarrow> bool \<times> 'v \<times> line_stream" where
  "iterate_lines parse d st v =
     (case getline d st of
        (None, st) \<Rightarrow> (False, v, st)
      | (Some line, st) \<Rightarrow> (case parse line v of (ok, v) \<Rightarrow> if ok then (True, v, st) else iterate_lines parse d st v))"
  by pat_completeness auto
termination
  by (relation "measure (\<lambda>(_, d, st, _). lines_left d st)") (auto intro: getline_shorter[OF sym])

declare iterate_lines.simps [simp del]

definition log_iterate ::
  "(string \<Rightarrow> 'v \<Rightarrow> bool \<times> 'v) \<Rightarrow> log_range \<Rightarrow> 'v \<Rightarrow> bool \<times> 'v \<times> log_range" where
  "log_iterate parse s v = (case iterate_lines parse (lr_disk s) (lr_file s) v of (ok, v, st) \<Rightarrow> (ok, v, s\<lparr>lr_file := st\<rparr>))"

text \<open>\<open>init\<close> and \<open>next\<close> dereference the pointer of the caller, which they never set.\<close>

definition log_range_data :: "(string \<Rightarrow> 'v \<Rightarrow> bool \<times> 'v) \<Rightarrow> (log_range, 'v) range_data" where
  "log_range_data parse =
     (let read = (\<lambda>s value. case value of None \<Rightarrow> None
        | Some v \<Rightarrow> (case log_iterate parse s v of (ok, v, s) \<Rightarrow> Some (ok, Some v, s)))
      in \<lparr>rd_init = read, rd_next = read\<rparr>)"

section \<open>The history\<close>

record log_history =
  lh_path :: string
  lh_is_stdout :: bool

record log_world =
  lw_disk :: disk
  lw_stdout :: string

definition mk_log_history_stdout :: log_history where
  "mk_log_history_stdout = \<lparr>lh_path = [], lh_is_stdout = True\<rparr>"

text \<open>A file that cannot be opened is not reported.\<close>

definition mk_log_history :: "string \<Rightarrow> disk \<Rightarrow> log_history \<times> disk" where
  "mk_log_history path d = (\<lparr>lh_path = path, lh_is_stdout = False\<rparr>, (case fopen_ab d path of None \<Rightarrow> d | Some d \<Rightarrow> d))"

text \<open>Output to \<open>get_output()\<close>; it is lost when the file is not open.\<close>

definition lh_output :: "log_history \<Rightarrow> string \<Rightarrow> log_world \<Rightarrow> log_world" where
  "lh_output h s w =
     (if lh_is_stdout h then w\<lparr>lw_stdout := lw_stdout w @ s\<rparr>
      else if d_writable (lw_disk w) (lh_path h) then w\<lparr>lw_disk := append_file (lw_disk w) (lh_path h) (string_bytes s)\<rparr>
      else w)"

text \<open>\<open>_feed\<close>: \<open>None\<close> where the conversion of the item to text is undefined.\<close>

definition lh_feed :: "('v \<Rightarrow> string option) \<Rightarrow> log_history \<Rightarrow> 'v \<Rightarrow> log_world \<Rightarrow> log_world option" where
  "lh_feed show h x w = map_option (\<lambda>s. lh_output h (s @ [newline]) w) (show x)"

definition lh_feed_item :: "time_zone \<Rightarrow> log_history \<Rightarrow> item \<Rightarrow> log_world \<Rightarrow> log_world option" where
  "lh_feed_item tz h i w = (case i of
     Balance_item bc \<Rightarrow> lh_feed (show_balance_change tz) h bc w
   | Trade_item t \<Rightarrow> lh_feed (show_trade tz) h t w
   | Order_item r \<Rightarrow> lh_feed (show_order tz) h r w
   | Decision_item d \<Rightarrow> lh_feed (show_decision tz) h d w)"

definition lh_range :: "(string \<Rightarrow> 'v \<Rightarrow> bool \<times> 'v) \<Rightarrow> log_history \<Rightarrow> disk \<Rightarrow> (log_range, 'v) range \<times> log_range" where
  "lh_range parse h d = (if lh_is_stdout h then None else Some (log_range_data parse), mk_log_range d (lh_path h))"

definition lh_get_balance_changes :: "log_history \<Rightarrow> disk \<Rightarrow> balance_change list option" where
  "lh_get_balance_changes h d = (case lh_range balance_change_parse h d of (r, s) \<Rightarrow> map_option fst (range_items r s))"

definition lh_get_trades :: "time_zone \<Rightarrow> log_history \<Rightarrow> disk \<Rightarrow> trade list option" where
  "lh_get_trades tz h d = (case lh_range (trade_parse tz) h d of (r, s) \<Rightarrow> map_option fst (range_items r s))"

definition lh_get_orders :: "log_history \<Rightarrow> disk \<Rightarrow> order list option" where
  "lh_get_orders h d = (case lh_range order_parse h d of (r, s) \<Rightarrow> map_option fst (range_items r s))"

definition lh_get_decisions :: "log_history \<Rightarrow> disk \<Rightarrow> decision list option" where
  "lh_get_decisions h d = (case lh_range decision_parse h d of (r, s) \<Rightarrow> map_option fst (range_items r s))"

text \<open>\<open>get_balance_at_timestamp\<close> has no return statement.\<close>

definition lh_get_balance_at_timestamp :: "log_history \<Rightarrow> timestamp \<Rightarrow> balance option" where
  "lh_get_balance_at_timestamp h ts = None"

section \<open>What is written and what is read\<close>

definition text_lines :: "string list \<Rightarrow> string" where
  "text_lines ls = concat (map (\<lambda>l. l @ [newline]) ls)"

fun lh_feed_items :: "time_zone \<Rightarrow> log_history \<Rightarrow> item list \<Rightarrow> log_world \<Rightarrow> log_world option" where
  "lh_feed_items tz h [] w = Some w"
| "lh_feed_items tz h (i # is) w = Option.bind (lh_feed_item tz h i w) (lh_feed_items tz h is)"

definition show_item :: "time_zone \<Rightarrow> item \<Rightarrow> string option" where
  "show_item tz i = (case i of Balance_item bc \<Rightarrow> show_balance_change tz bc | Trade_item t \<Rightarrow> show_trade tz t
     | Order_item r \<Rightarrow> show_order tz r | Decision_item d \<Rightarrow> show_decision tz d)"

lemma lh_feed_item_show: "lh_feed_item tz h i w = map_option (\<lambda>s. lh_output h (s @ [newline]) w) (show_item tz i)"
  by (cases i) (simp_all add: lh_feed_item_def lh_feed_def show_item_def)

lemma file_text_append: "file_text (append_file d p (string_bytes s)) p = file_text d p @ s"
proof -
  have "char_of (unat (of_nat (of_char c) :: byte)) = c" for c
    by (simp add: unsigned_of_nat char_of_take_bit_eq)
  then show ?thesis by (simp add: file_text_def string_bytes_def o_def)
qed

lemma lh_output_text:
  assumes "\<not> lh_is_stdout h" "d_writable (lw_disk w) (lh_path h)"
  shows "file_text (lw_disk (lh_output h s w)) (lh_path h) = file_text (lw_disk w) (lh_path h) @ s"
    "d_writable (lw_disk (lh_output h s w)) = d_writable (lw_disk w)"
    "d_readable (lw_disk (lh_output h s w)) = d_readable (lw_disk w)"
  using assms by (simp_all add: lh_output_def file_text_append, simp add: append_file_def)

lemma lh_feed_items_text:
  assumes "\<not> lh_is_stdout h" "d_writable (lw_disk w) (lh_path h)" "map (show_item tz) is = map Some ls"
  shows "\<exists>w'. lh_feed_items tz h is w = Some w' \<and>
    file_text (lw_disk w') (lh_path h) = file_text (lw_disk w) (lh_path h) @ text_lines ls"
  using assms(2,3)
proof (induction "is" arbitrary: w ls)
  case (Cons i "is")
  then obtain l ls' where ls: "ls = l # ls'" "show_item tz i = Some l" "map (show_item tz) is = map Some ls'" by auto
  then show ?case
    using Cons.IH[of "lh_output h (l @ [newline]) w" ls'] Cons.prems(1) lh_output_text[OF assms(1), of w "l @ [newline]"]
    by (simp add: lh_feed_item_show text_lines_def)
qed (simp add: text_lines_def)

lemma lh_feed_items_stdout:
  assumes "lh_is_stdout h" "map (show_item tz) is = map Some ls"
  shows "lh_feed_items tz h is w = Some (w\<lparr>lw_stdout := lw_stdout w @ text_lines ls\<rparr>)"
  using assms(2)
proof (induction "is" arbitrary: w ls)
  case (Cons i "is")
  then obtain l ls' where "ls = l # ls'" "show_item tz i = Some l" "map (show_item tz) is = map Some ls'" by auto
  then show ?case using Cons.IH assms(1) by (simp add: lh_feed_item_show lh_output_def text_lines_def)
qed (simp add: text_lines_def)

lemma getline_text:
  assumes "ls_good st" "drop (ls_pos st) (file_text d (ls_path st)) = l @ newline # rest" "newline \<notin> set l"
  shows "getline d st = (Some l, st\<lparr>ls_pos := ls_pos st + length l + 1\<rparr>)"
    "drop (ls_pos st + length l + 1) (file_text d (ls_path st)) = rest"
proof -
  have "takeWhile (\<lambda>c. c \<noteq> newline) (l @ newline # rest) = l" using assms(3) by (subst takeWhile_append2) auto
  then show "getline d st = (Some l, st\<lparr>ls_pos := ls_pos st + length l + 1\<rparr>)"
    using assms by (simp add: getline_def)
  have "drop (ls_pos st + length l + 1) (file_text d (ls_path st)) = drop (length l + 1) (drop (ls_pos st) (file_text d (ls_path st)))"
    by (simp add: ac_simps)
  then show "drop (ls_pos st + length l + 1) (file_text d (ls_path st)) = rest" unfolding assms(2) by simp
qed

text \<open>On lines none of which is parsed, \<open>iterate\<close> reaches the end of the file.\<close>

lemma iterate_lines_none:
  assumes "ls_good st" "drop (ls_pos st) (file_text d (ls_path st)) = text_lines ls" "\<forall>l \<in> set ls. newline \<notin> set l"
    and "\<And>l v. l \<in> set ls \<Longrightarrow> \<not> fst (parse l v)"
  shows "fst (iterate_lines parse d st v) = False"
  using assms
proof (induction ls arbitrary: st v)
  case Nil
  then show ?case by (subst iterate_lines.simps) (simp add: text_lines_def getline_def)
next
  case (Cons l ls)
  have first: "drop (ls_pos st) (file_text d (ls_path st)) = l @ newline # text_lines ls"
    using Cons.prems(2) by (simp add: text_lines_def)
  note g = getline_text[OF Cons.prems(1) first]
  obtain v' where "parse l v = (False, v')" using Cons.prems(4)[of l v] by (cases "parse l v") auto
  then show ?case using Cons g by (subst iterate_lines.simps) simp
qed

section \<open>Properties\<close>

lemma lh_ranges_undefined:
  assumes "\<not> lh_is_stdout h"
  shows "lh_get_balance_changes h d = None" "lh_get_trades tz h d = None" "lh_get_orders h d = None" "lh_get_decisions h d = None"
  using assms by (simp_all add: lh_get_balance_changes_def lh_get_trades_def lh_get_orders_def lh_get_decisions_def lh_range_def
      range_items_def mk_iterator_def log_range_data_def Let_def)

lemma lh_ranges_empty:
  assumes "lh_is_stdout h"
  shows "lh_get_balance_changes h d = Some []" "lh_get_trades tz h d = Some []" "lh_get_orders h d = Some []" "lh_get_decisions h d = Some []"
  using assms by (simp_all add: lh_get_balance_changes_def lh_get_trades_def lh_get_orders_def lh_get_decisions_def lh_range_def
      range_items_def)

text \<open>
  C23: A log history writes each item it is fed as one line, in their order, to the standard
  output or to its file, when that is writable. What is in the file cannot be read back: no loop
  over any of the four ranges of a history on a file is defined, because they read through the
  null pointer of the iterator, and with a proper pointer no line would be read as an order,
  because orders are not parsed. On the standard output the four ranges are empty.
\<close>

theorem log_history_write_only:
  assumes "map (show_item tz) is = map Some ls"
  shows "(\<not> lh_is_stdout h \<longrightarrow> d_writable (lw_disk w) (lh_path h) \<longrightarrow> (\<exists>w'. lh_feed_items tz h is w = Some w' \<and>
      file_text (lw_disk w') (lh_path h) = file_text (lw_disk w) (lh_path h) @ text_lines ls)) \<and>
    (lh_is_stdout h \<longrightarrow> lh_feed_items tz h is w = Some (w\<lparr>lw_stdout := lw_stdout w @ text_lines ls\<rparr>)) \<and>
    (lh_get_balance_changes h d, lh_get_trades tz h d, lh_get_orders h d, lh_get_decisions h d) =
      (if lh_is_stdout h then (Some [], Some [], Some [], Some []) else (None, None, None, None)) \<and>
    (file_text d (lh_path h) = text_lines ks \<longrightarrow> (\<forall>l \<in> set ks. newline \<notin> set l) \<longrightarrow>
      \<not> fst (log_iterate order_parse (mk_log_range d (lh_path h)) v))"
proof (intro conjI impI)
  show "\<exists>w'. lh_feed_items tz h is w = Some w' \<and>
      file_text (lw_disk w') (lh_path h) = file_text (lw_disk w) (lh_path h) @ text_lines ls"
    if "\<not> lh_is_stdout h" "d_writable (lw_disk w) (lh_path h)"
    using lh_feed_items_text[OF that assms] .
  show "lh_feed_items tz h is w = Some (w\<lparr>lw_stdout := lw_stdout w @ text_lines ls\<rparr>)" if "lh_is_stdout h"
    using lh_feed_items_stdout[OF that assms] .
  show "(lh_get_balance_changes h d, lh_get_trades tz h d, lh_get_orders h d, lh_get_decisions h d) =
      (if lh_is_stdout h then (Some [], Some [], Some [], Some []) else (None, None, None, None))"
    using lh_ranges_undefined lh_ranges_empty by simp
  assume "file_text d (lh_path h) = text_lines ks" "\<forall>l \<in> set ks. newline \<notin> set l"
  then show "\<not> fst (log_iterate order_parse (mk_log_range d (lh_path h)) v)"
  proof (cases "ls_good (open_lines d (lh_path h))")
    case True
    then show ?thesis
      using iterate_lines_none[of "open_lines d (lh_path h)" d ks order_parse v]
        \<open>file_text d (lh_path h) = text_lines ks\<close> \<open>\<forall>l \<in> set ks. newline \<notin> set l\<close>
      by (auto simp: log_iterate_def mk_log_range_def open_lines_def order_parse_def split: prod.split)
  next
    case False
    then show ?thesis
      by (simp add: log_iterate_def mk_log_range_def, subst iterate_lines.simps) (simp add: getline_def)
  qed
qed

theorem log_history_write_only_witness:
  "\<exists>w' l. lh_feed_items utc \<lparr>lh_path = ''f'', lh_is_stdout = False\<rparr> [Balance_item mk_balance_change]
      \<lparr>lw_disk = \<lparr>d_files = [], d_directories = [], d_readable = (\<lambda>p. True), d_writable = (\<lambda>p. True)\<rparr>, lw_stdout = ''''\<rparr> = Some w' \<and>
    file_text (lw_disk w') ''f'' = ''<BalanceChange'' @ l @ [newline]"
proof -
  let ?h = "\<lparr>lh_path = ''f'', lh_is_stdout = False\<rparr>"
  let ?w = "\<lparr>lw_disk = \<lparr>d_files = [], d_directories = [], d_readable = (\<lambda>p. True), d_writable = (\<lambda>p. True)\<rparr>, lw_stdout = ''''\<rparr>"
  have "isnan NAN" by code_simp
  then obtain l where l: "show_item utc (Balance_item mk_balance_change) = Some (''<BalanceChange'' @ l)"
    by (simp add: show_item_def show_balance_change_def ts_string_def mk_balance_change_def)
  have "\<exists>w'. lh_feed_items utc ?h [Balance_item mk_balance_change] ?w = Some w' \<and>
      file_text (lw_disk w') (lh_path ?h) = file_text (lw_disk ?w) (lh_path ?h) @ text_lines [''<BalanceChange'' @ l]"
    by (rule log_history_write_only[THEN conjunct1, rule_format]) (simp_all add: l)
  then show ?thesis by (elim exE conjE, intro exI conjI) (auto simp: text_lines_def file_text_def file_bytes_def)
qed

end
