(* ===== verification/Double_Spacing.thy ===== *)
theory Double_Spacing
  imports Double_Int
begin

text \<open>
  The spacing of doubles: the next double above \<open>x\<close> is at most \<open>ulp x\<close> away, so adding at least
  \<open>ulp x\<close> to \<open>x\<close> gives a greater double. A loop that adds a step makes progress as long as the
  spacing does not exceed the step.
\<close>

definition ulp :: "double \<Rightarrow> rat" where
  "ulp x = 2 powi (d_exp x)"

definition key_val :: "int \<Rightarrow> rat" where
  "key_val k = (if k < 0 then - mag_val (- k) else mag_val k)"

lemma key_val_d_key: "key_val (d_key x) = d_val x"
proof -
  have "\<not> d_mag x < 0" by (simp add: not_less)
  then show ?thesis by (cases "d_mag x = 0") (auto simp: key_val_def d_key_def d_val_mag)
qed

lemma mag_val_next:
  assumes "0 \<le> m"
  shows "mag_val (m + 1) = mag_val m + 2 powi (mag_exp m)"
proof -
  define E F where "E = m div 2 ^ 52" and "F = m mod 2 ^ 52"
  have m: "m = F + E * 2 ^ 52" by (simp add: E_def F_def)
  have F: "0 \<le> F" "F < 2 ^ 52" and E: "0 \<le> E"
    using assms by (simp_all add: E_def F_def pos_imp_zdiv_nonneg_iff)
  have two: "(2 :: int) ^ 52 \<noteq> 0" by simp
  have double: "(2 :: rat) powi (E - 1074) = 2 * 2 powi (E - 1075)"
    using powi_split[of 1 "E - 1075"] by simp
  show ?thesis
  proof (cases "F + 1 < 2 ^ 52")
    case True
    have "m + 1 = (F + 1) + E * 2 ^ 52" using m by simp
    then have q: "(m + 1) div 2 ^ 52 = E" "(m + 1) mod 2 ^ 52 = F + 1"
      using True F(1) by (simp_all only: div_mult_self1[OF two] mod_mult_self1) (simp_all add: div_pos_pos_trivial mod_pos_pos_trivial)
    show ?thesis
      unfolding mag_val_def mag_exp_def mag_sig_def Let_def q E_def[symmetric] F_def[symmetric]
      by (simp add: algebra_simps)
  next
    case False
    then have F1: "F = 2 ^ 52 - 1" using F by simp
    have "m + 1 = 0 + (E + 1) * 2 ^ 52" using m F1 by (simp add: algebra_simps)
    then have q: "(m + 1) div 2 ^ 52 = E + 1" "(m + 1) mod 2 ^ 52 = 0"
      by (simp_all only: div_mult_self1[OF two] mod_mult_self1) simp_all
    show ?thesis
      unfolding mag_val_def mag_exp_def mag_sig_def Let_def q E_def[symmetric] F_def[symmetric] F1
      using E double by (auto simp: algebra_simps)
  qed
qed

lemma mag_exp_mono: "0 \<le> m \<Longrightarrow> m \<le> n \<Longrightarrow> mag_exp m \<le> mag_exp n"
  using zdiv_mono1[of m n "2 ^ 52"] pos_imp_zdiv_nonneg_iff[of "2 ^ 52" m] by (simp add: mag_exp_def Let_def)

lemma is_round_infinity: "is_round (mag_val inf_mag) inf_mag"
proof -
  have "inf_mag div 2 ^ 52 = 2047" "inf_mag mod 2 ^ 52 = 0" by (simp_all add: inf_mag_def)
  then have v: "mag_val inf_mag = 2 powi 1024"
    using powi_split[of 52 972] by (simp add: mag_val_def mag_exp_def mag_sig_def Let_def)
  have "(2 :: rat) powi 1024 / 2 powi 972 = of_int (2 ^ 52)"
    using powi_split[of 52 972] by simp
  then have n: "near ((2 :: rat) powi 1024 / 2 powi 972) = 2 ^ 52" by (simp only: near_of_int)
  have lt: "(2 :: rat) powi 1024 < 2 powi (1024 + 1)" using powi_split[of 1 1024] powi_pos[of 1024] by simp
  show ?thesis
    unfolding is_round_def v
    by (rule disjI2, rule exI[of _ 1024], rule exI[of _ 972]) (intro conjI, simp, rule lt, simp, unfold n, simp add: inf_mag_def)
qed

lemma signed_round_key:
  assumes "\<bar>k\<bar> \<le> inf_mag"
  shows "signed_round (key_val k) k"
proof -
  have r: "is_round (mag_val \<bar>k\<bar>) \<bar>k\<bar>"
    using is_round_mag_val[of "\<bar>k\<bar>"] is_round_infinity assms by (cases "\<bar>k\<bar> = inf_mag") auto
  have "\<bar>key_val k\<bar> = mag_val \<bar>k\<bar>" using mag_val_nonneg[of "\<bar>k\<bar>"] by (simp add: key_val_def)
  moreover have "key_val k < 0 \<longrightarrow> k < 0" "0 < key_val k \<longrightarrow> 0 \<le> k"
    using mag_val_nonneg[of "- k"] mag_val_nonneg[of k] by (auto simp: key_val_def split: if_splits)
  ultimately show ?thesis using r by (auto simp: signed_round_def)
qed

lemma key_val_next:
  "key_val (k + 1) \<le> key_val k + 2 powi (mag_exp \<bar>k\<bar>)"
proof (cases "0 \<le> k")
  case True
  then show ?thesis using mag_val_next[of k] by (simp add: key_val_def)
next
  case False
  then have "mag_val (- k) = mag_val (- k - 1) + 2 powi (mag_exp (- k - 1))"
    using mag_val_next[of "- k - 1"] by simp
  moreover have "(2 :: rat) powi (mag_exp (- k - 1)) \<le> 2 powi (mag_exp (- k))"
    using False by (intro powi_le mag_exp_mono) simp_all
  ultimately show ?thesis using False by (cases "k = - 1") (auto simp: key_val_def)
qed

lemma less_plus_ulp:
  assumes "isfinite x" "isfinite g" "ulp x \<le> d_val g"
  shows "x < x + g"
proof -
  let ?k = "d_key x"
  have k: "\<bar>?k\<bar> = d_mag x" by (simp add: d_key_def)
  have "key_val (?k + 1) \<le> d_val x + d_val g"
    using key_val_next[of ?k] assms(3) by (simp add: k ulp_def d_exp_def key_val_d_key)
  moreover have "signed_round (key_val (?k + 1)) (?k + 1)"
    using assms(1) k by (intro signed_round_key) (simp add: isfinite_def)
  ultimately have "?k + 1 \<le> d_key (x + g)"
    using signed_round_mono plus_value(1)[OF assms(1,2)] by blast
  then show ?thesis using plus_value(2)[OF assms(1,2)] isfinite_not[OF assms(1)] by (simp add: less_key)
qed

lemma uminus_fields:
  "d_mag (- x) = d_mag x" "d_neg (- x) = (\<not> d_neg x)"
proof -
  have b: "uint (bits x) < 2 ^ 64" "0 \<le> uint (bits x)" using uint_lt2p[of "bits x"] by simp_all
  have "bits x XOR 0x8000000000000000 = bits x XOR push_bit 63 1" by simp
  have "uint (bits x XOR 0x8000000000000000) = flip_bit 63 (uint (bits x))"
    by (simp add: flip_bit_eq_xor unsigned_xor_eq)
  then have u: "uint (bits (- x)) = flip_bit 63 (uint (bits x))" by (simp add: uminus_double_def)
  show "d_mag (- x) = d_mag x"
    unfolding d_mag_def u take_bit_eq_mod[symmetric] by (simp add: take_bit_flip_bit_eq)
  have sign: "(2 ^ 63 \<le> n) = bit n 63" if "0 \<le> n" "n < 2 ^ 64" for n :: int
  proof -
    have "n div 2 ^ 63 = (if 2 ^ 63 \<le> n then 1 else 0)"
      using that by (auto simp: div_pos_pos_trivial intro: int_div_pos_eq[of _ _ _ "n - 2 ^ 63"])
    then show ?thesis by (simp add: bit_iff_odd)
  qed
  have "0 \<le> flip_bit 63 (uint (bits x))" "flip_bit 63 (uint (bits x)) < 2 ^ 64"
    using uint_lt2p[of "bits (- x)"] uint_ge_0[of "bits (- x)"] unfolding u by simp_all
  then show "d_neg (- x) = (\<not> d_neg x)"
    using sign[OF b(2,1)] unfolding d_neg_def u by (simp only: sign bit_flip_bit_iff) simp
qed

lemma uminus_facts [simp]:
  "isfinite (- x) = isfinite x" "isnan (- x) = isnan x" "d_key (- x) = - d_key x" "d_val (- x) = - d_val x" "ulp (- x) = ulp x"
  by (simp_all add: isfinite_def isnan_def d_key_def d_val_mag ulp_def d_exp_def uminus_fields)

lemma minus_ulp_less:
  assumes "isfinite x" "isfinite g" "ulp x \<le> d_val g"
  shows "x - g < x"
proof -
  let ?k = "d_key x"
  have k: "\<bar>?k\<bar> = d_mag x" by (simp add: d_key_def)
  have "key_val (- (?k - 1)) = - key_val (?k - 1)" by (auto simp: key_val_def mag_val_0)
  then have "d_val x - d_val g \<le> key_val (?k - 1)"
    using key_val_next[of "- ?k"] assms(3) key_val_d_key[of "- x"] by (simp add: k ulp_def d_exp_def)
  moreover have "signed_round (key_val (?k - 1)) (?k - 1)"
    using assms(1) k by (intro signed_round_key) (simp add: isfinite_def)
  ultimately have "d_key (x - g) \<le> ?k - 1"
    using signed_round_mono[OF plus_value(1)[of x "- g"], of "key_val (?k - 1)" "?k - 1"] assms(1,2)
    by (simp add: minus_double_def)
  then show ?thesis
    using plus_value(2)[of x "- g"] assms(1,2) isfinite_not by (simp add: less_key minus_double_def)
qed

lemma ulp_mono: "\<bar>d_key x\<bar> \<le> \<bar>d_key y\<bar> \<Longrightarrow> ulp x \<le> ulp y"
  unfolding ulp_def d_exp_def by (intro powi_le mag_exp_mono) (simp_all add: d_key_def split: if_splits)

section \<open>Exact arithmetic\<close>

text \<open>
  An operation whose exact result is the value of a finite double returns that value. The
  integers below \<open>2 ^ 53\<close> and their halves are values of doubles.
\<close>

definition represents :: "double \<Rightarrow> rat \<Rightarrow> bool" where
  "represents x q \<longleftrightarrow> isfinite x \<and> d_val x = q"

definition representable :: "rat \<Rightarrow> bool" where
  "representable q \<longleftrightarrow> (\<exists>x. represents x q)"

lemma represents_lit: "\<bar>n\<bar> < 2 ^ 53 \<Longrightarrow> represents (lit n) (of_int n)"
  by (simp add: represents_def lit_exact)

lemma representable_int: "\<bar>n\<bar> < 2 ^ 53 \<Longrightarrow> representable (of_int n)"
  unfolding representable_def using represents_lit by blast

lemma represents_key:
  assumes "signed_round q (d_key x)" "representable q"
  shows "represents x q"
proof -
  obtain z where z: "isfinite z" "d_val z = q" using assms(2) by (auto simp: representable_def represents_def)
  have zr: "signed_round q (d_key z)" using d_key_value[OF z(1)] z(2) by simp
  have k: "d_key x = d_key z"
    using signed_round_mono[OF assms(1) zr] signed_round_mono[OF zr assms(1)] by simp
  have "\<bar>d_key w\<bar> = d_mag w" for w by (simp add: d_key_def)
  then have "d_mag x = d_mag z" using k by metis
  then show ?thesis using z key_val_eq[OF k] by (simp add: represents_def isfinite_def)
qed

lemma represents_plus: "represents x p \<Longrightarrow> represents y q \<Longrightarrow> representable (p + q) \<Longrightarrow> represents (x + y) (p + q)"
  using represents_key plus_value(1)[of x y] by (simp add: represents_def[of x] represents_def[of y])

lemma represents_minus: "represents x p \<Longrightarrow> represents y q \<Longrightarrow> representable (p - q) \<Longrightarrow> represents (x - y) (p - q)"
  using represents_plus[of x p "- y" "- q"] by (simp add: represents_def[of "- y"] represents_def[of y] minus_double_def)

lemma d_val_signs:
  "d_neg x \<Longrightarrow> d_val x \<le> 0" "\<not> d_neg x \<Longrightarrow> 0 \<le> d_val x"
  using mag_val_nonneg[of "d_mag x"] by (simp_all add: d_val_mag)

lemma abs_d_sig: "of_int \<bar>d_sig x\<bar> * 2 powi (d_exp x) = \<bar>d_val x\<bar>"
  by (simp add: d_val_def abs_mult)

lemma sign_round:
  assumes "is_round \<bar>q\<bar> (d_mag x)" "0 < q \<Longrightarrow> \<not> d_neg x" "q < 0 \<Longrightarrow> d_neg x"
  shows "signed_round q (d_key x)"
  using assms by (auto simp: signed_round_def d_key_def)

lemma times_value:
  assumes "isfinite x" "isfinite y"
  shows "signed_round (d_val x * d_val y) (d_key (x * y))"
proof -
  let ?n = "\<bar>d_sig x * d_sig y\<bar>" and ?e = "d_exp x + d_exp y"
  have t: "x * y = d_round (d_neg x \<noteq> d_neg y) ?n 1 ?e"
    using assms by (simp add: times_double_def isfinite_not)
  have v: "of_int ?n / of_int 1 * 2 powi ?e = \<bar>d_val x * d_val y\<bar>"
    by (simp add: powi_split abs_mult abs_d_sig[symmetric] mult.assoc mult.left_commute)
  show ?thesis
  proof (rule sign_round)
    show "is_round \<bar>d_val x * d_val y\<bar> (d_mag (x * y))"
      using round_mag_is_round[of ?n 1 ?e] unfolding t d_round_fields(1)[OF abs_ge_zero zero_less_one] v by simp
    show "\<not> d_neg (x * y)" if "0 < d_val x * d_val y"
      using that d_val_signs[of x] d_val_signs[of y] unfolding t
      by (simp add: d_round_fields zero_less_mult_iff) linarith
    show "d_neg (x * y)" if "d_val x * d_val y < 0"
      using that d_val_signs[of x] d_val_signs[of y] unfolding t
      by (simp add: d_round_fields mult_less_0_iff) linarith
  qed
qed

lemma divide_value:
  assumes "isfinite x" "isfinite y" "d_val y \<noteq> 0"
  shows "signed_round (d_val x / d_val y) (d_key (x / y))"
proof -
  let ?e = "d_exp x - d_exp y" and ?n = "\<bar>d_sig x\<bar>" and ?d = "\<bar>d_sig y\<bar>"
  have nz: "d_sig y \<noteq> 0" using assms(3) by (auto simp: d_val_def)
  have z: "\<not> d_zero y"
  proof
    assume "d_zero y"
    then have m: "d_mag y = 0" by (simp add: d_zero_def)
    show False using assms(3) by (cases "d_neg y") (simp_all add: d_val_mag m)
  qed
  have t: "x / y = d_round (d_neg x \<noteq> d_neg y) ?n ?d ?e"
    using assms z by (simp add: divide_double_def isfinite_not)
  have v: "of_int ?n / of_int ?d * 2 powi ?e = \<bar>d_val x / d_val y\<bar>"
    using nz by (simp add: abs_divide abs_d_sig[symmetric] power_int_diff)
  show ?thesis
  proof (rule sign_round)
    show "is_round \<bar>d_val x / d_val y\<bar> (d_mag (x / y))"
      using round_mag_is_round[of ?n ?d ?e] nz unfolding t v by (simp add: d_round_fields)
    show "\<not> d_neg (x / y)" if "0 < d_val x / d_val y"
      using that d_val_signs[of x] d_val_signs[of y] nz unfolding t
      by (simp add: d_round_fields zero_less_divide_iff) linarith
    show "d_neg (x / y)" if "d_val x / d_val y < 0"
      using that d_val_signs[of x] d_val_signs[of y] nz unfolding t
      by (simp add: d_round_fields divide_less_0_iff) linarith
  qed
qed

lemma represents_times: "represents x p \<Longrightarrow> represents y q \<Longrightarrow> representable (p * q) \<Longrightarrow> represents (x * y) (p * q)"
  using represents_key times_value[of x y] by (simp add: represents_def[of x] represents_def[of y])

lemma represents_divide:
  "represents x p \<Longrightarrow> represents y q \<Longrightarrow> q \<noteq> 0 \<Longrightarrow> representable (p / q) \<Longrightarrow> represents (x / y) (p / q)"
  using represents_key divide_value[of x y] by (simp add: represents_def[of x] represents_def[of y])

lemma represents_0: "represents 0 0"
  by (simp add: represents_def)

lemma represents_less: "represents x p \<Longrightarrow> represents y q \<Longrightarrow> x < y \<longleftrightarrow> p < q"
  using less_val[of x y] by (simp add: represents_def)

lemma represents_le: "represents x p \<Longrightarrow> represents y q \<Longrightarrow> x \<le> y \<longleftrightarrow> p \<le> q"
  using less_val[of y x] isfinite_not(1) by (auto simp: represents_def d_le_not_less)

lemma represents_finite: "represents x p \<Longrightarrow> isfinite x \<and> \<not> isnan x"
  using isfinite_not(1) by (auto simp: represents_def)

lemma representable_half: 
  assumes "\<bar>n\<bar> < 2 ^ 53"
  shows "representable (of_int n / 2)"
proof (cases "n = 0")
  case False
  obtain j where j: "0 \<le> j" "j \<le> 52" "2 ^ 52 \<le> \<bar>n\<bar> * 2 ^ nat j" "\<bar>n\<bar> * 2 ^ nat j < 2 ^ 53"
    using lit_mag[OF False assms] by blast
  let ?s = "\<bar>n\<bar> * 2 ^ nat j"
  define m where "m = (?s - 2 ^ 52) + (1074 - j) * 2 ^ 52"
  have two: "(2 :: int) ^ 52 \<noteq> 0" by simp
  have r: "0 \<le> ?s - 2 ^ 52" "?s - 2 ^ 52 < 2 ^ 52" using j(3,4) by simp_all
  have q: "m div 2 ^ 52 = 1074 - j" "m mod 2 ^ 52 = ?s - 2 ^ 52"
    unfolding m_def div_mult_self1[OF two] mod_mult_self1 using r
    by (simp_all only: div_pos_pos_trivial mod_pos_pos_trivial add.right_neutral)
  have "mag_exp m = - j - 1" "mag_sig m = ?s" using j(2) unfolding mag_exp_def mag_sig_def q Let_def by simp_all
  then have "mag_val m = of_int ?s * 2 powi (- j - 1)" by (simp add: mag_val_def)
  also have "\<dots> = of_int \<bar>n\<bar> / 2"
  proof -
    have "(2 :: rat) powi (- j - 1) = inverse (2 ^ nat j) / 2"
      using j(1) by (simp add: power_int_diff power_int_minus powi_nat)
    then show ?thesis by simp
  qed
  finally have v: "mag_val m = of_int \<bar>n\<bar> / 2" .
  have "m < 1073 * 2 ^ 52 + 2 ^ 53" "0 \<le> m" using r j(1,2) by (simp_all add: m_def)
  then have m: "0 \<le> m" "m < inf_mag" by (simp_all add: inf_mag_def)
  have "d_mag (d_make (n < 0) m) = m" "d_neg (d_make (n < 0) m) = (n < 0)"
    using m inf_mag_less by (simp_all add: d_make_fields)
  then have "represents (d_make (n < 0) m) (of_int n / 2)"
    using m(2) by (cases "n < 0") (simp_all add: represents_def isfinite_def d_val_mag v)
  then show ?thesis by (auto simp: representable_def)
qed (use representable_int[of 0] in simp)

lemma represents_half: "represents (dec 5 1) (1 / 2)"
proof -
  have "represents (dec 5 1) (1 / 2) = (isfinite (dec 5 1) \<and> d_sig (dec 5 1) = 2 ^ 52 \<and> d_exp (dec 5 1) = - 53 \<or> represents (dec 5 1) (1 / 2))"
    using powi_split[of 52 "- 53"] by (auto simp: represents_def d_val_def power_int_def)
  moreover have "isfinite (dec 5 1) \<and> d_sig (dec 5 1) = 2 ^ 52 \<and> d_exp (dec 5 1) = - 53" by code_simp
  ultimately show ?thesis by blast
qed

end
