(* ===== verification/Plot_Buffer.thy ===== *)
theory Plot_Buffer
  imports Double_Int Double_Spacing Model_Text
begin

text \<open>
  The axes and the pixel buffer of the plotter (\<open>src/src/math/Plotter.hpp\<close>, lines 25 to 416):
  conversions between values and pixels, the grid, the curves and the characters shown.

  A result \<open>None\<close> means that the code has no defined behaviour there (a row pointer outside
  of its array, a conversion to \<open>int16_t\<close> out of range) or that a loop does not end. The
  logarithm, the power and the square root are those of the mathematics library of the host,
  which the standard does not specify to the bit: they are the parameter \<open>libm\<close>.
\<close>

section \<open>Numbers\<close>

record libm =
  libm_log :: "double \<Rightarrow> double"
  libm_pow :: "double \<Rightarrow> double \<Rightarrow> double"
  libm_sqrt :: "double \<Rightarrow> double"

text \<open>The conversion of an integer to \<open>int16_t\<close>.\<close>

definition narrow16 :: "int \<Rightarrow> int" where
  "narrow16 n = sint (word_of_int n :: 16 word)"

text \<open>\<open>std::round\<close>, halves away from zero, and the conversion of its result to \<open>int16_t\<close>.\<close>

definition round_int16 :: "double \<Rightarrow> int option" where
  "round_int16 x = (if isfinite x
     then let (n, d) = scaled (mag_sig (d_mag x)) 1 (d_exp x);
              q = (2 * n + d) div (2 * d);
              r = (if d_neg x then - q else q)
          in if -32768 \<le> r \<and> r < 32768 then Some r else None
     else None)"

lemma round_int16_val:
  assumes "represents x v" "r = (if v < 0 then - \<lfloor>\<bar>v\<bar> + 1 / 2\<rfloor> else \<lfloor>\<bar>v\<bar> + 1 / 2\<rfloor>)" "-32768 \<le> r" "r < 32768"
  shows "round_int16 x = Some r"
proof -
  obtain n d where nd: "scaled (mag_sig (d_mag x)) 1 (d_exp x) = (n, d)" by fastforce
  have d: "0 < d" "(of_int n / of_int d :: rat) = \<bar>v\<bar>"
    using scaled_value[OF nd] assms(1) d_val_abs[of x] by (simp_all add: mag_val_def d_exp_def represents_def)
  have "(of_int (2 * n + d) / of_int (2 * d) :: rat) = \<bar>v\<bar> + 1 / 2"
    using d by (simp add: field_simps)
  then have q: "(2 * n + d) div (2 * d) = \<lfloor>\<bar>v\<bar> + 1 / 2\<rfloor>"
    by (metis floor_divide_of_int_eq)
  have "v < 0 \<Longrightarrow> d_neg x" "0 < v \<Longrightarrow> \<not> d_neg x" "v = 0 \<Longrightarrow> \<lfloor>\<bar>v\<bar> + 1 / 2\<rfloor> = 0"
    using d_val_signs[of x] assms(1) floor_divide_of_int_eq[of 1 2, where ?'a = rat] by (auto simp: represents_def)
  then show ?thesis
    using assms by (cases "v = 0") (auto simp: round_int16_def represents_def nd q Let_def)
qed

section \<open>Loops\<close>

text \<open>
  \<open>for (x = x0; cond(x); x = next(x)) body\<close> and \<open>while (cond(x)) x = next(x)\<close> on doubles,
  which may not end, and loops over the integers of an interval, which do.
\<close>

partial_function (option) for_loop ::
    "(double \<Rightarrow> bool) \<Rightarrow> (double \<Rightarrow> double) \<Rightarrow> (double \<Rightarrow> 's \<Rightarrow> 's option) \<Rightarrow> double \<Rightarrow> 's \<Rightarrow> 's option" where
  "for_loop P nxt body x s =
     (if P x then Option.bind (body x s) (for_loop P nxt body (nxt x)) else Some s)"

partial_function (option) while_loop ::
    "(double \<Rightarrow> bool) \<Rightarrow> (double \<Rightarrow> double) \<Rightarrow> double \<Rightarrow> double option" where
  "while_loop P nxt x = (if P x then while_loop P nxt (nxt x) else Some x)"

declare for_loop.simps [code] while_loop.simps [code]

fun each :: "('a \<Rightarrow> 's \<Rightarrow> 's option) \<Rightarrow> 'a list \<Rightarrow> 's \<Rightarrow> 's option" where
  "each f [] s = Some s"
| "each f (x # xs) s = Option.bind (f x s) (each f xs)"

section \<open>Axes\<close>

datatype axis_type = TEMPORAL | LINEAR | LOGARITHMIC

record axis =
  ax_type :: axis_type
  ax_min :: double
  ax_max :: double
  ax_step :: double
  ax_origin :: double
  ax_grid :: double

text \<open>The constructor leaves \<open>type\<close> as the memory was.\<close>

definition mk_axis :: "axis_type \<Rightarrow> axis" where
  "mk_axis t = \<lparr>ax_type = t, ax_min = NAN, ax_max = NAN, ax_step = NAN, ax_origin = NAN, ax_grid = NAN\<rparr>"

record axes =
  ax_x :: axis
  ax_y :: axis

definition i_to_x :: "axes \<Rightarrow> int \<Rightarrow> double" where
  "i_to_x a i = (case ax_type (ax_x a) of
     LOGARITHMIC \<Rightarrow> NAN
   | _ \<Rightarrow> lit i * ax_step (ax_x a) + ax_min (ax_x a))"

definition x_to_i :: "libm \<Rightarrow> axes \<Rightarrow> double \<Rightarrow> int option" where
  "x_to_i L a v = (case ax_type (ax_x a) of
     LOGARITHMIC \<Rightarrow> if v < 0 then Some (- 1)
       else round_int16 (libm_log L (v / ax_min (ax_x a)) / ax_step (ax_x a))
   | _ \<Rightarrow> round_int16 ((v - ax_min (ax_x a) + dec 5 1 * ax_step (ax_x a)) / ax_step (ax_x a)))"

definition y_to_j :: "libm \<Rightarrow> axes \<Rightarrow> double \<Rightarrow> int option" where
  "y_to_j L a v = (case ax_type (ax_y a) of
     LOGARITHMIC \<Rightarrow> if v \<le> 0 then Some (- 1)
       else round_int16 (libm_log L (ax_max (ax_y a) / v) / ax_step (ax_y a))
   | _ \<Rightarrow> round_int16 ((ax_max (ax_y a) - v) / ax_step (ax_y a)))"

definition adjust_axis :: "libm \<Rightarrow> axis \<Rightarrow> int \<Rightarrow> axis" where
  "adjust_axis L a n =
     (let a1 = (if isnan (ax_min a) then a\<lparr>ax_min := ax_max a - lit (n - 1) * ax_step a\<rparr> else a);
          a2 = (if isnan (ax_max a1) then a1\<lparr>ax_max := ax_min a1 + lit (n - 1) * ax_step a1\<rparr> else a1)
      in if isnan (ax_step a2)
         then (case ax_type a2 of
             LOGARITHMIC \<Rightarrow> a2\<lparr>ax_step := libm_log L (ax_max a2 / ax_min a2) / lit (n - 1)\<rparr>
           | _ \<Rightarrow> a2\<lparr>ax_step := (ax_max a2 - ax_min a2) / lit (n - 1)\<rparr>)
         else a2)"

section \<open>The buffer\<close>

text \<open>
  The pixels are one block of \<open>_plot_width * _plot_height\<close> bytes; the array \<open>_plot\<close> of row
  pointers has \<open>_plot_width\<close> entries, of which the constructor sets the first
  \<open>_plot_height\<close>. A row outside of these has no pointer.
\<close>

record buffer =
  buf_axes :: axes
  buf_width :: int
  buf_height :: int
  buf_pixels :: "byte list"

definition pixel_index :: "buffer \<Rightarrow> int \<Rightarrow> int \<Rightarrow> nat option" where
  "pixel_index b j i = (if 0 \<le> j \<and> j < buf_height b
       \<and> 0 \<le> j * buf_width b + i \<and> nat (j * buf_width b + i) < length (buf_pixels b)
     then Some (nat (j * buf_width b + i)) else None)"

definition change_pixel :: "(byte \<Rightarrow> byte) \<Rightarrow> int \<Rightarrow> int \<Rightarrow> buffer \<Rightarrow> buffer option" where
  "change_pixel f j i b = Option.bind (pixel_index b j i) (\<lambda>k.
     Some (b\<lparr>buf_pixels := (buf_pixels b)[k := f (buf_pixels b ! k)]\<rparr>))"

definition read_pixel :: "buffer \<Rightarrow> int \<Rightarrow> int \<Rightarrow> byte option" where
  "read_pixel b j i = Option.bind (pixel_index b j i) (\<lambda>k. Some (buf_pixels b ! k))"

definition check_ij :: "buffer \<Rightarrow> int \<Rightarrow> int \<Rightarrow> bool" where
  "check_ij b i j = (if i < 0 \<or> i \<ge> buf_width b then False
     else if j < 0 \<or> j \<ge> buf_height b then False else True)"

definition plot_line_vertical :: "libm \<Rightarrow> byte \<Rightarrow> double \<Rightarrow> buffer \<Rightarrow> buffer option" where
  "plot_line_vertical L value x b =
     (if ax_min (ax_x (buf_axes b)) \<le> x \<and> x \<le> ax_max (ax_x (buf_axes b))
      then Option.bind (x_to_i L (buf_axes b) x) (\<lambda>i.
        if 0 \<le> i \<and> i < buf_width b
        then each (\<lambda>j. change_pixel (\<lambda>p. p OR value) j i) [0..buf_height b - 1] b
        else Some b)
      else Some b)"

definition plot_line_horizontal :: "libm \<Rightarrow> byte \<Rightarrow> double \<Rightarrow> buffer \<Rightarrow> buffer option" where
  "plot_line_horizontal L value y b =
     (if ax_min (ax_y (buf_axes b)) \<le> y \<and> y \<le> ax_max (ax_y (buf_axes b))
      then Option.bind (y_to_j L (buf_axes b) y) (\<lambda>j.
        if 0 \<le> j \<and> j < buf_width b
        then (let j' = j - j mod 2 in
          each (\<lambda>i b. Option.bind (change_pixel (\<lambda>p. p OR value) j' i b)
                        (change_pixel (\<lambda>p. p OR value) (j' + 1) i)) [0..buf_width b - 1] b)
        else Some b)
      else Some b)"

text \<open>Both grids are drawn alike, one from the x axis with vertical lines and one from the y
  axis with horizontal ones; only the mark of a linear grid line differs.\<close>

definition plot_grid_linear ::
    "(byte \<Rightarrow> double \<Rightarrow> 's \<Rightarrow> 's option) \<Rightarrow> byte \<Rightarrow> axis \<Rightarrow> 's \<Rightarrow> 's option" where
  "plot_grid_linear line mark a b =
     Option.bind (while_loop (\<lambda>x. ax_min a < x) (\<lambda>x. x - ax_grid a) (ax_origin a)) (\<lambda>lowest.
     Option.bind (for_loop (\<lambda>x. x \<le> ax_max a) (\<lambda>x. x + ax_grid a) (line mark) lowest b)
       (line 32 (ax_origin a)))"

definition plot_grid_logarithmic ::
    "(byte \<Rightarrow> double \<Rightarrow> 's \<Rightarrow> 's option) \<Rightarrow> byte \<Rightarrow> axis \<Rightarrow> 's \<Rightarrow> 's option" where
  "plot_grid_logarithmic line mark a b =
     Option.bind
       (if lit 1 < ax_grid a
        then Option.bind (while_loop (\<lambda>x. ax_min a < x) (\<lambda>x. x / ax_grid a) (ax_origin a)) (\<lambda>lowest.
          for_loop (\<lambda>x. x \<le> ax_max a) (\<lambda>x. x * ax_grid a) (line mark) lowest b)
        else Some b)
       (line 32 (ax_origin a))"

definition plot_grid_vertical :: "libm \<Rightarrow> buffer \<Rightarrow> buffer option" where
  "plot_grid_vertical L b = (case ax_type (ax_x (buf_axes b)) of
     LOGARITHMIC \<Rightarrow> plot_grid_logarithmic (plot_line_vertical L) 16 (ax_x (buf_axes b)) b
   | _ \<Rightarrow> plot_grid_linear (plot_line_vertical L) 8 (ax_x (buf_axes b)) b)"

definition plot_grid_horizontal :: "libm \<Rightarrow> buffer \<Rightarrow> buffer option" where
  "plot_grid_horizontal L b = (case ax_type (ax_y (buf_axes b)) of
     LOGARITHMIC \<Rightarrow> plot_grid_logarithmic (plot_line_horizontal L) 16 (ax_y (buf_axes b)) b
   | _ \<Rightarrow> plot_grid_linear (plot_line_horizontal L) 16 (ax_y (buf_axes b)) b)"

text \<open>The constructor stores a row pointer for every row in an array of one entry per column.\<close>

definition mk_buffer :: "libm \<Rightarrow> int \<Rightarrow> int \<Rightarrow> axes \<Rightarrow> buffer option" where
  "mk_buffer L plot_width plot_height a =
     (let w = narrow16 (plot_width + 1); h = narrow16 (2 * plot_height + 2) in
      if 0 < h \<and> w < h then None
      else Option.bind (plot_grid_vertical L
          \<lparr>buf_axes = \<lparr>ax_x = adjust_axis L (ax_x a) w, ax_y = adjust_axis L (ax_y a) h\<rparr>,
           buf_width = w, buf_height = h, buf_pixels = replicate (nat (w * h)) 0\<rparr>)
        (plot_grid_horizontal L))"

section \<open>Curves\<close>

datatype plotter_color = RED | GREEN | YELLOW | BLUE | MAGENTA | CYAN | WHITE

fun color_byte :: "plotter_color \<Rightarrow> byte" where
  "color_byte RED = 1"
| "color_byte GREEN = 2"
| "color_byte YELLOW = 3"
| "color_byte BLUE = 4"
| "color_byte MAGENTA = 5"
| "color_byte CYAN = 6"
| "color_byte WHITE = 7"

text \<open>The function of a curve runs code of the caller, so it may have no defined result either.\<close>

datatype curve =
    FUNCTION_1 "double \<Rightarrow> double option" plotter_color
  | FUNCTION_2 "double \<Rightarrow> double \<Rightarrow> double option" plotter_color
  | FUNCTION_3 "double \<Rightarrow> double \<Rightarrow> (double \<times> double) option" plotter_color
  | VALUES "(double \<times> double) list" plotter_color

text \<open>
  The range of a curve over an interval; \<open>y_min\<close> and \<open>y_max\<close> are not initialised for a curve
  of values, so what the memory held comes in as \<open>junk\<close>.
\<close>

definition curve_step :: "double \<Rightarrow> double \<Rightarrow> double \<times> double \<Rightarrow> double \<times> double \<Rightarrow> double \<times> double" where
  "curve_step x1 x2 p y =
     (if x1 < fst p \<and> fst p \<le> x2
      then (if isnan (fst y) \<or> snd p < fst y then snd p else fst y,
            if isnan (snd y) \<or> snd p < snd y then snd p else snd y)
      else y)"

fun curve_compute :: "double \<times> double \<Rightarrow> curve \<Rightarrow> double \<times> double \<Rightarrow> (double \<times> double) option" where
  "curve_compute junk (FUNCTION_1 f c) x = Option.bind (f (fst x)) (\<lambda>y1. Option.bind (f (snd x)) (\<lambda>y2. Some (y1, y2)))"
| "curve_compute junk (FUNCTION_2 f c) x = Option.bind (f (fst x) (snd x)) (\<lambda>y. Some (y, y))"
| "curve_compute junk (FUNCTION_3 f c) x = f (fst x) (snd x)"
| "curve_compute junk (VALUES vs c) x = Some (fold (curve_step (fst x) (snd x)) vs junk)"

definition plot_point :: "libm \<Rightarrow> plotter_color \<Rightarrow> double \<Rightarrow> double \<Rightarrow> buffer \<Rightarrow> buffer option" where
  "plot_point L c x y b = (if isnan y then Some b else
     Option.bind (x_to_i L (buf_axes b) x) (\<lambda>i.
     Option.bind (y_to_j L (buf_axes b) y) (\<lambda>j.
       if \<not> check_ij b i j then Some b else change_pixel (\<lambda>_. color_byte c) j i b)))"

definition plot_range :: "libm \<Rightarrow> plotter_color \<Rightarrow> double \<Rightarrow> double \<times> double \<Rightarrow> buffer \<Rightarrow> buffer option" where
  "plot_range L c x ys b =
     Option.bind (for_loop (\<lambda>y. y \<le> snd ys) (\<lambda>y. y + ax_step (ax_y (buf_axes b))) (plot_point L c x) (fst ys) b)
       (plot_point L c x (snd ys))"

definition plot_f1 :: "libm \<Rightarrow> plotter_color \<Rightarrow> (double \<Rightarrow> double option) \<Rightarrow> buffer \<Rightarrow> buffer option" where
  "plot_f1 L c f b = (let a = ax_x (buf_axes b) in
     for_loop (\<lambda>x. x < ax_max a + ax_step a) (\<lambda>x. x + ax_step a) (\<lambda>x b. Option.bind (f x) (\<lambda>y. plot_point L c x y b)) (ax_min a) b)"

definition plot_f2 :: "libm \<Rightarrow> plotter_color \<Rightarrow> (double \<Rightarrow> double \<Rightarrow> double option) \<Rightarrow> buffer \<Rightarrow> buffer option" where
  "plot_f2 L c f b = (let a = ax_x (buf_axes b) in
     for_loop (\<lambda>x. x < ax_max a + ax_step a) (\<lambda>x. x + ax_step a)
       (\<lambda>x b. Option.bind (f x (x + ax_step a)) (\<lambda>y. plot_point L c x y b)) (ax_min a - dec 5 1 * ax_step a) b)"

definition plot_f3 :: "libm \<Rightarrow> plotter_color \<Rightarrow> (double \<Rightarrow> double \<Rightarrow> (double \<times> double) option) \<Rightarrow> buffer \<Rightarrow> buffer option" where
  "plot_f3 L c f b = (let a = ax_x (buf_axes b) in
     for_loop (\<lambda>x. x < ax_max a + ax_step a) (\<lambda>x. x + ax_step a)
       (\<lambda>x b. Option.bind (f x (x + ax_step a)) (\<lambda>ys. plot_range L c x ys b)) (ax_min a - dec 5 1 * ax_step a) b)"

definition plot_values :: "libm \<Rightarrow> plotter_color \<Rightarrow> (double \<times> double) list \<Rightarrow> buffer \<Rightarrow> buffer option" where
  "plot_values L c vs = each (\<lambda>v. plot_point L c (fst v) (snd v)) vs"

fun plot_curve :: "libm \<Rightarrow> curve \<Rightarrow> buffer \<Rightarrow> buffer option" where
  "plot_curve L (FUNCTION_1 f c) = plot_f1 L c f"
| "plot_curve L (FUNCTION_2 f c) = plot_f2 L c f"
| "plot_curve L (FUNCTION_3 f c) = plot_f3 L c f"
| "plot_curve L (VALUES vs c) = plot_values L c vs"

section \<open>What is shown\<close>

text \<open>One terminal cell shows two pixels, one above the other.\<close>

datatype glyph = Blank | Half_block | Vertical_bar | Horizontal_bar | Cross

definition get_character :: "byte \<Rightarrow> byte \<Rightarrow> glyph" where
  "get_character pixel_top pixel_bottom =
     (if pixel_top OR pixel_bottom = 0 then Blank
      else if pixel_top < 8 \<or> pixel_bottom < 8 then Half_block
      else if pixel_top AND 24 = 8 then Vertical_bar
      else if pixel_top AND 24 = 16 then Horizontal_bar
      else if pixel_top AND 24 = 24 then Cross
      else Blank)"

datatype emphasis = Plain | Bold | Dim

record cell =
  cell_glyph :: glyph
  cell_pair :: nat
  cell_emphasis :: emphasis

text \<open>\<open>attrset\<close> replaces all attributes, so the \<open>A_INVIS\<close> set before it has no effect.\<close>

definition show_cell :: "byte \<Rightarrow> byte \<Rightarrow> cell" where
  "show_cell pixel_top pixel_bottom =
     (if pixel_top < 8 \<or> pixel_bottom < 8
      then \<lparr>cell_glyph = get_character pixel_top pixel_bottom,
            cell_pair = unat ((pixel_top AND 7) OR push_bit 3 (pixel_bottom AND 7)), cell_emphasis = Plain\<rparr>
      else if pixel_top OR pixel_bottom \<noteq> 0
      then \<lparr>cell_glyph = get_character pixel_top pixel_bottom, cell_pair = 64,
            cell_emphasis = (if (pixel_bottom OR pixel_top) AND 32 \<noteq> 0 then Bold else Dim)\<rparr>
      else \<lparr>cell_glyph = get_character pixel_top pixel_bottom, cell_pair = 1, cell_emphasis = Plain\<rparr>)"

text \<open>What is written on the terminal: a cell, or a text from a position on.\<close>

datatype screen_write = Put_cell int int cell | Print int int string

definition show_at :: "buffer \<Rightarrow> int \<Rightarrow> int \<Rightarrow> screen_write option" where
  "show_at b j i = Option.bind (read_pixel b j i) (\<lambda>pixel_top.
     Option.bind (read_pixel b (j + 1) i) (\<lambda>pixel_bottom.
       Some (Put_cell (j div 2) i (show_cell pixel_top pixel_bottom))))"

definition buffer_cells :: "buffer \<Rightarrow> screen_write list option" where
  "buffer_cells b =
     each (\<lambda>j. each (\<lambda>i out. Option.bind (show_at b j i) (\<lambda>c. Some (out @ [c]))) [0..buf_width b - 1])
       (filter even [0..buf_height b - 1]) []"

text \<open>\<open>%lf\<close>: six digits after the point, rounded to nearest, ties to even.\<close>

definition show_lf :: "double \<Rightarrow> string" where
  "show_lf x =
     (if d_neg x then ''-'' else '''') @
     (if isnan x then ''nan'' else if isinf x then ''inf''
      else case scaled (mag_sig (d_mag x)) 1 (d_exp x) of (n, d) \<Rightarrow>
        (let q = div_even (n * 10 ^ 6) d
         in show_nat (nat (q div 10 ^ 6)) @ ''.'' @ pad0 6 (show_nat (nat (q mod 10 ^ 6)))))"

text \<open>The header with the intervals of the axes, printed last and over the cells.\<close>

definition show_header :: "time_zone \<Rightarrow> axes \<Rightarrow> string option" where
  "show_header tz a =
     (let ys = show_lf (ax_min (ax_y a)) @ '' , '' @ show_lf (ax_max (ax_y a)) @ '' ] '';
          header = (\<lambda>min max. '' [ '' @ min @ '' , '' @ max @ '' ]  ->  [ '' @ ys)
      in if ax_type (ax_x a) = TEMPORAL
         then Option.bind (ts_string tz (ax_min (ax_x a))) (\<lambda>min.
              Option.bind (ts_string tz (ax_max (ax_x a))) (\<lambda>max. Some (header min max)))
         else Some (header (show_lf (ax_min (ax_x a))) (show_lf (ax_max (ax_x a)))))"

definition buffer_show :: "time_zone \<Rightarrow> buffer \<Rightarrow> screen_write list option" where
  "buffer_show tz b = Option.bind (buffer_cells b) (\<lambda>cells.
     Option.bind (show_header tz (buf_axes b)) (\<lambda>header. Some (cells @ [Print 0 0 header])))"

text \<open>
  What a terminal with so many columns then has in a place: what was written there last. A text
  that reaches the last column goes on in the next row.
\<close>

datatype shown = Cell cell | Letter char

fun covers :: "int \<Rightarrow> int \<Rightarrow> int \<Rightarrow> screen_write \<Rightarrow> shown option" where
  "covers cols r i (Put_cell r' i' c) = (if r' = r \<and> i' = i then Some (Cell c) else None)"
| "covers cols r i (Print r' i' s) = (let k = (r - r') * cols + (i - i')
     in if 0 \<le> k \<and> k < int (length s) then Some (Letter (s ! nat k)) else None)"

definition on_screen :: "int \<Rightarrow> screen_write list \<Rightarrow> int \<Rightarrow> int \<Rightarrow> shown option" where
  "on_screen cols ws r i = foldl (\<lambda>seen w. case covers cols r i w of None \<Rightarrow> seen | Some x \<Rightarrow> Some x) None ws"

section \<open>Drawing\<close>

text \<open>
  Drawing changes the pixels and nothing else: \<open>changed f C b b'\<close> says that \<open>b'\<close> is \<open>b\<close> with
  \<open>f\<close> applied to exactly the pixels that satisfy \<open>C\<close>. Lines set bits, points set a colour.
\<close>

definition buffer_ok :: "buffer \<Rightarrow> bool" where
  "buffer_ok b \<longleftrightarrow> length (buf_pixels b) = nat (buf_width b * buf_height b)"

definition inside :: "buffer \<Rightarrow> int \<Rightarrow> int \<Rightarrow> bool" where
  "inside b j i \<longleftrightarrow> 0 \<le> j \<and> j < buf_height b \<and> 0 \<le> i \<and> i < buf_width b"

definition pix :: "buffer \<Rightarrow> int \<Rightarrow> int \<Rightarrow> byte" where
  "pix b j i = buf_pixels b ! nat (j * buf_width b + i)"

definition same_shape :: "buffer \<Rightarrow> buffer \<Rightarrow> bool" where
  "same_shape b b' \<longleftrightarrow> buf_axes b' = buf_axes b \<and> buf_width b' = buf_width b \<and> buf_height b' = buf_height b
     \<and> length (buf_pixels b') = length (buf_pixels b)"

definition changed :: "(byte \<Rightarrow> byte) \<Rightarrow> (int \<Rightarrow> int \<Rightarrow> bool) \<Rightarrow> buffer \<Rightarrow> buffer \<Rightarrow> bool" where
  "changed f C b b' \<longleftrightarrow> same_shape b b' \<and>
     (\<forall>j i. inside b j i \<longrightarrow> pix b' j i = (if C j i then f (pix b j i) else pix b j i))"

abbreviation drawn :: "byte \<Rightarrow> (int \<Rightarrow> int \<Rightarrow> bool) \<Rightarrow> buffer \<Rightarrow> buffer \<Rightarrow> bool" where
  "drawn v \<equiv> changed (\<lambda>p. p OR v)"

abbreviation painted :: "plotter_color \<Rightarrow> (int \<Rightarrow> int \<Rightarrow> bool) \<Rightarrow> buffer \<Rightarrow> buffer \<Rightarrow> bool" where
  "painted c \<equiv> changed (\<lambda>_. color_byte c)"

definition repeatable :: "(byte \<Rightarrow> byte) \<Rightarrow> bool" where
  "repeatable f \<longleftrightarrow> (\<forall>p. f (f p) = f p)"

lemma repeatable_draw [simp]: "repeatable (\<lambda>p. p OR v)" "repeatable (\<lambda>_. w)"
  by (simp_all add: repeatable_def or.assoc)

lemma same_shape_refl [simp]: "same_shape b b"
  by (simp add: same_shape_def)

lemma same_shape_trans: "same_shape b b1 \<Longrightarrow> same_shape b1 b2 \<Longrightarrow> same_shape b b2"
  by (simp add: same_shape_def)

lemma same_shape_inside: "same_shape b b' \<Longrightarrow> inside b' = inside b"
  by (simp add: same_shape_def inside_def fun_eq_iff)

lemma same_shape_ok: "same_shape b b' \<Longrightarrow> buffer_ok b' = buffer_ok b"
  by (simp add: same_shape_def buffer_ok_def)

lemma inside_index:
  assumes "buffer_ok b" "inside b j i"
  shows "pixel_index b j i = Some (nat (j * buf_width b + i))" and "0 \<le> j * buf_width b + i"
    and "nat (j * buf_width b + i) < length (buf_pixels b)"
proof -
  have "0 \<le> j * buf_width b" "(j + 1) * buf_width b \<le> buf_height b * buf_width b"
    using assms(2) by (simp_all add: inside_def mult_right_mono)
  then have "0 \<le> j * buf_width b + i" "j * buf_width b + i < buf_width b * buf_height b"
    using assms(2) by (simp_all add: inside_def algebra_simps)
  then show "0 \<le> j * buf_width b + i" "nat (j * buf_width b + i) < length (buf_pixels b)"
    "pixel_index b j i = Some (nat (j * buf_width b + i))"
    using assms by (simp_all add: pixel_index_def buffer_ok_def inside_def)
qed

lemma index_inj:
  assumes "inside b j i" "inside b j' i'" "j * buf_width b + i = j' * buf_width b + i'"
  shows "j = j' \<and> i = i'"
proof -
  have "(j * buf_width b + i) div buf_width b = j" "(j' * buf_width b + i') div buf_width b = j'"
    using assms(1,2) by (simp_all add: inside_def)
  then have "j = j'" using assms(3) by simp
  then show ?thesis using assms(3) by simp
qed

lemma read_pixel_inside: "buffer_ok b \<Longrightarrow> inside b j i \<Longrightarrow> read_pixel b j i = Some (pix b j i)"
  by (simp add: read_pixel_def inside_index pix_def)

lemma change_pixel_inside:
  assumes "buffer_ok b" "inside b j i"
  obtains b' where "change_pixel f j i b = Some b'" "same_shape b b'" "pix b' j i = f (pix b j i)"
    and "\<And>j' i'. inside b j' i' \<Longrightarrow> (j', i') \<noteq> (j, i) \<Longrightarrow> pix b' j' i' = pix b j' i'"
proof -
  let ?k = "nat (j * buf_width b + i)"
  let ?b = "b\<lparr>buf_pixels := (buf_pixels b)[?k := f (buf_pixels b ! ?k)]\<rparr>"
  note ix = inside_index[OF assms]
  have "pix ?b j' i' = pix b j' i'" if "inside b j' i'" "(j', i') \<noteq> (j, i)" for j' i'
  proof -
    have "j * buf_width b + i \<noteq> j' * buf_width b + i'" using index_inj[OF assms(2) that(1)] that(2) by auto
    then have "?k \<noteq> nat (j' * buf_width b + i')" using ix(2) inside_index(2)[OF assms(1) that(1)] by simp
    then show ?thesis by (simp add: pix_def)
  qed
  then show ?thesis using ix by (intro that[of ?b]) (simp_all add: change_pixel_def same_shape_def pix_def)
qed

lemma change_pixel_Some:
  assumes "buffer_ok b" "0 \<le> i" "i < buf_width b" "change_pixel f j i b = Some b'"
  shows "inside b j i" and "changed f (\<lambda>j' i'. j' = j \<and> i' = i) b b'"
proof -
  show ins: "inside b j i"
    using assms by (auto simp: change_pixel_def pixel_index_def inside_def split: if_splits)
  show "changed f (\<lambda>j' i'. j' = j \<and> i' = i) b b'"
    using change_pixel_inside[OF assms(1) ins, of f] assms(4)
    by (auto simp: changed_def)
qed

lemma changed_refl [simp]: "changed f (\<lambda>j i. False) b b"
  by (simp add: changed_def)

lemma changed_shape: "changed f C b b' \<Longrightarrow> same_shape b b'"
  by (simp add: changed_def)

lemma changed_Un:
  "repeatable f \<Longrightarrow> changed f C b b1 \<Longrightarrow> changed f D b1 b2 \<Longrightarrow> changed f (\<lambda>j i. C j i \<or> D j i) b b2"
  by (auto simp: changed_def same_shape_inside repeatable_def intro: same_shape_trans)

lemma changed_cong: "changed f C b b' \<Longrightarrow> (\<And>j i. inside b j i \<Longrightarrow> C j i = D j i) \<Longrightarrow> changed f D b b'"
  by (simp add: changed_def)

lemma each_changed:
  assumes "repeatable f" "each body xs b = Some b'" "buffer_ok b"
    and "\<And>x b1 b2. x \<in> set xs \<Longrightarrow> same_shape b b1 \<Longrightarrow> buffer_ok b1 \<Longrightarrow> body x b1 = Some b2 \<Longrightarrow> changed f (C x) b1 b2"
  shows "changed f (\<lambda>j i. \<exists>x \<in> set xs. C x j i) b b'"
  using assms(2-)
proof (induction xs arbitrary: b)
  case (Cons x xs)
  obtain b1 where b1: "body x b = Some b1" "each body xs b1 = Some b'"
    using Cons.prems(1) by (auto simp: bind_eq_Some_conv)
  have d: "changed f (C x) b b1" using Cons.prems(2,3) b1(1) by simp
  have "changed f (\<lambda>j i. \<exists>x \<in> set xs. C x j i) b1 b'"
  proof (rule Cons.IH[OF b1(2)])
    show "buffer_ok b1" using same_shape_ok[OF changed_shape[OF d]] Cons.prems(2) by simp
    show "changed f (C y) b2 b3"
      if "y \<in> set xs" "same_shape b1 b2" "buffer_ok b2" "body y b2 = Some b3" for y b2 b3
      using Cons.prems(3)[of y b2 b3] that same_shape_trans[OF changed_shape[OF d] that(2)] by simp
  qed
  from changed_Un[OF assms(1) d this] show ?case by (rule changed_cong) auto
qed simp

section \<open>Lines and grids\<close>

text \<open>Which pixels a line belongs to, and the points of a grid.\<close>

definition on_column :: "libm \<Rightarrow> axes \<Rightarrow> double \<Rightarrow> int \<Rightarrow> bool" where
  "on_column L a x i \<longleftrightarrow> ax_min (ax_x a) \<le> x \<and> x \<le> ax_max (ax_x a) \<and> x_to_i L a x = Some i"

definition on_row :: "libm \<Rightarrow> axes \<Rightarrow> double \<Rightarrow> int \<Rightarrow> bool" where
  "on_row L a y r \<longleftrightarrow> ax_min (ax_y a) \<le> y \<and> y \<le> ax_max (ax_y a) \<and>
     (\<exists>j. y_to_j L a y = Some j \<and> 0 \<le> j \<and> j div 2 = r)"

partial_function (option) loop_points :: "(double \<Rightarrow> bool) \<Rightarrow> (double \<Rightarrow> double) \<Rightarrow> double \<Rightarrow> double list option" where
  "loop_points P nxt x =
     (if P x then Option.bind (loop_points P nxt (nxt x)) (\<lambda>xs. Some (x # xs)) else Some [])"

declare loop_points.simps [code]

text \<open>A loop that returns has gone through its points, and one whose points are finitely many
  does what going through them does.\<close>

lemma for_loop_points:
  "for_loop P nxt body x s = Some s' \<Longrightarrow> \<exists>xs. loop_points P nxt x = Some xs \<and> each body xs s = Some s'"
proof -
  let ?Q = "\<lambda>((((P, nxt), body), x), s) s'. \<exists>xs. loop_points P nxt x = Some xs \<and> each body xs s = Some s'"
  assume returns: "for_loop P nxt body x s = Some s'"
  have "?Q ((((P, nxt), body), x), s) s'"
  proof (rule for_loop.raw_induct[of ?Q "((((P, nxt), body), x), s)" s'], goal_cases)
    case (1 loop P nxt body x s s')
    note IH = 1(1)[simplified] and s' = 1(2)
    have "\<exists>xs. loop_points P nxt x = Some xs \<and> each body xs s = Some s'"
    proof (cases "P x")
      case True
      then obtain s1 where s1: "body x s = Some s1" "loop P nxt body (nxt x) s1 = Some s'"
        using s' by (auto simp: bind_eq_Some_conv)
      then obtain xs where "loop_points P nxt (nxt x) = Some xs" "each body xs s1 = Some s'"
        using IH by blast
      then show ?thesis using True s1(1) by (subst loop_points.simps) simp
    next
      case False
      then show ?thesis using s' by (subst loop_points.simps) simp
    qed
    then show ?case by simp
  next
    case 2
    show ?case using returns by simp
  qed
  then show ?thesis by simp
qed

lemma for_loop_each:
  "loop_points P nxt x = Some xs \<Longrightarrow> for_loop P nxt body x s = each body xs s"
proof (induction xs arbitrary: x s)
  case Nil
  then show ?case
    by (subst (asm) loop_points.simps, subst for_loop.simps) (auto simp: bind_eq_Some_conv split: if_splits)
next
  case (Cons y xs)
  from Cons.prems have "P x" "y = x" "loop_points P nxt (nxt x) = Some xs"
    by (subst (asm) (1) loop_points.simps, simp add: bind_eq_Some_conv split: if_splits)+
  then show ?case
    by (subst for_loop.simps) (cases "body x s"; simp add: Cons.IH)
qed


text \<open>The lines of a grid: the grid loops run with a line function that notes its arguments.\<close>

definition note_line :: "byte \<Rightarrow> double \<Rightarrow> (byte \<times> double) list \<Rightarrow> (byte \<times> double) list option" where
  "note_line mark x ls = Some (ls @ [(mark, x)])"

definition grid_lines :: "byte \<Rightarrow> axis \<Rightarrow> (byte \<times> double) list option" where
  "grid_lines mark a = (case ax_type a of
     LOGARITHMIC \<Rightarrow> plot_grid_logarithmic note_line mark a []
   | _ \<Rightarrow> plot_grid_linear note_line mark a [])"

lemma each_note: "each (note_line mark) xs ls = Some (ls @ map (Pair mark) xs)"
  by (induction xs arbitrary: ls) (simp_all add: note_line_def)

lemma plot_line_vertical_drawn:
  assumes "buffer_ok b" "plot_line_vertical L v x b = Some b'"
  shows "drawn v (\<lambda>j i. on_column L (buf_axes b) x i) b b'"
proof (cases "\<exists>i. on_column L (buf_axes b) x i \<and> 0 \<le> i \<and> i < buf_width b")
  case True
  then obtain i where i: "on_column L (buf_axes b) x i" "0 \<le> i" "i < buf_width b" by blast
  then have "each (\<lambda>j. change_pixel (\<lambda>p. p OR v) j i) [0..buf_height b - 1] b = Some b'"
    using assms(2) by (simp add: plot_line_vertical_def on_column_def)
  then have "drawn v (\<lambda>j' i'. \<exists>j \<in> set [0..buf_height b - 1]. j' = j \<and> i' = i) b b'"
    by (rule each_changed[OF repeatable_draw(1) _ assms(1)]) (use i in \<open>auto intro!: change_pixel_Some simp: same_shape_def\<close>)
  then show ?thesis
    by (rule changed_cong) (use i in \<open>auto simp: inside_def on_column_def\<close>)
next
  case False
  then have "b' = b"
    using assms(2) by (auto simp: plot_line_vertical_def on_column_def bind_eq_Some_conv split: if_splits)
  then show ?thesis using False by (auto simp: changed_def inside_def)
qed

lemma plot_line_horizontal_drawn:
  assumes "buffer_ok b" "plot_line_horizontal L v y b = Some b'" "buf_height b \<le> buf_width b" "even (buf_height b)"
  shows "drawn v (\<lambda>j i. on_row L (buf_axes b) y (j div 2)) b b'"
proof (cases "\<exists>j. y_to_j L (buf_axes b) y = Some j \<and> 0 \<le> j \<and> j < buf_width b \<and>
    ax_min (ax_y (buf_axes b)) \<le> y \<and> y \<le> ax_max (ax_y (buf_axes b))")
  case True
  then obtain j where j: "y_to_j L (buf_axes b) y = Some j" "0 \<le> j" "j < buf_width b"
      "ax_min (ax_y (buf_axes b)) \<le> y" "y \<le> ax_max (ax_y (buf_axes b))" by blast
  define k where "k = j - j mod 2"
  have k: "(j' = k \<or> j' = k + 1) \<longleftrightarrow> j div 2 = j' div 2" for j' unfolding k_def by presburger
  have "each (\<lambda>i b. Option.bind (change_pixel (\<lambda>p. p OR v) k i b) (change_pixel (\<lambda>p. p OR v) (k + 1) i))
      [0..buf_width b - 1] b = Some b'"
    using assms(2) j by (simp add: plot_line_horizontal_def k_def Let_def)
  then have "drawn v (\<lambda>j' i'. \<exists>i \<in> set [0..buf_width b - 1]. (j' = k \<or> j' = k + 1) \<and> i' = i) b b'"
  proof (rule each_changed[OF repeatable_draw(1) _ assms(1)])
    fix i b1 b2
    assume h: "i \<in> set [0..buf_width b - 1]" "same_shape b b1" "buffer_ok b1"
      "Option.bind (change_pixel (\<lambda>p. p OR v) k i b1) (change_pixel (\<lambda>p. p OR v) (k + 1) i) = Some b2"
    obtain bm where bm: "change_pixel (\<lambda>p. p OR v) k i b1 = Some bm" "change_pixel (\<lambda>p. p OR v) (k + 1) i bm = Some b2"
      using h(4) by (auto simp: bind_eq_Some_conv)
    have i: "0 \<le> i" "i < buf_width b1" using h(1,2) by (simp_all add: same_shape_def)
    note d1 = change_pixel_Some(2)[OF h(3) i bm(1)]
    have "buffer_ok bm" "i < buf_width bm"
      using same_shape_ok[OF changed_shape[OF d1]] h(3) i changed_shape[OF d1] by (simp_all add: same_shape_def)
    note d2 = change_pixel_Some(2)[OF this(1) i(1) this(2) bm(2)]
    show "drawn v (\<lambda>j' i'. (j' = k \<or> j' = k + 1) \<and> i' = i) b1 b2"
      by (rule changed_cong[OF changed_Un[OF repeatable_draw(1) d1 d2]]) auto
  qed
  then show ?thesis
    by (rule changed_cong) (use j in \<open>auto simp: k inside_def on_row_def\<close>)
next
  case False
  then have "b' = b"
    using assms(2) by (auto simp: plot_line_horizontal_def bind_eq_Some_conv split: if_splits)
  moreover have "\<not> on_row L (buf_axes b) y (j div 2)" if "inside b j i" for j i
  proof
    assume "on_row L (buf_axes b) y (j div 2)"
    then obtain j' where "y_to_j L (buf_axes b) y = Some j'" "0 \<le> j'" "j' div 2 = j div 2"
      "ax_min (ax_y (buf_axes b)) \<le> y" "y \<le> ax_max (ax_y (buf_axes b))" by (auto simp: on_row_def)
    moreover have "j' < buf_height b"
      using \<open>j' div 2 = j div 2\<close> that assms(4) by (simp add: inside_def) presburger
    ultimately show False using False assms(3) by auto
  qed
  ultimately show ?thesis by (simp add: changed_def)
qed

definition draws :: "buffer \<Rightarrow> (byte \<Rightarrow> double \<Rightarrow> buffer \<Rightarrow> buffer option) \<Rightarrow> (double \<Rightarrow> int \<Rightarrow> int \<Rightarrow> bool) \<Rightarrow> bool" where
  "draws b line C \<longleftrightarrow> (\<forall>v x b1 b2. same_shape b b1 \<longrightarrow> line v x b1 = Some b2 \<longrightarrow> drawn v (C x) b1 b2)"

definition shows_grid :: "buffer \<Rightarrow> byte \<Rightarrow> double list \<Rightarrow> double \<Rightarrow> (double \<Rightarrow> int \<Rightarrow> int \<Rightarrow> bool) \<Rightarrow> buffer \<Rightarrow> bool" where
  "shows_grid b mark xs origin C b' \<longleftrightarrow> same_shape b b' \<and> (\<forall>j i. inside b j i \<longrightarrow>
     pix b' j i = pix b j i OR (if \<exists>x \<in> set xs. C x j i then mark else 0) OR (if C origin j i then 32 else 0))"

lemma vertical_draws: "buffer_ok b \<Longrightarrow> draws b (plot_line_vertical L) (\<lambda>x j. on_column L (buf_axes b) x)"
  unfolding draws_def
proof (intro allI impI)
  fix v x b1 b2
  assume "buffer_ok b" and s: "same_shape b b1" and l: "plot_line_vertical L v x b1 = Some b2"
  then have "buffer_ok b1" "buf_axes b1 = buf_axes b" using same_shape_ok[OF s] s by (simp_all add: same_shape_def)
  then show "drawn v (\<lambda>j. on_column L (buf_axes b) x) b1 b2"
    using plot_line_vertical_drawn[OF _ l] by simp
qed

lemma horizontal_draws:
  assumes "buffer_ok b" "buf_height b \<le> buf_width b" "even (buf_height b)"
  shows "draws b (plot_line_horizontal L) (\<lambda>y j i. on_row L (buf_axes b) y (j div 2))"
  unfolding draws_def
proof (intro allI impI)
  fix v y b1 b2
  assume s: "same_shape b b1" and l: "plot_line_horizontal L v y b1 = Some b2"
  have "buffer_ok b1" "buf_height b1 \<le> buf_width b1" "even (buf_height b1)" "buf_axes b1 = buf_axes b"
    using s assms same_shape_ok[OF s] by (simp_all add: same_shape_def)
  then show "drawn v (\<lambda>j i. on_row L (buf_axes b) y (j div 2)) b1 b2"
    using plot_line_horizontal_drawn[OF _ l] by simp
qed

lemma points_shown:
  assumes "buffer_ok b" "draws b line C" "each (line mark) xs b = Some bm" "line 32 x0 bm = Some b'"
  shows "shows_grid b mark xs x0 C b'"
proof -
  have 1: "drawn mark (\<lambda>j i. \<exists>x \<in> set xs. C x j i) b bm"
    by (rule each_changed[OF repeatable_draw(1) assms(3,1)]) (use assms(2) in \<open>auto simp: draws_def\<close>)
  then have 2: "drawn 32 (C x0) bm b'" using assms(2,4) changed_shape[OF 1] by (auto simp: draws_def)
  show ?thesis
    using 1 2 same_shape_trans[OF changed_shape[OF 1] changed_shape[OF 2]] same_shape_inside[OF changed_shape[OF 1]]
    by (simp add: shows_grid_def changed_def or.assoc)
qed

lemma linear_grid_shown:
  assumes "buffer_ok b" "draws b line C" "plot_grid_linear line mark a b = Some b'" "ax_type a \<noteq> LOGARITHMIC"
  shows "\<exists>xs. grid_lines mark a = Some (map (Pair mark) xs @ [(32, ax_origin a)]) \<and> shows_grid b mark xs (ax_origin a) C b'"
proof -
  obtain lowest bm where l: "while_loop (\<lambda>x. ax_min a < x) (\<lambda>x. x - ax_grid a) (ax_origin a) = Some lowest"
      "for_loop (\<lambda>x. x \<le> ax_max a) (\<lambda>x. x + ax_grid a) (line mark) lowest b = Some bm" "line 32 (ax_origin a) bm = Some b'"
    using assms(3) by (auto simp: plot_grid_linear_def bind_eq_Some_conv)
  obtain xs where "loop_points (\<lambda>x. x \<le> ax_max a) (\<lambda>x. x + ax_grid a) lowest = Some xs" "each (line mark) xs b = Some bm"
    using for_loop_points[OF l(2)] by blast
  moreover from this have "for_loop (\<lambda>x. x \<le> ax_max a) (\<lambda>x. x + ax_grid a) (note_line mark) lowest [] = Some (map (Pair mark) xs)"
    using for_loop_each[of _ _ lowest xs "note_line mark" "[]"] by (simp add: each_note)
  ultimately show ?thesis
    using points_shown[OF assms(1,2) _ l(3)] l(1) assms(4)
    by (auto simp: grid_lines_def plot_grid_linear_def note_line_def split: axis_type.splits)
qed

lemma logarithmic_grid_shown:
  assumes "buffer_ok b" "draws b line C" "plot_grid_logarithmic line mark a b = Some b'" "ax_type a = LOGARITHMIC"
  shows "\<exists>xs. grid_lines mark a = Some (map (Pair mark) xs @ [(32, ax_origin a)]) \<and> shows_grid b mark xs (ax_origin a) C b'"
proof (cases "lit 1 < ax_grid a")
  case True
  then obtain lowest bm where l: "while_loop (\<lambda>x. ax_min a < x) (\<lambda>x. x / ax_grid a) (ax_origin a) = Some lowest"
      "for_loop (\<lambda>x. x \<le> ax_max a) (\<lambda>x. x * ax_grid a) (line mark) lowest b = Some bm" "line 32 (ax_origin a) bm = Some b'"
    using assms(3) by (auto simp: plot_grid_logarithmic_def bind_eq_Some_conv)
  obtain xs where "loop_points (\<lambda>x. x \<le> ax_max a) (\<lambda>x. x * ax_grid a) lowest = Some xs" "each (line mark) xs b = Some bm"
    using for_loop_points[OF l(2)] by blast
  moreover from this have "for_loop (\<lambda>x. x \<le> ax_max a) (\<lambda>x. x * ax_grid a) (note_line mark) lowest [] = Some (map (Pair mark) xs)"
    using for_loop_each[of _ _ lowest xs "note_line mark" "[]"] by (simp add: each_note)
  ultimately show ?thesis
    using points_shown[OF assms(1,2) _ l(3)] l(1) assms(4) True
    by (auto simp: grid_lines_def plot_grid_logarithmic_def note_line_def)
next
  case False
  then have "line 32 (ax_origin a) b = Some b'" using assms(3) by (simp add: plot_grid_logarithmic_def)
  then show ?thesis
    using points_shown[OF assms(1,2), of mark "[]" b] assms(4) False
    by (intro exI[of _ "[]"]) (simp add: grid_lines_def plot_grid_logarithmic_def note_line_def)
qed

definition column_mark :: "axes \<Rightarrow> byte" where
  "column_mark a = (case ax_type (ax_x a) of LOGARITHMIC \<Rightarrow> 16 | _ \<Rightarrow> 8)"

lemma vertical_grid_shown:
  assumes "buffer_ok b" "plot_grid_vertical L b = Some b'"
  shows "\<exists>xs. grid_lines (column_mark (buf_axes b)) (ax_x (buf_axes b)) =
      Some (map (Pair (column_mark (buf_axes b))) xs @ [(32, ax_origin (ax_x (buf_axes b)))]) \<and>
    shows_grid b (column_mark (buf_axes b)) xs (ax_origin (ax_x (buf_axes b))) (\<lambda>x j. on_column L (buf_axes b) x) b'"
  using linear_grid_shown[OF assms(1) vertical_draws[OF assms(1)]] logarithmic_grid_shown[OF assms(1) vertical_draws[OF assms(1)]] assms(2)
  by (cases "ax_type (ax_x (buf_axes b))") (simp_all add: plot_grid_vertical_def column_mark_def)

lemma horizontal_grid_shown:
  assumes "buffer_ok b" "buf_height b \<le> buf_width b" "even (buf_height b)" "plot_grid_horizontal L b = Some b'"
  shows "\<exists>ys. grid_lines 16 (ax_y (buf_axes b)) = Some (map (Pair 16) ys @ [(32, ax_origin (ax_y (buf_axes b)))]) \<and>
    shows_grid b 16 ys (ax_origin (ax_y (buf_axes b))) (\<lambda>y j i. on_row L (buf_axes b) y (j div 2)) b'"
  using linear_grid_shown[OF assms(1) horizontal_draws[OF assms(1-3)]]
    logarithmic_grid_shown[OF assms(1) horizontal_draws[OF assms(1-3)]] assms(4)
  by (cases "ax_type (ax_y (buf_axes b))") (simp_all add: plot_grid_horizontal_def)

section \<open>A fresh buffer\<close>

text \<open>The cell shown where the lines of the grids cross, given which lines go through it.\<close>

definition lattice_cell :: "axis_type \<Rightarrow> bool \<Rightarrow> bool \<Rightarrow> bool \<Rightarrow> cell" where
  "lattice_cell t vertical horizontal origin =
     \<lparr>cell_glyph =
        (if t = LOGARITHMIC then (if vertical \<or> horizontal then Horizontal_bar else Blank)
         else if vertical \<and> horizontal then Cross
         else if vertical then Vertical_bar
         else if horizontal then Horizontal_bar else Blank),
      cell_pair = (if vertical \<or> horizontal \<or> origin then 64 else 0),
      cell_emphasis = (if origin then Bold else if vertical \<or> horizontal then Dim else Plain)\<rparr>"

lemma show_lattice:
  assumes "p = (if V then column_mark a else 0) OR (if V0 then 32 else 0) OR (if H then 16 else 0) OR (if H0 then 32 else 0)"
  shows "show_cell p p = lattice_cell (ax_type (ax_x a)) V H (V0 \<or> H0)"
  unfolding assms column_mark_def
  by (cases V; cases H; cases V0; cases H0; cases "ax_type (ax_x a)")
    (simp_all add: show_cell_def get_character_def lattice_cell_def)

lemma narrow16_small: "0 \<le> n \<Longrightarrow> n < 32768 \<Longrightarrow> narrow16 n = n"
  by (simp add: narrow16_def int_word_sint)

definition blank_buffer :: "libm \<Rightarrow> int \<Rightarrow> int \<Rightarrow> axes \<Rightarrow> buffer" where
  "blank_buffer L plot_width plot_height a =
     \<lparr>buf_axes = \<lparr>ax_x = adjust_axis L (ax_x a) (plot_width + 1), ax_y = adjust_axis L (ax_y a) (2 * plot_height + 2)\<rparr>,
      buf_width = plot_width + 1, buf_height = 2 * plot_height + 2,
      buf_pixels = replicate (nat ((plot_width + 1) * (2 * plot_height + 2))) 0\<rparr>"

lemma mk_buffer_small:
  assumes "0 \<le> plot_width" "plot_width < 32767" "0 \<le> plot_height" "plot_height < 16383"
  shows "mk_buffer L plot_width plot_height a =
    (if plot_width < 2 * plot_height + 1 then None
     else Option.bind (plot_grid_vertical L (blank_buffer L plot_width plot_height a)) (plot_grid_horizontal L))"
  using assms by (simp add: mk_buffer_def narrow16_small Let_def blank_buffer_def)

lemma blank_buffer_ok: "buffer_ok (blank_buffer L plot_width plot_height a)"
  by (simp add: blank_buffer_def buffer_ok_def)

lemma blank_pix: "inside (blank_buffer L plot_width plot_height a) j i \<Longrightarrow> pix (blank_buffer L plot_width plot_height a) j i = 0"
  using inside_index(3)[OF blank_buffer_ok] unfolding pix_def by (fastforce simp: blank_buffer_def)

lemma each_collect:
  assumes "\<And>x out. x \<in> set xs \<Longrightarrow> f x out = Some (out @ g x)"
  shows "each f xs out = Some (out @ concat (map g xs))"
  using assms by (induction xs arbitrary: out) simp_all

lemma even_rows: "filter even [0..2 * n + 1] = map (\<lambda>r. 2 * r) [0..n]"
proof (cases "0 \<le> n")
  case True
  then show ?thesis
  proof (induction n rule: int_ge_induct)
    case base
    show ?case by (simp add: upto.simps)
  next
    case (step i)
    have "[0..2 * (i + 1) + 1] = [0..2 * i + 1] @ [2 * i + 2, 2 * i + 3]"
      using step.hyps upto_split1[of 0 "2 * i + 2" "2 * i + 3"] by (simp add: upto_rec2)
    moreover have "[0..i + 1] = [0..i] @ [i + 1]" using step.hyps by (simp add: upto_rec2)
    ultimately show ?case using step.IH by simp
  qed
qed simp

lemma buffer_cells_all:
  assumes "buffer_ok b" "buf_height b = 2 * n + 2" "buf_width b = m + 1"
    and "\<And>r i. 0 \<le> r \<Longrightarrow> r \<le> n \<Longrightarrow> 0 \<le> i \<Longrightarrow> i \<le> m \<Longrightarrow> show_cell (pix b (2 * r) i) (pix b (2 * r + 1) i) = c r i"
  shows "buffer_cells b = Some (concat (map (\<lambda>r. map (\<lambda>i. Put_cell r i (c r i)) [0..m]) [0..n]))"
proof -
  have cell: "show_at b (2 * r) i = Some (Put_cell r i (c r i))" if "0 \<le> r" "r \<le> n" "0 \<le> i" "i \<le> m" for r i
  proof -
    have "inside b (2 * r) i" "inside b (2 * r + 1) i" using that assms(2,3) by (simp_all add: inside_def)
    then show ?thesis using assms(4)[OF that] by (simp add: show_at_def read_pixel_inside[OF assms(1)])
  qed
  have row: "each (\<lambda>i out. Option.bind (show_at b (2 * r) i) (\<lambda>c. Some (out @ [c]))) [0..m] out =
      Some (out @ map (\<lambda>i. Put_cell r i (c r i)) [0..m])" if "0 \<le> r" "r \<le> n" for r out
    using each_collect[of "[0..m]" "\<lambda>i out. Option.bind (show_at b (2 * r) i) (\<lambda>c. Some (out @ [c]))" "\<lambda>i. [Put_cell r i (c r i)]" out]
    by (simp add: cell that concat_map_singleton)
  have "buffer_cells b = each (\<lambda>j. each (\<lambda>i out. Option.bind (show_at b j i) (\<lambda>c. Some (out @ [c]))) [0..m])
      (map (\<lambda>r. 2 * r) [0..n]) []"
    using even_rows[of n] by (simp add: buffer_cells_def assms(2,3) add.commute)
  also have "\<dots> = Some ([] @ concat (map (\<lambda>j. map (\<lambda>i. Put_cell (j div 2) i (c (j div 2) i)) [0..m]) (map (\<lambda>r. 2 * r) [0..n])))"
    by (rule each_collect) (auto simp: row)
  finally show ?thesis by (simp add: comp_def)
qed

lemma on_screen_snoc:
  "on_screen cols (ws @ [w]) r i = (case covers cols r i w of None \<Rightarrow> on_screen cols ws r i | Some x \<Rightarrow> Some x)"
  by (simp add: on_screen_def split: option.split)

lemma on_screen_agree:
  assumes "\<And>w y. w \<in> set ws \<Longrightarrow> covers cols r i w = Some y \<Longrightarrow> y = x" "\<exists>w \<in> set ws. covers cols r i w \<noteq> None"
  shows "on_screen cols ws r i = Some x"
  using assms
proof (induction ws rule: rev_induct)
  case (snoc w ws)
  then show ?case by (cases "covers cols r i w") (auto simp: on_screen_snoc)
qed simp

lemma cells_on_screen:
  assumes "0 \<le> r" "r \<le> n" "0 \<le> i" "i \<le> m"
  shows "on_screen cols (concat (map (\<lambda>r. map (\<lambda>i. Put_cell r i (c r i)) [0..m]) [0..n]) @ [Print 0 0 s]) r i =
    Some (if r * cols + i < int (length s) \<and> 0 \<le> r * cols + i then Letter (s ! nat (r * cols + i)) else Cell (c r i))"
proof -
  have "on_screen cols (concat (map (\<lambda>r. map (\<lambda>i. Put_cell r i (c r i)) [0..m]) [0..n])) r i = Some (Cell (c r i))"
    by (rule on_screen_agree) (use assms in \<open>auto split: if_splits\<close>)
  then show ?thesis by (simp add: on_screen_snoc Let_def)
qed

text \<open>
  C30: The buffer that the constructor makes is a lattice: the terminal shows in every cell that
  the printed header does not cover exactly the lines of the two grids and of the two origins
  that go through it, as a bar or a cross, in bold on an origin. Where the x axis is logarithmic
  its vertical lines look horizontal, and an origin that is on no line of its grid is a blank.
  The header covers the first cells, row by row.
\<close>

theorem buffer_lattice:
  assumes "0 \<le> plot_width" "plot_width < 32767" "0 \<le> plot_height" "plot_height < 16383"
    and "mk_buffer L plot_width plot_height a = Some b" "show_header tz (buf_axes b) = Some header"
  shows "\<exists>xs ys ws. buffer_show tz b = Some ws \<and>
    grid_lines (column_mark (buf_axes b)) (ax_x (buf_axes b)) =
      Some (map (Pair (column_mark (buf_axes b))) xs @ [(32, ax_origin (ax_x a))]) \<and>
    grid_lines 16 (ax_y (buf_axes b)) = Some (map (Pair 16) ys @ [(32, ax_origin (ax_y a))]) \<and>
    (\<forall>r \<in> {0..plot_height}. \<forall>i \<in> {0..plot_width}. \<forall>cols > i. on_screen cols ws r i = Some
      (if r * cols + i < int (length header) then Letter (header ! nat (r * cols + i))
       else Cell (lattice_cell (ax_type (ax_x a)) (\<exists>x \<in> set xs. on_column L (buf_axes b) x i) (\<exists>y \<in> set ys. on_row L (buf_axes b) y r)
         (on_column L (buf_axes b) (ax_origin (ax_x a)) i \<or> on_row L (buf_axes b) (ax_origin (ax_y a)) r))))"
proof -
  let ?b = "blank_buffer L plot_width plot_height a"
  obtain bm where fits: "2 * plot_height + 1 \<le> plot_width" and bm: "plot_grid_vertical L ?b = Some bm" "plot_grid_horizontal L bm = Some b"
    using assms(5) unfolding mk_buffer_small[OF assms(1-4)] by (auto simp: bind_eq_Some_conv split: if_splits)
  obtain xs where xs: "grid_lines (column_mark (buf_axes ?b)) (ax_x (buf_axes ?b)) =
        Some (map (Pair (column_mark (buf_axes ?b))) xs @ [(32, ax_origin (ax_x (buf_axes ?b)))])" and
      v: "shows_grid ?b (column_mark (buf_axes ?b)) xs (ax_origin (ax_x (buf_axes ?b))) (\<lambda>x j. on_column L (buf_axes ?b) x) bm"
    using vertical_grid_shown[OF blank_buffer_ok bm(1)] by blast
  have sm: "same_shape ?b bm" using v by (simp add: shows_grid_def)
  have "buffer_ok bm" "buf_height bm \<le> buf_width bm" "even (buf_height bm)"
    using same_shape_ok[OF sm] blank_buffer_ok sm fits by (simp_all add: same_shape_def blank_buffer_def)
  then obtain ys where ys: "grid_lines 16 (ax_y (buf_axes bm)) = Some (map (Pair 16) ys @ [(32, ax_origin (ax_y (buf_axes bm)))])" and
      h: "shows_grid bm 16 ys (ax_origin (ax_y (buf_axes bm))) (\<lambda>y j i. on_row L (buf_axes bm) y (j div 2)) b"
    using horizontal_grid_shown[OF _ _ _ bm(2)] by blast
  have s: "same_shape ?b b" using same_shape_trans[OF sm] h by (simp add: shows_grid_def)
  have axes: "buf_axes bm = buf_axes b" "buf_axes ?b = buf_axes b" using s sm by (simp_all add: same_shape_def)
  have types: "ax_type (ax_x (buf_axes b)) = ax_type (ax_x a)" "ax_origin (ax_x (buf_axes b)) = ax_origin (ax_x a)"
      "ax_origin (ax_y (buf_axes b)) = ax_origin (ax_y a)"
    unfolding axes(2)[symmetric]
    by (simp_all add: blank_buffer_def adjust_axis_def Let_def split: axis_type.splits)
  have p: "pix b j i = (if \<exists>x \<in> set xs. on_column L (buf_axes b) x i then column_mark (buf_axes b) else 0) OR
      (if on_column L (buf_axes b) (ax_origin (ax_x a)) i then 32 else 0) OR
      (if \<exists>y \<in> set ys. on_row L (buf_axes b) y (j div 2) then 16 else 0) OR
      (if on_row L (buf_axes b) (ax_origin (ax_y a)) (j div 2) then 32 else 0)" if "inside ?b j i" for j i
    using v h that same_shape_inside[OF sm] unfolding shows_grid_def axes types
    by (simp add: blank_pix or.assoc)
  let ?c = "\<lambda>r i. lattice_cell (ax_type (ax_x (buf_axes b))) (\<exists>x \<in> set xs. on_column L (buf_axes b) x i)
    (\<exists>y \<in> set ys. on_row L (buf_axes b) y r)
    (on_column L (buf_axes b) (ax_origin (ax_x a)) i \<or> on_row L (buf_axes b) (ax_origin (ax_y a)) r)"
  let ?ws = "concat (map (\<lambda>r. map (\<lambda>i. Put_cell r i (?c r i)) [0..plot_width]) [0..plot_height])"
  have "buffer_cells b = Some ?ws"
  proof (rule buffer_cells_all)
    show "buffer_ok b" using same_shape_ok[OF s] blank_buffer_ok by simp
    show "buf_height b = 2 * plot_height + 2" "buf_width b = plot_width + 1"
      using s by (simp_all add: same_shape_def blank_buffer_def)
    fix r i assume "0 \<le> r" "r \<le> plot_height" "0 \<le> i" "i \<le> plot_width"
    then have "inside ?b (2 * r) i" "inside ?b (2 * r + 1) i" by (simp_all add: inside_def blank_buffer_def)
    from p[OF this(1)] p[OF this(2)]
    show "show_cell (pix b (2 * r) i) (pix b (2 * r + 1) i) =
        lattice_cell (ax_type (ax_x (buf_axes b))) (\<exists>x \<in> set xs. on_column L (buf_axes b) x i) (\<exists>y \<in> set ys. on_row L (buf_axes b) y r)
          (on_column L (buf_axes b) (ax_origin (ax_x a)) i \<or> on_row L (buf_axes b) (ax_origin (ax_y a)) r)"
      by (simp add: show_lattice[of _ _ "buf_axes b"])
  qed
  then have written: "buffer_show tz b = Some (?ws @ [Print 0 0 header])" by (simp add: buffer_show_def assms(6))
  have "\<forall>r \<in> {0..plot_height}. \<forall>i \<in> {0..plot_width}. \<forall>cols > i. on_screen cols (?ws @ [Print 0 0 header]) r i =
      Some (if r * cols + i < int (length header) then Letter (header ! nat (r * cols + i)) else Cell (?c r i))"
  proof (intro ballI allI impI)
    fix r i cols assume h: "r \<in> {0..plot_height}" "i \<in> {0..plot_width}" "i < cols"
    then have "0 \<le> r * cols + i" by simp
    then show "on_screen cols (?ws @ [Print 0 0 header]) r i =
      Some (if r * cols + i < int (length header) then Letter (header ! nat (r * cols + i)) else Cell (?c r i))"
      using cells_on_screen[of r plot_height i plot_width cols ?c header] h by simp
  qed
  with written xs ys show ?thesis unfolding axes types by blast
qed

text \<open>
  Without grids and origins the constructor has a defined behaviour exactly when the
  terminal is wide enough for its height, and with them only then: the array of row pointers
  is allocated with one entry per column, so on a terminal with more than half as many rows as
  columns the rows are written beyond its end.
\<close>

theorem buffer_needs_width:
  assumes "0 \<le> plot_width" "plot_width < 32767" "0 \<le> plot_height" "plot_height < 16383"
  shows "(mk_buffer L plot_width plot_height a \<noteq> None \<longrightarrow> 2 * plot_height + 2 \<le> plot_width + 1) \<and>
    (isnan (ax_origin (ax_x a)) \<and> isnan (ax_origin (ax_y a)) \<and> ax_type (ax_x a) \<noteq> LOGARITHMIC \<and> ax_type (ax_y a) \<noteq> LOGARITHMIC \<longrightarrow>
      (mk_buffer L plot_width plot_height a \<noteq> None) = (2 * plot_height + 2 \<le> plot_width + 1))"
proof -
  have 1: "mk_buffer L plot_width plot_height a = None" if "plot_width < 2 * plot_height + 1"
    using that by (simp add: mk_buffer_small[OF assms])
  have grid: "plot_grid_linear line mark x b = line 32 (ax_origin x) b" if "isnan (ax_origin x)" for line mark x and b :: buffer
    using that unfolding plot_grid_linear_def by (subst while_loop.simps) (simp, subst for_loop.simps, simp)
  have "mk_buffer L plot_width plot_height a \<noteq> None"
    if n: "isnan (ax_origin (ax_x a))" "isnan (ax_origin (ax_y a))" "ax_type (ax_x a) \<noteq> LOGARITHMIC" "ax_type (ax_y a) \<noteq> LOGARITHMIC"
      and "2 * plot_height + 2 \<le> plot_width + 1"
  proof -
    have o: "ax_origin (adjust_axis L x n) = ax_origin x" "ax_type (adjust_axis L x n) = ax_type x" for x n
      by (simp_all add: adjust_axis_def Let_def split: axis_type.splits)
    have "plot_grid_vertical L b = Some b" if "ax_x (buf_axes b) = adjust_axis L (ax_x a) m" for b m
      using that n(1,3) by (cases "ax_type (ax_x a)") (simp_all add: plot_grid_vertical_def grid plot_line_vertical_def o)
    moreover have "plot_grid_horizontal L b = Some b" if "ax_y (buf_axes b) = adjust_axis L (ax_y a) m" for b m
      using that n(2,4) by (cases "ax_type (ax_y a)") (simp_all add: plot_grid_horizontal_def grid plot_line_horizontal_def o)
    ultimately show ?thesis
      using that(5) by (simp add: mk_buffer_small[OF assms] blank_buffer_def)
  qed
  then show ?thesis using 1 by fastforce
qed

section \<open>The grid ends\<close>

lemma double_le_trans: "(x :: double) \<le> y \<Longrightarrow> y \<le> z \<Longrightarrow> x \<le> z"
  by (auto simp: less_eq_double_def)

lemma le_not_nan: "(x :: double) \<le> y \<Longrightarrow> \<not> isnan x \<and> \<not> isnan y"
  by (auto simp: less_eq_double_def)

lemma within_bound:
  assumes "isfinite B" "- B \<le> x" "x \<le> B"
  shows "isfinite x" and "ulp x \<le> ulp B"
proof -
  have n: "\<not> isnan x" "\<not> isnan B" using le_not_nan assms by blast+
  have "- d_key B \<le> d_key x" "d_key x \<le> d_key B" using assms(2,3) n by (simp_all add: le_key)
  then have k: "\<bar>d_key x\<bar> \<le> \<bar>d_key B\<bar>" by linarith
  then show "ulp x \<le> ulp B" by (rule ulp_mono)
  have "d_mag x \<le> d_mag B" using k by (simp add: d_key_def split: if_splits)
  then show "isfinite x" using assms(1) by (simp add: isfinite_def)
qed

lemma le_of_not_less: "isfinite x \<Longrightarrow> isfinite y \<Longrightarrow> \<not> y < x \<Longrightarrow> x \<le> y"
  by (simp add: d_le_not_less isfinite_not)

lemma while_loop_down:
  assumes "isfinite B" "isfinite g" "ulp B \<le> d_val g" "isfinite m" "- B \<le> m - g"
    and "- B \<le> x" "x \<le> B"
  shows "\<exists>y. while_loop (\<lambda>x. m < x) (\<lambda>x. x - g) x = Some y \<and> \<not> m < y \<and> - B \<le> y \<and> (y = x \<or> m - g \<le> y)"
  using assms(6,7)
proof (induction "nat (d_key x - d_key m)" arbitrary: x rule: less_induct)
  case less
  note x = within_bound[OF assms(1) less.prems]
  show ?case
  proof (cases "m < x")
    case True
    have down: "x - g < x" using minus_ulp_less[OF x(1) assms(2)] x(2) assms(3) by linarith
    have "m \<le> x" using True by (simp add: less_key le_key isfinite_not x assms)
    then have above: "m - g \<le> x - g" using plus_mono[of m x "- g"] x(1) assms by (simp add: minus_double_def)
    have "- B \<le> x - g" using double_le_trans[OF assms(5) above] .
    moreover have "x - g \<le> B"
      using down less.prems(2) le_not_nan[OF above] le_not_nan[OF less.prems(2)] by (simp add: less_key le_key)
    moreover have "nat (d_key (x - g) - d_key m) < nat (d_key x - d_key m)"
      using down True le_not_nan[OF above] isfinite_not x(1) assms(4) by (simp add: less_key)
    ultimately obtain y where "while_loop (\<lambda>x. m < x) (\<lambda>x. x - g) (x - g) = Some y" "\<not> m < y" "- B \<le> y"
        "y = x - g \<or> m - g \<le> y"
      using less.hyps by blast
    then show ?thesis using True above by (subst while_loop.simps) auto
  next
    case False
    then show ?thesis using less.prems(1) by (subst while_loop.simps) auto
  qed
qed

text \<open>The points that successive additions give from \<open>x\<close> as far as \<open>m\<close>.\<close>

definition grid_steps :: "double \<Rightarrow> double \<Rightarrow> double \<Rightarrow> double list \<Rightarrow> bool" where
  "grid_steps m g x xs \<longleftrightarrow> sorted_wrt (<) xs \<and> list_all (\<lambda>y. x \<le> y \<and> y \<le> m) xs \<and> successively (\<lambda>x y. y = x + g) xs \<and>
     (if x \<le> m then xs \<noteq> [] \<and> hd xs = x \<and> \<not> last xs + g \<le> m else xs = [])"

lemma double_less_le: "(x :: double) < y \<Longrightarrow> x \<le> y"
  by (auto simp: less_eq_double_def less_double_def)

lemma double_less_le_trans: "(x :: double) < y \<Longrightarrow> y \<le> z \<Longrightarrow> x < z"
  by (auto simp: less_eq_double_def less_double_def)

lemma grid_steps_Cons:
  assumes "x \<le> m" "x < x + g" "grid_steps m g (x + g) xs"
  shows "grid_steps m g x (x # xs)"
proof -
  have above: "x < y \<and> x \<le> y \<and> y \<le> m" if "y \<in> set xs" for y
  proof -
    have y: "x + g \<le> y" "y \<le> m" using that assms(3) unfolding grid_steps_def list_all_iff by blast+
    have "x < y" using assms(2) y(1) by (rule double_less_le_trans)
    then show ?thesis using y(2) double_less_le by blast
  qed
  have "x \<le> x" using le_not_nan[OF assms(1)] by (simp add: le_key)
  moreover have s: "(x + g \<le> m \<and> xs \<noteq> [] \<and> hd xs = x + g \<and> \<not> last xs + g \<le> m) \<or> (\<not> x + g \<le> m \<and> xs = [])"
    "sorted_wrt (<) xs" "successively (\<lambda>x y. y = x + g) xs"
    using assms(3) unfolding grid_steps_def by (meson, blast+)
  ultimately have rest: "xs = [] \<and> \<not> x + g \<le> m \<or> xs \<noteq> [] \<and> hd xs = x + g \<and> \<not> last xs + g \<le> m"
    and w: "sorted_wrt (<) (x # xs)" "list_all (\<lambda>y. x \<le> y \<and> y \<le> m) (x # xs)" "x \<le> x"
    using assms(1) above by (blast, auto simp only: sorted_wrt.simps list_all_iff list.set insert_iff)
  have "successively (\<lambda>x y. y = x + g) (x # xs)"
    using rest \<open>successively (\<lambda>x y. y = x + g) xs\<close> by (cases xs) (simp_all only: successively.simps list.sel list.distinct simp_thms)
  moreover have "\<not> last (x # xs) + g \<le> m"
    using rest by (cases "xs = []") (simp_all only: last.simps simp_thms if_True if_False)
  ultimately show ?thesis
    unfolding grid_steps_def using assms(1) w by (simp only: list.distinct list.sel if_True simp_thms)
qed

lemma loop_points_up:
  assumes "isfinite B" "isfinite g" "ulp B \<le> d_val g" "m \<le> B" "- B \<le> x"
  shows "\<exists>xs. loop_points (\<lambda>x. x \<le> m) (\<lambda>x. x + g) x = Some xs \<and> grid_steps m g x xs"
  using assms(5)
proof (induction "nat (d_key m + 1 - d_key x)" arbitrary: x rule: less_induct)
  case less
  show ?case
  proof (cases "x \<le> m")
    case True
    note x = within_bound[OF assms(1) less.prems double_le_trans[OF True assms(4)]]
    have up: "x < x + g" using less_plus_ulp[OF x(1) assms(2)] x(2) assms(3) by linarith
    have nn: "\<not> isnan x" "\<not> isnan (x + g)" "\<not> isnan m" using d_less_not_nan[OF up] le_not_nan[OF True] by simp_all
    have "- B \<le> x + g" using double_le_trans[OF less.prems double_less_le[OF up]] .
    moreover have "nat (d_key m + 1 - d_key (x + g)) < nat (d_key m + 1 - d_key x)"
      using up True nn by (simp add: less_key le_key)
    ultimately obtain xs where xs: "loop_points (\<lambda>x. x \<le> m) (\<lambda>x. x + g) (x + g) = Some xs" "grid_steps m g (x + g) xs"
      using less.hyps by blast
    have "loop_points (\<lambda>x. x \<le> m) (\<lambda>x. x + g) x = Some (x # xs)"
      using True xs(1) by (subst loop_points.simps) simp
    then show ?thesis using grid_steps_Cons[OF True up xs(2)] by blast
  next
    case False
    then show ?thesis by (intro exI[of _ "[]"]) (subst loop_points.simps, simp add: grid_steps_def)
  qed
qed

text \<open>
  C31: The loops that draw a linear grid end, whenever the spacing of doubles at a bound \<open>B\<close> of
  all values on the axis is at most the step of the grid. Drawing the grid is then drawing a
  line at each of the points that successive additions of the step give, upwards from a first
  one that is not above the minimum (the origin, or a point less than a step below the minimum),
  as far as the maximum, and then the line of the origin.
\<close>

theorem grid_ends:
  assumes "ax_type a \<noteq> LOGARITHMIC" "isfinite (ax_min a)" "isfinite (ax_grid a)" "isfinite B" "ulp B \<le> d_val (ax_grid a)"
    and "- B \<le> ax_min a - ax_grid a" "- B \<le> ax_origin a" "ax_origin a \<le> B" "ax_max a \<le> B"
  shows "\<exists>lowest xs. \<not> ax_min a < lowest \<and> (lowest = ax_origin a \<or> ax_min a - ax_grid a \<le> lowest) \<and>
    grid_steps (ax_max a) (ax_grid a) lowest xs \<and>
    (\<forall>b. ax_x (buf_axes b) = a \<longrightarrow> plot_grid_vertical L b =
      Option.bind (each (plot_line_vertical L 8) xs b) (plot_line_vertical L 32 (ax_origin a))) \<and>
    (\<forall>b. ax_y (buf_axes b) = a \<longrightarrow> plot_grid_horizontal L b =
      Option.bind (each (plot_line_horizontal L 16) xs b) (plot_line_horizontal L 32 (ax_origin a)))"
proof -
  obtain lowest where l: "while_loop (\<lambda>x. ax_min a < x) (\<lambda>x. x - ax_grid a) (ax_origin a) = Some lowest"
      "\<not> ax_min a < lowest" "- B \<le> lowest" "lowest = ax_origin a \<or> ax_min a - ax_grid a \<le> lowest"
    using while_loop_down[OF assms(4,3,5,2,6-8)] by blast
  obtain xs where xs: "loop_points (\<lambda>x. x \<le> ax_max a) (\<lambda>x. x + ax_grid a) lowest = Some xs"
      "grid_steps (ax_max a) (ax_grid a) lowest xs"
    using loop_points_up[OF assms(4,3,5,9) l(3)] by blast
  have "plot_grid_linear line mark a b = Option.bind (each (line mark) xs b) (line 32 (ax_origin a))" for line mark and b :: buffer
    using l(1) by (simp add: plot_grid_linear_def for_loop_each[OF xs(1)])
  then have "ax_x (buf_axes b) = a \<Longrightarrow> plot_grid_vertical L b =
      Option.bind (each (plot_line_vertical L 8) xs b) (plot_line_vertical L 32 (ax_origin a))"
    "ax_y (buf_axes b) = a \<Longrightarrow> plot_grid_horizontal L b =
      Option.bind (each (plot_line_horizontal L 16) xs b) (plot_line_horizontal L 32 (ax_origin a))" for b
    using assms(1) by (auto simp: plot_grid_vertical_def plot_grid_horizontal_def split: axis_type.split)
  then show ?thesis using l(2,4) xs(2) by blast
qed

section \<open>Curves in the buffer\<close>

definition hits :: "libm \<Rightarrow> axes \<Rightarrow> double \<times> double \<Rightarrow> int \<Rightarrow> int \<Rightarrow> bool" where
  "hits L a v j i \<longleftrightarrow> \<not> isnan (snd v) \<and> x_to_i L a (fst v) = Some i \<and> y_to_j L a (snd v) = Some j"

lemma check_ij_inside: "check_ij b i j = inside b j i"
  by (simp add: check_ij_def inside_def)

lemma plot_point_painted:
  assumes "buffer_ok b" "plot_point L c x y b = Some b'"
  shows "painted c (hits L (buf_axes b) (x, y)) b b'"
proof (cases "\<exists>j i. hits L (buf_axes b) (x, y) j i \<and> inside b j i")
  case True
  then obtain j i where h: "hits L (buf_axes b) (x, y) j i" "inside b j i" by blast
  then have "change_pixel (\<lambda>_. color_byte c) j i b = Some b'"
    using assms(2) by (simp add: plot_point_def hits_def check_ij_inside)
  then have "painted c (\<lambda>j' i'. j' = j \<and> i' = i) b b'"
    using change_pixel_Some(2)[OF assms(1)] h(2) by (simp add: inside_def)
  then show ?thesis by (rule changed_cong) (use h in \<open>auto simp: hits_def\<close>)
next
  case False
  then have "b' = b"
    using assms(2) by (auto simp: plot_point_def hits_def check_ij_inside bind_eq_Some_conv split: if_splits)
  then show ?thesis using False by (auto simp: changed_def)
qed

text \<open>Whatever a sequence of points paints, it paints in one colour.\<close>

definition paints :: "plotter_color \<Rightarrow> buffer \<Rightarrow> buffer \<Rightarrow> bool" where
  "paints c b b' \<longleftrightarrow> (\<exists>C. painted c C b b')"

lemma paints_refl [simp]: "paints c b b"
  unfolding paints_def by (rule exI[of _ "\<lambda>j i. False"]) simp

lemma paints_shape: "paints c b b' \<Longrightarrow> same_shape b b'"
  by (auto simp: paints_def changed_shape)

lemma paints_trans: "paints c b b1 \<Longrightarrow> paints c b1 b2 \<Longrightarrow> paints c b b2"
  unfolding paints_def using changed_Un[OF repeatable_draw(2)] by blast

lemma plot_point_paints: "buffer_ok b \<Longrightarrow> plot_point L c x y b = Some b' \<Longrightarrow> paints c b b'"
  unfolding paints_def using plot_point_painted by blast

lemma each_paints:
  assumes "each body xs b = Some b'" "buffer_ok b"
    and "\<And>x b1 b2. buffer_ok b1 \<Longrightarrow> body x b1 = Some b2 \<Longrightarrow> paints c b1 b2"
  shows "paints c b b'"
  using assms(1,2)
proof (induction xs arbitrary: b)
  case (Cons x xs)
  obtain b1 where b1: "body x b = Some b1" "each body xs b1 = Some b'"
    using Cons.prems(1) by (auto simp: bind_eq_Some_conv)
  have d: "paints c b b1" using assms(3)[OF Cons.prems(2) b1(1)] .
  then have "buffer_ok b1" using same_shape_ok[OF paints_shape[OF d]] Cons.prems(2) by simp
  then show ?case using paints_trans[OF d Cons.IH[OF b1(2)]] by simp
qed simp

lemma for_loop_paints:
  assumes "for_loop P nxt body x b = Some b'" "buffer_ok b"
    and "\<And>x b1 b2. buffer_ok b1 \<Longrightarrow> body x b1 = Some b2 \<Longrightarrow> paints c b1 b2"
  shows "paints c b b'"
proof -
  obtain xs where "each body xs b = Some b'" using for_loop_points[OF assms(1)] by blast
  then show ?thesis by (rule each_paints[OF _ assms(2)]) (rule assms(3))
qed

lemma plot_range_paints:
  assumes "plot_range L c x ys b = Some b'" "buffer_ok b"
  shows "paints c b b'"
proof -
  obtain b1 where b1: "for_loop (\<lambda>y. y \<le> snd ys) (\<lambda>y. y + ax_step (ax_y (buf_axes b))) (plot_point L c x) (fst ys) b = Some b1"
      "plot_point L c x (snd ys) b1 = Some b'"
    using assms(1) by (auto simp: plot_range_def bind_eq_Some_conv)
  have p: "paints c b b1" using for_loop_paints[OF b1(1) assms(2)] plot_point_paints by blast
  then have "buffer_ok b1" using same_shape_ok[OF paints_shape[OF p]] assms(2) by simp
  then show ?thesis using paints_trans[OF p] plot_point_paints[OF _ b1(2)] by blast
qed

fun curve_color :: "curve \<Rightarrow> plotter_color" where
  "curve_color (FUNCTION_1 f c) = c"
| "curve_color (FUNCTION_2 f c) = c"
| "curve_color (FUNCTION_3 f c) = c"
| "curve_color (VALUES vs c) = c"

lemma plot_curve_paints:
  assumes "plot_curve L cv b = Some b'" "buffer_ok b"
  shows "paints (curve_color cv) b b'"
  using assms
proof (cases cv)
  case (FUNCTION_1 f c)
  then show ?thesis
    using assms plot_point_paints by (auto simp: plot_f1_def Let_def bind_eq_Some_conv elim!: for_loop_paints)
next
  case (FUNCTION_2 f c)
  then show ?thesis
    using assms plot_point_paints by (auto simp: plot_f2_def Let_def bind_eq_Some_conv elim!: for_loop_paints)
next
  case (FUNCTION_3 f c)
  then show ?thesis
    using assms by (auto simp: plot_f3_def Let_def bind_eq_Some_conv elim!: for_loop_paints intro: plot_range_paints)
next
  case (VALUES vs c)
  then show ?thesis
    using assms plot_point_paints by (auto simp: plot_values_def elim!: each_paints)
qed

text \<open>
  C32: A curve changes nothing but pixels of the buffer, and those to its own colour, whatever
  its points are; and a curve of values colours exactly the pixels that its points convert to,
  the last curve on top, points out of the buffer or without a number being skipped.
\<close>

theorem curve_painted:
  assumes "buffer_ok b" "plot_curve L cv b = Some b'"
  shows "buffer_ok b' \<and> buf_axes b' = buf_axes b \<and>
    (\<forall>j i. inside b j i \<longrightarrow> read_pixel b' j i = read_pixel b j i \<or> read_pixel b' j i = Some (color_byte (curve_color cv))) \<and>
    (\<forall>vs c. cv = VALUES vs c \<longrightarrow> (\<forall>j i. inside b j i \<longrightarrow>
      read_pixel b' j i = (if \<exists>v \<in> set vs. hits L (buf_axes b) v j i then Some (color_byte c) else read_pixel b j i)))"
proof -
  obtain C where C: "painted (curve_color cv) C b b'"
    using plot_curve_paints[OF assms(2,1)] by (auto simp: paints_def)
  note s = changed_shape[OF C]
  have ok: "buffer_ok b'" and ax: "buf_axes b' = buf_axes b" and ins: "inside b' = inside b"
    using same_shape_ok[OF s] assms(1) s same_shape_inside[OF s] by (simp_all add: same_shape_def)
  have rd: "read_pixel b' j i = Some (pix b' j i)" "read_pixel b j i = Some (pix b j i)" if "inside b j i" for j i
    using that read_pixel_inside[OF ok] read_pixel_inside[OF assms(1)] by (simp_all add: ins)
  have "painted c (\<lambda>j i. \<exists>v \<in> set vs. hits L (buf_axes b) v j i) b b'" if "cv = VALUES vs c" for vs c
  proof -
    have "each (\<lambda>v. plot_point L c (fst v) (snd v)) vs b = Some b'" using assms(2) that by (simp add: plot_values_def)
    then show ?thesis
    proof (rule each_changed[OF repeatable_draw(2) _ assms(1)])
      fix v b1 b2
      assume "same_shape b b1" "buffer_ok b1" "plot_point L c (fst v) (snd v) b1 = Some b2"
      then show "painted c (hits L (buf_axes b) v) b1 b2"
        using plot_point_painted[of b1 L c "fst v" "snd v" b2] by (simp add: same_shape_def)
    qed
  qed
  then show ?thesis using ok ax rd C by (auto simp: changed_def)
qed

section \<open>A small plot\<close>

definition demo_libm :: libm where
  "demo_libm = \<lparr>libm_log = (\<lambda>x. x), libm_pow = (\<lambda>x y. x), libm_sqrt = (\<lambda>x. x)\<rparr>"

definition demo_axes :: axes where
  "demo_axes = \<lparr>ax_x = (mk_axis LINEAR)\<lparr>ax_min := 0, ax_max := lit 2, ax_step := lit 2, ax_origin := 0, ax_grid := lit 4\<rparr>,
     ax_y = (mk_axis LINEAR)\<lparr>ax_min := 0, ax_max := lit 1, ax_step := lit 1\<rparr>\<rparr>"

definition demo_buffer :: "byte list \<Rightarrow> buffer" where
  "demo_buffer ps =
     \<lparr>buf_axes = demo_axes, buf_width = 2, buf_height = 2, buf_pixels = ps\<rparr>"

lemma demo_numbers:
  "\<not> isnan 0" "\<not> isnan (lit 2)" "\<not> isnan (lit 1)" "\<not> 0 < (0 :: double)" "0 \<le> (0 :: double)" "0 \<le> lit 2" "\<not> 0 + lit 4 \<le> lit 2"
proof -
  note r = represents_lit[of 1] represents_lit[of 2] represents_lit[of 4]
  have four: "represents (0 + lit 4) 4"
    using represents_plus[OF represents_0 r(3)] representable_int[of 4] by simp
  show "\<not> isnan 0" "\<not> isnan (lit 2)" "\<not> isnan (lit 1)" "\<not> 0 < (0 :: double)" "0 \<le> (0 :: double)" "0 \<le> lit 2" "\<not> 0 + lit 4 \<le> lit 2"
    using represents_finite[OF represents_0] represents_finite[OF r(1)] represents_finite[OF r(2)]
      represents_le[OF represents_0 represents_0] represents_le[OF represents_0 r(2)] represents_le[OF four r(2)] by simp_all
qed

lemma demo_fields:
  "ax_type (ax_x demo_axes) = LINEAR" "ax_min (ax_x demo_axes) = 0" "ax_max (ax_x demo_axes) = lit 2" "ax_step (ax_x demo_axes) = lit 2"
  "ax_origin (ax_x demo_axes) = 0" "ax_grid (ax_x demo_axes) = lit 4"
  "ax_type (ax_y demo_axes) = LINEAR" "ax_min (ax_y demo_axes) = 0" "ax_max (ax_y demo_axes) = lit 1" "ax_step (ax_y demo_axes) = lit 1"
  "ax_origin (ax_y demo_axes) = NAN"
  by (simp_all add: demo_axes_def mk_axis_def)

lemma demo_round: "round_int16 ((0 - 0 + dec 5 1 * lit 2) / lit 2) = Some 1"
proof -
  have one: "representable 1" using representable_int[of 1] by simp
  have zero: "represents (0 - 0) 0"
    using represents_minus[OF represents_0 represents_0] representable_int[of 0] by simp
  have "represents (dec 5 1 * lit 2) 1"
    using represents_times[OF represents_half represents_lit[of 2]] one by simp
  then have "represents (0 - 0 + dec 5 1 * lit 2) 1"
    using represents_plus[OF zero] one by simp
  then have "represents ((0 - 0 + dec 5 1 * lit 2) / lit 2) (1 / 2)"
    using represents_divide[OF _ represents_lit[of 2]] representable_half[of 1] by simp
  then show ?thesis by (rule round_int16_val) simp_all
qed

lemma demo_grid: "grid_lines 8 (ax_x demo_axes) = Some [(8, 0), (32, 0)]" "grid_lines 16 (ax_y demo_axes) = Some [(32, NAN)]"
  unfolding demo_axes_def mk_axis_def
  by (simp_all add: grid_lines_def plot_grid_linear_def note_line_def demo_numbers while_loop.simps for_loop.simps)

lemma demo_column: "x_to_i demo_libm demo_axes 0 = Some 1"
  using demo_round by (simp add: x_to_i_def demo_axes_def mk_axis_def)

definition demo_lattice :: "byte \<Rightarrow> buffer" where
  "demo_lattice p = \<lparr>buf_axes = demo_axes, buf_width = 4, buf_height = 4, buf_pixels = concat (replicate 4 [0, p, 0, 0])\<rparr>"

lemma demo_drawn: "mk_buffer demo_libm 3 1 demo_axes = Some (demo_lattice 40)"
proof -
  have blank: "blank_buffer demo_libm 3 1 demo_axes = demo_lattice 0"
    by (simp add: blank_buffer_def demo_lattice_def demo_axes_def mk_axis_def adjust_axis_def demo_numbers numeral_eq_Suc)
  have four: "[0..3] = [0, 1, 2, 3 :: int]" by (simp add: upto.simps)
  have line: "plot_line_vertical demo_libm v 0 (demo_lattice p) = Some (demo_lattice (p OR v))" for v p
    using demo_column
    by (simp add: plot_line_vertical_def demo_lattice_def demo_fields demo_numbers four change_pixel_def pixel_index_def numeral_eq_Suc)
  have v: "plot_grid_vertical demo_libm (demo_lattice 0) = Some (demo_lattice 40)"
    using line[of 8 0] line[of 32 8]
    by (simp add: plot_grid_vertical_def plot_grid_linear_def while_loop.simps for_loop.simps demo_numbers demo_lattice_def demo_fields)
  have "plot_grid_horizontal demo_libm (demo_lattice p) = Some (demo_lattice p)" for p
    by (simp add: plot_grid_horizontal_def plot_grid_linear_def while_loop.simps for_loop.simps demo_lattice_def demo_fields plot_line_horizontal_def)
  then show ?thesis by (simp add: mk_buffer_small blank v)
qed

lemma demo_header: "show_header utc demo_axes = Some '' [ 0.000000 , 2.000000 ]  ->  [ 0.000000 , 1.000000 ] ''"
  by code_simp

text \<open>On a terminal of 80 columns the header covers the first row, and the line is seen in the second.\<close>

theorem buffer_lattice_witness:
  "\<exists>b ws. mk_buffer demo_libm 3 1 demo_axes = Some b \<and> buffer_show utc b = Some ws \<and>
     on_screen 80 ws 0 1 = Some (Letter CHR ''['') \<and>
     on_screen 80 ws 1 1 = Some (Cell (lattice_cell LINEAR True False True)) \<and>
     on_screen 80 ws 1 2 = Some (Cell (lattice_cell LINEAR False False False))"
proof -
  let ?b = "demo_lattice 40" and ?h = "'' [ 0.000000 , 2.000000 ]  ->  [ 0.000000 , 1.000000 ] ''"
  have axes: "buf_axes ?b = demo_axes" by (simp add: demo_lattice_def)
  have h: "show_header utc (buf_axes ?b) = Some ?h" using demo_header axes by simp
  have mark: "column_mark (buf_axes ?b) = 8" using axes by (simp add: column_mark_def demo_fields)
  obtain xs ys ws where w: "buffer_show utc ?b = Some ws" "grid_lines 8 (ax_x demo_axes) = Some (map (Pair 8) xs @ [(32, 0)])"
    "grid_lines 16 (ax_y demo_axes) = Some (map (Pair 16) ys @ [(32, NAN)])"
    and screen: "\<And>r i. r \<in> {0..1} \<Longrightarrow> i \<in> {0..3} \<Longrightarrow> on_screen 80 ws r i = Some
      (if r * 80 + i < int (length ?h) then Letter (?h ! nat (r * 80 + i))
       else Cell (lattice_cell LINEAR (\<exists>x \<in> set xs. on_column demo_libm demo_axes x i) (\<exists>y \<in> set ys. on_row demo_libm demo_axes y r)
         (on_column demo_libm demo_axes 0 i \<or> on_row demo_libm demo_axes NAN r)))"
  proof -
    have "0 \<le> (3 :: int)" "(3 :: int) < 32767" "0 \<le> (1 :: int)" "(1 :: int) < 16383" by simp_all
    note lattice = buffer_lattice[OF this demo_drawn h, unfolded mark, unfolded axes demo_fields]
    obtain xs ys ws where
      r: "buffer_show utc ?b = Some ws" "grid_lines 8 (ax_x demo_axes) = Some (map (Pair 8) xs @ [(32, 0)])"
        "grid_lines 16 (ax_y demo_axes) = Some (map (Pair 16) ys @ [(32, NAN)])"
      and q: "\<forall>r \<in> {0..1}. \<forall>i \<in> {0..3}. \<forall>cols > i. on_screen cols ws r i = Some
      (if r * cols + i < int (length ?h) then Letter (?h ! nat (r * cols + i))
       else Cell (lattice_cell LINEAR (\<exists>x \<in> set xs. on_column demo_libm demo_axes x i) (\<exists>y \<in> set ys. on_row demo_libm demo_axes y r)
         (on_column demo_libm demo_axes 0 i \<or> on_row demo_libm demo_axes NAN r)))"
      using lattice by blast
    show ?thesis by (rule that[OF r]) (use q in auto)
  qed
  have "map (Pair (8 :: byte)) xs = [(8, 0)]" using w(2) unfolding demo_grid by simp
  then have xs: "xs = [0]" "ys = []" using w(3) unfolding demo_grid by auto
  have "on_column demo_libm demo_axes 0 i = (i = 1)" for i
    using demo_column by (auto simp: on_column_def) (simp_all add: demo_fields demo_numbers)
  moreover have "\<not> on_row demo_libm a NAN r" for a r by (simp add: on_row_def)
  ultimately show ?thesis
    using screen[of 0 1] screen[of 1 1] screen[of 1 2] demo_drawn w(1) by (intro exI[of _ ?b] exI[of _ ws]) (simp add: xs)
qed

text \<open>A terminal of 80 columns and 43 rows.\<close>

theorem buffer_needs_width_witness: "mk_buffer demo_libm 80 42 demo_axes = None"
  using buffer_needs_width[of 80 42 demo_libm demo_axes] by auto

theorem curve_painted_witness:
  "\<exists>b. plot_curve demo_libm (VALUES [(0, lit 1)] RED) (demo_buffer [0, 40, 0, 40]) = Some b \<and>
     read_pixel b 0 1 = Some 1 \<and> read_pixel b 1 1 = Some 40"
proof -
  let ?b = "demo_buffer [0, 40, 0, 40]"
  have ok: "buffer_ok ?b" by (simp add: buffer_ok_def demo_buffer_def)
  have "represents (lit 1 - lit 1) 0" "represents (lit 1) 1"
    using represents_minus[OF represents_lit[of 1] represents_lit[of 1]] represents_lit[of 1] representable_int[of 0] by simp_all
  then have "represents ((lit 1 - lit 1) / lit 1) 0"
    using represents_divide[of "lit 1 - lit 1" 0 "lit 1" 1] representable_int[of 0] by simp
  then have r: "round_int16 ((lit 1 - lit 1) / lit 1) = Some 0"
    by (rule round_int16_val) (use floor_divide_of_int_eq[of 1 2, where ?'a = rat] in simp_all)
  note n = demo_numbers(3) r
  have row: "y_to_j demo_libm (buf_axes ?b) (lit 1) = Some 0"
    by (simp add: y_to_j_def demo_buffer_def demo_fields n)
  have "change_pixel (\<lambda>_. color_byte RED) 0 1 ?b = Some (demo_buffer [0, 1, 0, 40])"
    by (simp add: change_pixel_def pixel_index_def demo_buffer_def)
  then have p: "plot_curve demo_libm (VALUES [(0, lit 1)] RED) ?b = Some (demo_buffer [0, 1, 0, 40])"
    using demo_column row n
    by (simp add: plot_values_def plot_point_def) (simp add: check_ij_def demo_buffer_def)
  have h: "hits demo_libm (buf_axes ?b) (0, lit 1) j i = (j = 0 \<and> i = 1)" for j i
    using demo_column row n by (auto simp: hits_def demo_buffer_def)
  have ins: "inside ?b 0 1" "inside ?b 1 1" by (simp_all add: inside_def demo_buffer_def)
  have "read_pixel ?b 1 1 = Some 40" by (simp add: read_pixel_def pixel_index_def demo_buffer_def)
  then show ?thesis
    using curve_painted[OF ok p] ins p by (simp add: h)
qed

definition hours_buffer :: buffer where
  "hours_buffer = (demo_buffer [0, 0, 0, 0])\<lparr>buf_axes := demo_axes\<lparr>ax_x := (mk_axis TEMPORAL)
     \<lparr>ax_min := 0, ax_max := lit 1600000000, ax_origin := 0, ax_grid := lit 3600\<rparr>\<rparr>\<rparr>"

theorem grid_ends_witness:
  "\<exists>lowest xs. \<not> 0 < lowest \<and> grid_steps (lit 1600000000) (lit 3600) lowest xs \<and>
     plot_grid_vertical demo_libm hours_buffer =
       Option.bind (each (plot_line_vertical demo_libm 8) xs hours_buffer) (plot_line_vertical demo_libm 32 0)"
proof -
  let ?a = "ax_x (buf_axes hours_buffer)"
  have n: "isfinite (lit 1600000000)" "isfinite (lit 3600)" "isfinite 0" "- lit 1600000000 \<le> 0 - lit 3600" "- lit 1600000000 \<le> 0"
    "0 \<le> lit 1600000000" "lit 1600000000 \<le> lit 1600000000"
  proof -
    note r = represents_lit[of 1600000000] represents_lit[of 3600]
    have m: "represents (- lit 1600000000) (- 1600000000)" using r(1) by (simp add: represents_def)
    have d: "represents (0 - lit 3600) (- 3600)"
      using represents_minus[OF represents_0 r(2)] representable_int[of "- 3600"] by simp
    show "isfinite (lit 1600000000)" "isfinite (lit 3600)" "isfinite 0" "- lit 1600000000 \<le> 0 - lit 3600" "- lit 1600000000 \<le> 0"
      "0 \<le> lit 1600000000" "lit 1600000000 \<le> lit 1600000000"
      using represents_finite[OF r(1)] represents_finite[OF r(2)] represents_le[OF m d] represents_le[OF m represents_0]
        represents_le[OF represents_0 r(1)] represents_le[OF r(1) r(1)] by simp_all
  qed
  have e: "d_exp (lit 1600000000) \<le> 0" by code_simp
  have "ulp (lit 1600000000) \<le> 1" using powi_le[OF e] by (simp add: ulp_def)
  then have "ulp (lit 1600000000) \<le> d_val (lit 3600)" using lit_exact(1)[of 3600] by simp
  have a: "ax_type ?a = TEMPORAL" "ax_min ?a = 0" "ax_max ?a = lit 1600000000" "ax_origin ?a = 0" "ax_grid ?a = lit 3600"
    by (simp_all add: hours_buffer_def mk_axis_def)
  show ?thesis
    using grid_ends[of ?a "lit 1600000000" demo_libm] n \<open>ulp (lit 1600000000) \<le> d_val (lit 3600)\<close> unfolding a by auto
qed

end
