(* ===== verification/Plotter.thy ===== *)
theory Plotter
  imports Plot_Buffer Model_Text
begin

text \<open>
  The plotter (\<open>src/src/math/Plotter.hpp\<close>, lines 419 to 666): its axes and curves, the keys
  that move and zoom the axes, the mouse, and the event loop. The library ncurses is outside of
  the repository: the codes of its keys are the parameter \<open>key_codes\<close>, what it returns from
  \<open>getch\<close> and \<open>getmouse\<close> is a list of inputs, each with the size of the window when it is read,
  and what the program writes on the terminal is a list of outputs. \<open>None\<close> has the meaning it
  has in the buffer: no defined behaviour, or a loop that does not end.
\<close>

record key_codes =
  KEY_UP :: int
  KEY_DOWN :: int
  KEY_RIGHT :: int
  KEY_LEFT :: int

datatype input =
    Mouse_input "(int \<times> int) option"
  | No_input
  | Key_input int

text \<open>The interval that the mouse points at: two numbers, or the texts of two timestamps.\<close>

datatype interval = Numbers double double | Times string string

datatype plot_output =
    Screen "screen_write list"
  | Pointer interval "(plotter_color \<times> double \<times> double) list"

record plotter =
  plotter_axes :: axes
  plotter_curves :: "curve list"
  is_looping :: bool
  last_window_size :: "int \<times> int"
  terminal :: "plot_output list"

definition mk_plotter :: "axis_type \<Rightarrow> axis_type \<Rightarrow> plotter" where
  "mk_plotter tx ty = \<lparr>plotter_axes = \<lparr>ax_x = mk_axis tx, ax_y = mk_axis ty\<rparr>, plotter_curves = [],
     is_looping = False, last_window_size = (0, 0), terminal = []\<rparr>"

definition plotter_clear :: "plotter \<Rightarrow> plotter" where
  "plotter_clear p = p\<lparr>plotter_curves := []\<rparr>"

definition plotter_plot :: "curve \<Rightarrow> plotter \<Rightarrow> plotter" where
  "plotter_plot cv p = p\<lparr>plotter_curves := plotter_curves p @ [cv]\<rparr>"

section \<open>Showing\<close>

text \<open>The buffer holds a reference to the axes, so its adjustments stay.\<close>

definition plotter_show :: "libm \<Rightarrow> time_zone \<Rightarrow> int \<times> int \<Rightarrow> plotter \<Rightarrow> plotter option" where
  "plotter_show L tz window p =
     Option.bind (mk_buffer L (narrow16 (fst window)) (narrow16 (snd window - 1)) (plotter_axes p)) (\<lambda>b.
     Option.bind (each (plot_curve L) (plotter_curves p) b) (\<lambda>b'.
     Option.bind (buffer_show tz b') (\<lambda>writes.
       Some (p\<lparr>plotter_axes := buf_axes b', last_window_size := window,
               terminal := terminal p @ [Screen writes]\<rparr>))))"

section \<open>Moving and zooming\<close>

definition increase :: "libm \<Rightarrow> axis \<Rightarrow> axis" where
  "increase L a = (case ax_type a of
     LOGARITHMIC \<Rightarrow> (let factor = libm_pow L (ax_max a / ax_min a) (dec 1 1) in
       a\<lparr>ax_min := ax_min a * factor, ax_max := ax_max a * factor\<rparr>)
   | _ \<Rightarrow> (let delta = (ax_max a - ax_min a) / lit 10 in
       a\<lparr>ax_min := ax_min a + delta, ax_max := ax_max a + delta\<rparr>))"

definition decrease :: "libm \<Rightarrow> axis \<Rightarrow> axis" where
  "decrease L a = (case ax_type a of
     LOGARITHMIC \<Rightarrow> (let factor = libm_pow L (ax_max a / ax_min a) (dec 1 1) in
       a\<lparr>ax_min := ax_min a / factor, ax_max := ax_max a / factor\<rparr>)
   | _ \<Rightarrow> (let delta = (ax_max a - ax_min a) / lit 10 in
       a\<lparr>ax_min := ax_min a - delta, ax_max := ax_max a - delta\<rparr>))"

definition zoomin :: "libm \<Rightarrow> axis \<Rightarrow> axis" where
  "zoomin L a = (case ax_type a of
     LOGARITHMIC \<Rightarrow> (let ratio = ax_max a / ax_min a in
       a\<lparr>ax_min := ax_min a * libm_pow L ratio (dec 25 2), ax_max := ax_max a / libm_pow L ratio (dec 25 2), ax_step := NAN\<rparr>)
   | _ \<Rightarrow> (let delta = ax_max a - ax_min a in
       a\<lparr>ax_min := ax_min a + delta / lit 4, ax_max := ax_max a - delta / lit 4, ax_step := NAN\<rparr>))"

definition zoomout :: "libm \<Rightarrow> axis \<Rightarrow> axis" where
  "zoomout L a = (case ax_type a of
     LOGARITHMIC \<Rightarrow> (let ratio = ax_max a / ax_min a in
       a\<lparr>ax_min := ax_min a / libm_sqrt L ratio, ax_max := ax_max a * libm_sqrt L ratio, ax_step := NAN\<rparr>)
   | _ \<Rightarrow> (let delta = ax_max a - ax_min a in
       a\<lparr>ax_min := ax_min a - delta / lit 2, ax_max := ax_max a + delta / lit 2, ax_step := NAN\<rparr>))"

text \<open>The keys for the grid of a temporal axis: hours, days, weeks, months and years.\<close>

definition set_temporal_grid :: "double \<Rightarrow> axes \<Rightarrow> axes" where
  "set_temporal_grid g a = (if ax_type (ax_x a) = TEMPORAL then a\<lparr>ax_x := (ax_x a)\<lparr>ax_grid := g\<rparr>\<rparr> else a)"

definition on_key_press ::
    "libm \<Rightarrow> time_zone \<Rightarrow> key_codes \<Rightarrow> int \<times> int \<Rightarrow> int \<Rightarrow> plotter \<Rightarrow> plotter option" where
  "on_key_press L tz K window key p =
     (let a = plotter_axes p; sh = plotter_show L tz window in
      if key = 113 then sh (p\<lparr>is_looping := False\<rparr>)
      else if key = KEY_UP K then sh (p\<lparr>plotter_axes := a\<lparr>ax_y := increase L (ax_y a)\<rparr>\<rparr>)
      else if key = KEY_DOWN K then sh (p\<lparr>plotter_axes := a\<lparr>ax_y := decrease L (ax_y a)\<rparr>\<rparr>)
      else if key = KEY_RIGHT K then sh (p\<lparr>plotter_axes := a\<lparr>ax_x := increase L (ax_x a)\<rparr>\<rparr>)
      else if key = KEY_LEFT K then sh (p\<lparr>plotter_axes := a\<lparr>ax_x := decrease L (ax_x a)\<rparr>\<rparr>)
      else if key = 43 then sh (p\<lparr>plotter_axes := a\<lparr>ax_x := zoomin L (ax_x a)\<rparr>\<rparr>)
      else if key = 45 then sh (p\<lparr>plotter_axes := a\<lparr>ax_x := zoomout L (ax_x a)\<rparr>\<rparr>)
      else if key = 42 then sh (p\<lparr>plotter_axes := a\<lparr>ax_y := zoomin L (ax_y a)\<rparr>\<rparr>)
      else if key = 47 then sh (p\<lparr>plotter_axes := a\<lparr>ax_y := zoomout L (ax_y a)\<rparr>\<rparr>)
      else if key = 104 then sh (p\<lparr>plotter_axes := set_temporal_grid (lit 3600) a\<rparr>)
      else if key = 100 then sh (p\<lparr>plotter_axes := set_temporal_grid (lit 24 * lit 3600) a\<rparr>)
      else if key = 119 then sh (p\<lparr>plotter_axes := set_temporal_grid (lit 7 * lit 24 * lit 3600) a\<rparr>)
      else if key = 109 then sh (p\<lparr>plotter_axes := set_temporal_grid (dec 365259636 6 * lit 24 * lit 3600 / lit 12) a\<rparr>)
      else if key = 121 then sh (p\<lparr>plotter_axes := set_temporal_grid (dec 365259636 6 * lit 24 * lit 3600) a\<rparr>)
      else Some p)"

definition show_interval :: "time_zone \<Rightarrow> axis_type \<Rightarrow> double \<Rightarrow> double \<Rightarrow> interval option" where
  "show_interval tz t x1 x2 =
     (if t = TEMPORAL
      then Option.bind (ts_string tz x1) (\<lambda>s1. Option.bind (ts_string tz x2) (\<lambda>s2. Some (Times s1 s2)))
      else Some (Numbers x1 x2))"

definition on_mouse_move :: "time_zone \<Rightarrow> double \<times> double \<Rightarrow> int \<Rightarrow> int \<Rightarrow> plotter \<Rightarrow> plotter option" where
  "on_mouse_move tz junk i j p =
     (let a = plotter_axes p; x = (i_to_x a (narrow16 i), i_to_x a (narrow16 (i + 1))) in
      Option.bind (show_interval tz (ax_type (ax_x a)) (fst x) (snd x)) (\<lambda>xs.
      Option.bind (those (map (\<lambda>cv. map_option (Pair (curve_color cv)) (curve_compute junk cv x)) (plotter_curves p))) (\<lambda>ys.
        Some (p\<lparr>terminal := terminal p @ [Pointer xs ys]\<rparr>))))"

section \<open>The event loop\<close>

definition plotter_turn ::
    "libm \<Rightarrow> time_zone \<Rightarrow> key_codes \<Rightarrow> double \<times> double \<Rightarrow> (int \<times> int) \<times> input \<Rightarrow> plotter \<Rightarrow> plotter option" where
  "plotter_turn L tz K junk w p = (case snd w of
     Mouse_input (Some (i, j)) \<Rightarrow> on_mouse_move tz junk i j p
   | Mouse_input None \<Rightarrow> Some p
   | No_input \<Rightarrow> Some p
   | Key_input c \<Rightarrow> on_key_press L tz K (fst w) c p)"

text \<open>The loop over the inputs that come; it gives back those it leaves unread.\<close>

fun plotter_loop ::
    "libm \<Rightarrow> time_zone \<Rightarrow> key_codes \<Rightarrow> double \<times> double \<Rightarrow> ((int \<times> int) \<times> input) list \<Rightarrow> plotter \<Rightarrow>
      (((int \<times> int) \<times> input) list \<times> plotter) option" where
  "plotter_loop L tz K junk ws p =
     (if \<not> is_looping p then Some (ws, p)
      else case ws of
        [] \<Rightarrow> Some ([], p)
      | w # ws' \<Rightarrow> Option.bind (plotter_turn L tz K junk w p) (plotter_loop L tz K junk ws'))"

declare plotter_loop.simps [simp del]

definition plotter_start ::
    "libm \<Rightarrow> time_zone \<Rightarrow> key_codes \<Rightarrow> double \<times> double \<Rightarrow> int \<times> int \<Rightarrow> ((int \<times> int) \<times> input) list \<Rightarrow> plotter \<Rightarrow>
      (((int \<times> int) \<times> input) list \<times> plotter) option" where
  "plotter_start L tz K junk window ws p =
     Option.bind (plotter_show L tz window (p\<lparr>is_looping := True\<rparr>)) (plotter_loop L tz K junk ws)"

definition plotter_stop :: "plotter \<Rightarrow> plotter" where
  "plotter_stop p = p\<lparr>is_looping := False\<rparr>"

section \<open>Columns and rows\<close>

text \<open>
  On a linear axis of whole numbers the abscissa of column \<open>i\<close> converts to column \<open>i + 1\<close>:
  the half step that \<open>x_to_i\<close> adds makes the division a tie, which rounds away from zero. The
  minimum is drawn in column 1 and the last column is never reached, while an ordinate converts
  to its own row.
\<close>

theorem pixel_columns:
  assumes "ax_type (ax_x a) \<noteq> LOGARITHMIC" "ax_min (ax_x a) = lit m" "ax_step (ax_x a) = lit s"
    and "0 < s" "0 \<le> i" "i < 32767" "2 * (i * s) + s < 2 ^ 53" "\<bar>m\<bar> < 2 ^ 53" "\<bar>i * s + m\<bar> < 2 ^ 53"
    and "ax_type (ax_y a) \<noteq> LOGARITHMIC" "ax_max (ax_y a) = lit M" "ax_step (ax_y a) = lit t"
    and "0 < t" "0 \<le> j" "j < 32768" "j * t < 2 ^ 53" "t < 2 ^ 53" "\<bar>M\<bar> < 2 ^ 53" "\<bar>M - j * t\<bar> < 2 ^ 53"
  shows "x_to_i L a (i_to_x a i) = Some (i + 1) \<and> y_to_j L a (ax_max (ax_y a) - lit j * ax_step (ax_y a)) = Some j"
proof
  have "0 \<le> i * s" using assms(4,5) by simp
  then have bound: "0 \<le> i * s" "i * s < 2 ^ 53" "s < 2 ^ 53" using assms(4,7) by simp_all
  have "represents (lit i * lit s) (of_int i * of_int s)"
    using bound representable_int[of "i * s"] assms(4-6) by (intro represents_times represents_lit) simp_all
  then have x: "represents (i_to_x a i) (of_int (i * s + m))"
    using assms(1-3,8,9) represents_plus[of "lit i * lit s" "of_int i * of_int s" "lit m" "of_int m"] represents_lit[of m]
      representable_int[of "i * s + m"]
    by (cases "ax_type (ax_x a)") (simp_all add: i_to_x_def)
  have d: "represents (i_to_x a i - lit m) (of_int (i * s))"
    using represents_minus[OF x represents_lit[OF assms(8)]] representable_int[of "i * s"] bound by simp
  have h: "represents (dec 5 1 * lit s) (of_int s / 2)"
    using represents_times[OF represents_half represents_lit[of s]] representable_half[of s] bound assms(4) by simp
  have "represents (i_to_x a i - lit m + dec 5 1 * lit s) (of_int (2 * (i * s) + s) / 2)"
    using represents_plus[OF d h] representable_half[of "2 * (i * s) + s"] bound assms(4,7) by (simp add: add_divide_distrib)
  then have "represents ((i_to_x a i - lit m + dec 5 1 * lit s) / lit s) (of_int (2 * (i * s) + s) / 2 / of_int s)"
  proof (rule represents_divide[OF _ represents_lit])
    have half: "(of_int (2 * (i * s) + s) / 2 / of_int s :: rat) = of_int (2 * i + 1) / 2" using assms(4) by (simp add: field_simps)
    have "\<bar>2 * i + 1\<bar> < 2 ^ 53" using assms(5,6) by simp
    then show "representable (of_int (2 * (i * s) + s) / 2 / of_int s)"
      unfolding half by (rule representable_half)
  qed (use bound assms(4) in simp_all)
  moreover have "(of_int (2 * (i * s) + s) / 2 / of_int s :: rat) = of_int i + 1 / 2" using assms(4) by (simp add: field_simps)
  ultimately have "round_int16 ((i_to_x a i - lit m + dec 5 1 * lit s) / lit s) = Some (i + 1)"
    using assms(5,6) by (intro round_int16_val[of _ "of_int i + 1 / 2"]) (simp_all add: floor_add_int[symmetric] add.assoc)
  then show "x_to_i L a (i_to_x a i) = Some (i + 1)"
    using assms(1-3) by (cases "ax_type (ax_x a)") (simp_all add: x_to_i_def)
next
  have jt: "0 \<le> j * t" using assms(13,14) by simp
  have "represents (lit j * lit t) (of_int (j * t))"
    using represents_times[OF represents_lit[of j] represents_lit[of t]] representable_int[of "j * t"] jt assms(13-17) by simp
  then have y: "represents (lit M - lit j * lit t) (of_int (M - j * t))"
    using represents_minus[OF represents_lit[OF assms(18)]] representable_int[of "M - j * t"] assms(19) by simp
  have "represents (lit M - (lit M - lit j * lit t)) (of_int (j * t))"
    using represents_minus[OF represents_lit[OF assms(18)] y] representable_int[of "j * t"] jt assms(16) by simp
  from represents_divide[OF this represents_lit[of t]]
  have "represents ((lit M - (lit M - lit j * lit t)) / lit t) (of_int j)"
    using representable_int[of j] assms(13-17) by simp
  then have "round_int16 ((lit M - (lit M - lit j * lit t)) / lit t) = Some j"
  proof (rule round_int16_val)
    have "\<lfloor>of_int j + 1 / 2 :: rat\<rfloor> = j" by (rule floor_unique) simp_all
    then show "j = (if of_int j < (0 :: rat) then - \<lfloor>\<bar>of_int j\<bar> + 1 / 2 :: rat\<rfloor> else \<lfloor>\<bar>of_int j\<bar> + 1 / 2 :: rat\<rfloor>)"
      using assms(14) by simp
  qed (use assms(14,15) in simp_all)
  then show "y_to_j L a (ax_max (ax_y a) - lit j * ax_step (ax_y a)) = Some j"
    using assms(10-12) by (cases "ax_type (ax_y a)") (simp_all add: y_to_j_def)
qed

section \<open>Keys\<close>

lemma quotient_shrinks:
  assumes "isfinite d" "0 \<le> d_val d" "1 \<le> k" "k < 2 ^ 53"
  shows "isfinite (d / lit k)" and "0 \<le> d_val (d / lit k)"
proof -
  have k: "isfinite (lit k)" "d_val (lit k) = of_int k" using lit_exact[of k] assms(3,4) by simp_all
  have q: "signed_round (d_val d / of_int k) (d_key (d / lit k))"
    using divide_value[OF assms(1) k(1)] k(2) assms(3) by simp
  have "d_val d / of_int k \<le> d_val d" "0 \<le> d_val d / of_int k"
    using assms(2,3) mult_left_mono[of 1 "of_int k :: rat" "d_val d"] by (simp_all add: divide_le_eq)
  then have b: "d_key (d / lit k) \<le> d_key d" "0 \<le> d_key (d / lit k)"
    using signed_round_mono[OF q d_key_value[OF assms(1)]]
      signed_round_mono[OF _ q, of 0 0] by (simp_all add: signed_round_def)
  have abs_key: "\<bar>d_key w\<bar> = d_mag w" for w by (simp add: d_key_def)
  then have "d_mag (d / lit k) \<le> d_mag d" using b abs_key[of d] abs_key[of "d / lit k"] by linarith
  then show "isfinite (d / lit k)" using assms(1) by (simp add: isfinite_def)
  show "0 \<le> d_val (d / lit k)"
    using b(2) mag_val_nonneg[of "d_key (d / lit k)"] by (simp add: key_val_d_key[symmetric] key_val_def)
qed

lemma shift_up: "isfinite x \<Longrightarrow> isfinite y \<Longrightarrow> 0 \<le> d_val y \<Longrightarrow> x \<le> x + y"
  using signed_round_mono[OF d_key_value plus_value(1)[of x y], of x] plus_value(2)[of x y] isfinite_not(1)
  by (simp add: le_key)

lemma shift_down: "isfinite x \<Longrightarrow> isfinite y \<Longrightarrow> 0 \<le> d_val y \<Longrightarrow> x - y \<le> x"
  using signed_round_mono[OF plus_value(1)[of x "- y"] d_key_value[of x]] plus_value(2)[of x "- y"] isfinite_not(1)
  by (simp add: le_key minus_double_def)

text \<open>
  On a linear axis with finite ends the arrow keys move both ends the way they say, zooming
  in moves the two ends inwards and zooming out outwards; zooming forgets the step, which the
  next buffer computes from the new ends, whatever the rounding. Nothing else changes.
\<close>

theorem keys_move_axis:
  assumes "ax_type a \<noteq> LOGARITHMIC" "isfinite (ax_min a)" "isfinite (ax_max a)" "ax_min a \<le> ax_max a" "isfinite (ax_max a - ax_min a)"
  shows "ax_min a \<le> ax_min (increase L a) \<and> ax_max a \<le> ax_max (increase L a) \<and>
    ax_min (decrease L a) \<le> ax_min a \<and> ax_max (decrease L a) \<le> ax_max a \<and>
    ax_min a \<le> ax_min (zoomin L a) \<and> ax_max (zoomin L a) \<le> ax_max a \<and>
    ax_min (zoomout L a) \<le> ax_min a \<and> ax_max a \<le> ax_max (zoomout L a) \<and>
    (\<forall>z n. z = zoomin L a \<or> z = zoomout L a \<longrightarrow>
      adjust_axis L z n = a\<lparr>ax_min := ax_min z, ax_max := ax_max z, ax_step := (ax_max z - ax_min z) / lit (n - 1)\<rparr>)"
proof -
  let ?d = "ax_max a - ax_min a"
  have "d_key (ax_min a) \<le> d_key (ax_max a)" using assms(2-4) isfinite_not(1) by (simp add: le_key)
  then have "d_val (ax_min a) \<le> d_val (ax_max a)"
    using less_val[OF assms(3,2)] assms(2,3) isfinite_not(1) by (simp add: less_key not_less[symmetric])
  then have "0 \<le> d_key ?d"
    using signed_round_mono[of 0 0 "d_val (ax_max a) + d_val (- ax_min a)"] plus_value(1)[of "ax_max a" "- ax_min a"] assms(2,3)
    by (simp add: signed_round_def minus_double_def)
  then have d: "0 \<le> d_val ?d"
    using mag_val_nonneg[of "d_key ?d"] by (simp add: key_val_d_key[symmetric] key_val_def)
  note q = quotient_shrinks[OF assms(5) d]
  have moves: "x \<le> x + ?d / lit k" "x - ?d / lit k \<le> x" if "isfinite x" "1 \<le> k" "k < 2 ^ 53" for x k
    using shift_up[OF that(1)] shift_down[OF that(1)] q[OF that(2,3)] by simp_all
  note m = moves[OF assms(2)] moves[OF assms(3)]
  have nn: "\<not> isnan (x + ?d / lit k)" "\<not> isnan (x - ?d / lit k)" if "isfinite x" "1 \<le> k" "k < 2 ^ 53" for x k
    using le_not_nan[OF moves(1)[OF that]] le_not_nan[OF moves(2)[OF that]] by simp_all
  have t: "ax_type a = TEMPORAL \<or> ax_type a = LINEAR" using assms(1) by (cases "ax_type a") simp_all
  have ends: "ax_min (increase L a) = ax_min a + ?d / lit 10" "ax_max (increase L a) = ax_max a + ?d / lit 10"
    "ax_min (decrease L a) = ax_min a - ?d / lit 10" "ax_max (decrease L a) = ax_max a - ?d / lit 10"
    "zoomin L a = a\<lparr>ax_min := ax_min a + ?d / lit 4, ax_max := ax_max a - ?d / lit 4, ax_step := NAN\<rparr>"
    "zoomout L a = a\<lparr>ax_min := ax_min a - ?d / lit 2, ax_max := ax_max a + ?d / lit 2, ax_step := NAN\<rparr>"
    using t by (auto simp: increase_def decrease_def zoomin_def zoomout_def Let_def)
  have adj: "adjust_axis L (a\<lparr>ax_min := u, ax_max := v, ax_step := NAN\<rparr>) n =
      a\<lparr>ax_min := u, ax_max := v, ax_step := (v - u) / lit (n - 1)\<rparr>" if "\<not> isnan u" "\<not> isnan v" for u v n
    using t that by (auto simp: adjust_axis_def Let_def)
  show ?thesis
    unfolding ends using m nn[OF assms(2)] nn[OF assms(3)]
    by (intro conjI allI impI; (elim disjE)?) (simp_all add: adj)
qed

section \<open>The loop ends on the key q\<close>

lemma show_keeps: "plotter_show L tz window p = Some p' \<Longrightarrow> is_looping p' = is_looping p"
  by (auto simp: plotter_show_def bind_eq_Some_conv Let_def)

lemma turn_looping:
  "plotter_turn L tz K junk w p = Some p' \<Longrightarrow> is_looping p' \<longleftrightarrow> is_looping p \<and> snd w \<noteq> Key_input 113"
  by (auto simp: plotter_turn_def on_key_press_def on_mouse_move_def Let_def bind_eq_Some_conv
      split: input.splits option.splits if_splits dest!: show_keeps)

lemma loop_reads:
  assumes "plotter_loop L tz K junk ws p = Some (rest, p')" "is_looping p"
  shows "rest = drop 1 (dropWhile (\<lambda>w. snd w \<noteq> Key_input 113) ws) \<and> is_looping p' = list_all (\<lambda>w. snd w \<noteq> Key_input 113) ws"
  using assms
proof (induction ws arbitrary: p)
  case Nil
  then show ?case by (simp add: plotter_loop.simps)
next
  case (Cons w ws)
  then obtain p1 where p1: "plotter_turn L tz K junk w p = Some p1" "plotter_loop L tz K junk ws p1 = Some (rest, p')"
    by (subst (asm) (2) plotter_loop.simps) (auto simp: bind_eq_Some_conv)
  show ?case
  proof (cases "snd w = Key_input 113")
    case True
    then have "\<not> is_looping p1" using turn_looping[OF p1(1)] by simp
    then show ?thesis using True p1(2) by (subst (asm) plotter_loop.simps) auto
  next
    case False
    then show ?thesis using turn_looping[OF p1(1)] Cons.prems(2) Cons.IH[OF p1(2)] by simp
  qed
qed

text \<open>A plotter with linear axes, no origins and no curves, in a window that is wide enough.\<close>

definition plain_axis :: "axis \<Rightarrow> bool" where
  "plain_axis a \<longleftrightarrow> ax_type a = LINEAR \<and> isnan (ax_origin a)"

definition plain_plotter :: "plotter \<Rightarrow> bool" where
  "plain_plotter p \<longleftrightarrow> plain_axis (ax_x (plotter_axes p)) \<and> plain_axis (ax_y (plotter_axes p)) \<and> plotter_curves p = []"

definition wide_window :: "int \<times> int \<Rightarrow> bool" where
  "wide_window w \<longleftrightarrow> fst w < 32767 \<and> 1 \<le> snd w \<and> 2 * snd w \<le> fst w + 1"

lemma plain_axis_keys [simp]:
  "plain_axis a \<Longrightarrow> plain_axis (increase L a)" "plain_axis a \<Longrightarrow> plain_axis (decrease L a)"
  "plain_axis a \<Longrightarrow> plain_axis (zoomin L a)" "plain_axis a \<Longrightarrow> plain_axis (zoomout L a)"
  "plain_axis a \<Longrightarrow> plain_axis (adjust_axis L a n)" "plain_axis (a\<lparr>ax_grid := g\<rparr>) = plain_axis a"
  by (auto simp: plain_axis_def increase_def decrease_def zoomin_def zoomout_def adjust_axis_def Let_def)

lemma plain_grid:
  assumes "plain_axis a"
  shows "plot_grid_linear line mark a b = line 32 (ax_origin a) b"
  using assms unfolding plot_grid_linear_def plain_axis_def
  by (subst while_loop.simps) (simp, subst for_loop.simps, simp)

lemma plain_show:
  assumes "plain_plotter p" "wide_window window"
  obtains p' where "plotter_show L tz window p = Some p'" "plain_plotter p'"
proof -
  let ?w = "fst window" and ?h = "snd window - 1" and ?a = "plotter_axes p"
  let ?b = "blank_buffer L ?w ?h ?a"
  have size: "0 \<le> ?w" "?w < 32767" "0 \<le> ?h" "?h < 16383" "\<not> ?w < 2 * ?h + 1"
    using assms(2) by (simp_all add: wide_window_def)
  have axes: "plain_axis (ax_x (buf_axes ?b))" "plain_axis (ax_y (buf_axes ?b))"
    using assms(1) by (simp_all add: blank_buffer_def plain_plotter_def)
  then have "plot_grid_vertical L ?b = Some ?b" "plot_grid_horizontal L ?b = Some ?b"
    by (simp_all add: plain_grid[OF axes(1)] plain_grid[OF axes(2)] plot_grid_vertical_def plot_grid_horizontal_def plot_line_vertical_def plot_line_horizontal_def plain_axis_def)
  then have b: "mk_buffer L (narrow16 ?w) (narrow16 ?h) ?a = Some ?b"
    using size by (simp add: narrow16_small mk_buffer_small)
  have "buf_height ?b = 2 * ?h + 2" "buf_width ?b = ?w + 1" by (simp_all add: blank_buffer_def)
  then obtain cells where "buffer_cells ?b = Some cells"
    using buffer_cells_all[OF blank_buffer_ok, of L ?w ?h ?a ?h ?w "\<lambda>r i. show_cell (pix ?b (2 * r) i) (pix ?b (2 * r + 1) i)"]
    by auto
  moreover obtain header where "show_header tz (buf_axes ?b) = Some header"
    using axes(1) by (simp add: show_header_def plain_axis_def Let_def)
  ultimately have "buffer_show tz ?b = Some (cells @ [Print 0 0 header])" by (simp add: buffer_show_def)
  then show ?thesis
    using b axes assms(1) that by (simp add: plotter_show_def plain_plotter_def)
qed

definition plain_result :: "plotter option \<Rightarrow> bool" where
  "plain_result r \<longleftrightarrow> (\<exists>p. r = Some p \<and> plain_plotter p)"

lemma plain_result_if: "plain_result r \<Longrightarrow> plain_result r' \<Longrightarrow> plain_result (if c then r else r')"
  by simp

lemma plain_result_show: "plain_plotter p \<Longrightarrow> wide_window window \<Longrightarrow> plain_result (plotter_show L tz window p)"
  using plain_show[of p window L tz] by (auto simp: plain_result_def)

lemma plain_result_Some: "plain_plotter p \<Longrightarrow> plain_result (Some p)"
  by (simp add: plain_result_def)

lemma plain_turn:
  assumes "plain_plotter p" "wide_window (fst w)"
  obtains p' where "plotter_turn L tz K junk w p = Some p'" "plain_plotter p'"
proof (cases "snd w")
  case (Mouse_input m)
  then show ?thesis
    using assms(1) that
    by (cases m) (auto simp: plotter_turn_def on_mouse_move_def show_interval_def plain_plotter_def plain_axis_def Let_def)
next
  case No_input
  then show ?thesis using assms(1) that by (simp add: plotter_turn_def)
next
  case (Key_input c)
  have "plain_result (on_key_press L tz K (fst w) c p)"
    unfolding on_key_press_def Let_def
    by (intro plain_result_if plain_result_show plain_result_Some assms(2))
      (use assms(1) in \<open>simp_all add: plain_plotter_def set_temporal_grid_def\<close>)
  then show ?thesis using that Key_input by (auto simp: plotter_turn_def plain_result_def)
qed

lemma plain_loop:
  assumes "plain_plotter p" "list_all (\<lambda>w. wide_window (fst w)) ws"
  shows "plotter_loop L tz K junk ws p \<noteq> None"
  using assms
proof (induction ws arbitrary: p)
  case Nil
  then show ?case by (simp add: plotter_loop.simps)
next
  case (Cons w ws)
  have "wide_window (fst w)" using Cons.prems(2) by simp
  then obtain p' where "plotter_turn L tz K junk w p = Some p'" "plain_plotter p'"
    by (rule plain_turn[OF Cons.prems(1)])
  then show ?case using Cons by (subst plotter_loop.simps) simp
qed

text \<open>
  C33: The event loop reads the inputs up to the first key q and no further: it is then over,
  and without that key it still waits when the inputs are used up. It has a defined behaviour
  for every sequence of inputs when the windows are wide enough for their heights and the axes
  are linear, without origins and curves.
\<close>

theorem loop_ends_on_q:
  "(plotter_start L tz K junk window ws p = Some (rest, p') \<longrightarrow>
      rest = drop 1 (dropWhile (\<lambda>w. snd w \<noteq> Key_input 113) ws) \<and>
      is_looping p' = list_all (\<lambda>w. snd w \<noteq> Key_input 113) ws) \<and>
   (plain_plotter p \<and> wide_window window \<and> list_all (\<lambda>w. wide_window (fst w)) ws \<longrightarrow>
      plotter_start L tz K junk window ws p \<noteq> None)"
proof (intro conjI impI)
  assume "plotter_start L tz K junk window ws p = Some (rest, p')"
  then obtain p1 where p1: "plotter_show L tz window (p\<lparr>is_looping := True\<rparr>) = Some p1"
      "plotter_loop L tz K junk ws p1 = Some (rest, p')"
    by (auto simp: plotter_start_def bind_eq_Some_conv)
  have "is_looping p1" using show_keeps[OF p1(1)] by simp
  note r = loop_reads[OF p1(2) this]
  then show "rest = drop 1 (dropWhile (\<lambda>w. snd w \<noteq> Key_input 113) ws)"
    and "is_looping p' = list_all (\<lambda>w. snd w \<noteq> Key_input 113) ws" by blast+
next
  assume a: "plain_plotter p \<and> wide_window window \<and> list_all (\<lambda>w. wide_window (fst w)) ws"
  then have "plain_plotter (p\<lparr>is_looping := True\<rparr>)" by (simp add: plain_plotter_def)
  then obtain p1 where "plotter_show L tz window (p\<lparr>is_looping := True\<rparr>) = Some p1" "plain_plotter p1"
    using plain_show a by blast
  then show "plotter_start L tz K junk window ws p \<noteq> None"
    using plain_loop a by (simp add: plotter_start_def)
qed

theorem pixel_columns_witness:
  "x_to_i demo_libm demo_axes (i_to_x demo_axes 5) = Some 6"
  using pixel_columns[of demo_axes 0 2 5 1 1 1 demo_libm] by (simp add: demo_fields lit_0)

theorem keys_move_axis_witness: "ax_min (ax_x demo_axes) \<le> ax_min (zoomin demo_libm (ax_x demo_axes))"
proof -
  note r = represents_lit[of 2]
  have "represents (lit 2 - 0) 2" using represents_minus[OF r represents_0] representable_int[of 2] by simp
  then have "isfinite (lit 2)" "isfinite (lit 2 - 0)" "0 \<le> lit 2"
    using represents_finite r represents_le[OF represents_0 r] by simp_all
  then show ?thesis using keys_move_axis[of "ax_x demo_axes" demo_libm] by (simp add: demo_fields)
qed

definition demo_zone :: time_zone where
  "demo_zone = \<lparr>localtime = (\<lambda>t. None), mktime = (\<lambda>t. 0)\<rparr>"

definition demo_keys :: key_codes where
  "demo_keys = \<lparr>KEY_UP = 259, KEY_DOWN = 258, KEY_RIGHT = 261, KEY_LEFT = 260\<rparr>"

theorem loop_ends_on_q_witness:
  "\<exists>rest p. plotter_start demo_libm demo_zone demo_keys (0, 0) (80, 24) [((80, 24), Key_input 43), ((80, 24), Key_input 113), ((80, 24), Key_input 45)]
      (mk_plotter LINEAR LINEAR) = Some (rest, p) \<and> rest = [((80, 24), Key_input 45)] \<and> \<not> is_looping p"
proof -
  let ?start = "plotter_start demo_libm demo_zone demo_keys (0, 0) (80, 24) [((80, 24), Key_input 43), ((80, 24), Key_input 113), ((80, 24), Key_input 45)]
      (mk_plotter LINEAR LINEAR)"
  have "?start \<noteq> None"
    using loop_ends_on_q[of demo_libm demo_zone demo_keys "(0, 0)" "(80, 24)" "[((80, 24), Key_input 43), ((80, 24), Key_input 113), ((80, 24), Key_input 45)]"
        "mk_plotter LINEAR LINEAR"]
    by (simp add: plain_plotter_def plain_axis_def mk_plotter_def mk_axis_def wide_window_def)
  then obtain rest p where "?start = Some (rest, p)" by auto
  then show ?thesis using loop_ends_on_q[of demo_libm demo_zone demo_keys] by fastforce
qed

end
