(* ===== verification/History_Plot.thy ===== *)
theory History_Plot
  imports History Plotter
begin

text \<open>
  What \<open>src/src/history/History.hpp\<close> shows: the output operator of a synchronisation result, and
  \<open>History::plot\<close>, which sets up a plotter with four curves over the history and starts it. The
  plotter calls the curves back for each column of the window; they run the virtual methods.
\<close>

section \<open>The result of a synchronisation\<close>

definition show_pair :: "nat \<times> nat \<Rightarrow> string" where
  "show_pair p = ''('' @ show_nat (fst p) @ '', '' @ show_nat (snd p) @ '')''"

definition show_sync_result :: "sync_result \<Rightarrow> string" where
  "show_sync_result r = ''<SynchronizationResult trades='' @ show_pair (sync_trades r) @
     '' balance_changes='' @ show_pair (sync_balance_changes r) @
     '' orders='' @ show_pair (sync_orders r) @
     '' decisions='' @ show_pair (sync_decisions r) @ ''>''"

section \<open>The plot of a history\<close>

definition plot_average :: "'h history_ops \<Rightarrow> 'h \<Rightarrow> double \<Rightarrow> double \<Rightarrow> double option" where
  "plot_average ops h t1 t2 = map_option ts_average_price (trade_summary_of ops h t1 t2)"

definition plot_liquidity :: "'h history_ops \<Rightarrow> 'h \<Rightarrow> double \<Rightarrow> double option" where
  "plot_liquidity ops h t =
     map_option (\<lambda>balance. liquidity balance - commission balance) (get_balance_at_timestamp ops h t)"

definition plot_prices ::
  "action_type \<Rightarrow> 'h history_ops \<Rightarrow> 'h \<Rightarrow> double \<Rightarrow> double \<Rightarrow> (double \<times> double) option" where
  "plot_prices type ops h t1 t2 = map_option (plot_price_range type) (get_trades_by_timestamp ops h t1 t2)"

definition history_curves :: "'h history_ops \<Rightarrow> 'h \<Rightarrow> curve list" where
  "history_curves ops h =
     [FUNCTION_2 (plot_average ops h) GREEN, FUNCTION_1 (plot_liquidity ops h) YELLOW,
      FUNCTION_3 (plot_prices BUY ops h) RED, FUNCTION_3 (plot_prices SELL ops h) BLUE]"

text \<open>The types that the constructor leaves uninitialised, \<open>tx\<close> and \<open>ty\<close>, are both assigned.\<close>

definition history_axes :: "timestamp_span \<Rightarrow> axes \<Rightarrow> axes" where
  "history_axes time_span a = a
     \<lparr>ax_x := (ax_x a)\<lparr>ax_type := TEMPORAL, ax_min := span_from time_span, ax_max := span_to time_span,
        ax_origin := lit 0, ax_grid := dec 365259636 6 * lit 24 * lit 3600 / lit 12\<rparr>,
      ax_y := (ax_y a)\<lparr>ax_type := LOGARITHMIC, ax_min := lit 1, ax_max := lit 100000,
        ax_origin := lit 1, ax_grid := lit 10\<rparr>\<rparr>"

definition history_plotter ::
  "axis_type \<Rightarrow> axis_type \<Rightarrow> 'h history_ops \<Rightarrow> 'h \<Rightarrow> plotter option" where
  "history_plotter tx ty ops h = map_option (\<lambda>time_span.
     let plotter = mk_plotter tx ty
     in fold plotter_plot (history_curves ops h)
          (plotter\<lparr>plotter_axes := history_axes time_span (plotter_axes plotter)\<rparr>)) (get_time_span ops h)"

section \<open>The range of the red and blue curves\<close>

definition decided :: "action_type \<Rightarrow> trade \<Rightarrow> bool" where
  "decided type t \<longleftrightarrow> t_decision_id t \<noteq> 0 \<and> t_type t = type"

text \<open>The two extremes are widened as a time span is, by the prices of the decided trades.\<close>

lemma plot_price_widen:
  "plot_price_step type (span_from s, span_to s) t =
     (if decided type t then (span_from (widen_span s (t_price t)), span_to (widen_span s (t_price t)))
      else (span_from s, span_to s))"
  by (simp add: plot_price_step_def decided_def widen_span_def Let_def)

lemma plot_price_range_span:
  "plot_price_range type trades =
     (let s = foldl widen_span mk_span (map t_price (filter (decided type) trades)) in (span_from s, span_to s))"
proof -
  have "foldl (plot_price_step type) (span_from s, span_to s) trades =
      (let s' = foldl widen_span s (map t_price (filter (decided type) trades)) in (span_from s', span_to s'))" for s
    by (induction trades arbitrary: s) (simp_all add: plot_price_widen)
  from this[of mk_span] show ?thesis by (simp add: plot_price_range_def mk_span_def)
qed

text \<open>
  The curves show the least and the greatest price of the trades of their side that a decision
  made, and nothing where there are none.
\<close>

theorem plot_price_extremes:
  assumes "\<forall>t \<in> set trades. decided type t \<longrightarrow> \<not> isnan (t_price t)"
  shows "case plot_price_range type trades of (lo, hi) \<Rightarrow>
    if filter (decided type) trades = [] then isnan lo \<and> isnan hi
    else (\<exists>t \<in> set trades. decided type t \<and> t_price t = lo) \<and>
      (\<exists>t \<in> set trades. decided type t \<and> t_price t = hi) \<and>
      (\<forall>t \<in> set trades. decided type t \<longrightarrow> lo \<le> t_price t \<and> t_price t \<le> hi)"
proof (cases "filter (decided type) trades = []")
  case False
  then have "spans (foldl widen_span mk_span (map t_price (filter (decided type) trades)))
      (set (map t_price (filter (decided type) trades)))"
    using assms by (intro widen_fold_spans) auto
  then show ?thesis using False by (auto simp: plot_price_range_span Let_def spans_def)
qed (simp add: plot_price_range_span)

text \<open>What the plotter holds when it starts: four curves, and axes that read the time span.\<close>

lemma history_plotter_curves:
  assumes "get_time_span ops h = Some time_span"
  shows "\<exists>p. history_plotter tx ty ops h = Some p \<and> plotter_curves p = history_curves ops h \<and>
    plotter_axes p = history_axes time_span (plotter_axes (mk_plotter LINEAR LINEAR))"
  using assms by (simp add: history_plotter_def history_curves_def history_axes_def plotter_plot_def mk_plotter_def
    mk_axis_def)

end
