(* ===== verification/Sockets.thy ===== *)
theory Sockets
  imports Exceptions Model_Text
begin

text \<open>
  The client and the server over plain sockets (\<open>src/src/network/TCPClient.hpp\<close> and
  \<open>TCPServer.hpp\<close>). The sockets of the kernel are outside of the repository: what its calls
  return is given as a list of rounds, one for every turn of a loop, and a name, an address or
  the outcome of a connection attempt is a field of \<open>tcp_net\<close>. The outcome \<open>Overflow\<close> is an
  access beyond the memory that the caller gave, \<open>Waits\<close> that the kernel has nothing more yet.
\<close>

datatype 'a tcp_result = Returns 'a | Throws exn | Overflow | Waits

section \<open>Rounds\<close>

text \<open>
  What the calls of one turn observe: the result of \<open>recv\<close> or \<open>send\<close>, then the readiness that
  \<open>select\<close> reports, the bytes that \<open>ioctl\<close> counts, and the time.
\<close>

datatype 'a call = Failed string | Passed 'a

record 'a round =
  round_call :: "'a call"
  round_readable :: bool
  round_pending :: nat
  round_time :: int

definition is_closed :: "'a round \<Rightarrow> bool" where
  "is_closed r = (if \<not> round_readable r then False else round_pending r = 0)"

section \<open>The client\<close>

datatype select_result = Select_failed string | Select_timeout | Select_ready

record 'addr tcp_net =
  net_host :: "string \<Rightarrow> string + 'addr"
  net_socket :: "string + int"
  net_select :: "int \<Rightarrow> 'addr \<Rightarrow> int \<Rightarrow> int \<times> int \<Rightarrow> select_result"
  net_so_error :: "int option"
  net_strerror :: string
  net_O_NONBLOCK :: "32 word"

record tcp_client =
  tc_host :: string
  tc_port :: int
  tc_timeout :: double
  tc_sock :: int
  tc_flags :: "32 word"

definition set_blocking :: "32 word \<Rightarrow> bool \<Rightarrow> tcp_client \<Rightarrow> tcp_client" where
  "set_blocking nonblock is_blocking c =
     c\<lparr>tc_flags := tc_flags c AND (if is_blocking then NOT nonblock else nonblock)\<rparr>"

text \<open>The timeout as seconds and microseconds.\<close>

definition timeout_val :: "double \<Rightarrow> (int \<times> int) option" where
  "timeout_val t = Option.bind (d_to_signed 64 t) (\<lambda>s.
     Option.bind (d_to_signed 64 (t * lit 1000000)) (\<lambda>us. Some (s, c_rem us 1000000)))"

text \<open>An exception in the constructor leaves the socket open: no destructor runs.\<close>

definition mk_tcp_client :: "'addr tcp_net \<Rightarrow> string \<Rightarrow> int \<Rightarrow> double \<Rightarrow> (exn + tcp_client) option" where
  "mk_tcp_client net host port timeout =
     (case net_host net host of
        Inl e \<Rightarrow> Some (Inl (mk_exn TCPClientError [''TCPClient could not resolve host'', e, host, show_int port]))
      | Inr addr \<Rightarrow> (case net_socket net of
          Inl e \<Rightarrow> Some (Inl (mk_exn TCPClientError [''TCPClient could not initialize socket'', e, host, show_int port]))
        | Inr sock \<Rightarrow> Option.bind (timeout_val timeout) (\<lambda>tv.
            case net_select net sock addr (port mod 65536) tv of
              Select_failed e \<Rightarrow> Some (Inl (mk_exn TCPClientError [''TCPClient could not select socket'', e, host, show_int port]))
            | Select_timeout \<Rightarrow> Some (Inl (mk_exn TCPClientError
                [''TCPClient could not select socket'', ''timeout'', show_double timeout, host, show_int port]))
            | Select_ready \<Rightarrow>
                (if net_so_error net \<noteq> None
                 then Some (Inl (mk_exn TCPClientError [''TCPClient could not open socket'', net_strerror net, host, show_int port]))
                 else Some (Inr (set_blocking (net_O_NONBLOCK net) True
                   \<lparr>tc_host = host, tc_port = port, tc_timeout = timeout, tc_sock = sock, tc_flags = net_O_NONBLOCK net\<rparr>))))))"

definition client_closed_exn :: "int \<Rightarrow> exn" where
  "client_closed_exn sock = mk_exn TCPClientError [''TCPConnection got closed by client'', show_int sock]"

definition client_read_exn :: "int \<Rightarrow> string \<Rightarrow> exn" where
  "client_read_exn sock e = mk_exn TCPClientError [''TCPConnection could not read'', show_int sock, e]"

text \<open>
  \<open>recv\<close> is asked for \<open>size\<close> bytes at every turn, not for those that are missing: what it stores
  from \<open>offset\<close> on may go beyond the memory of \<open>size\<close> bytes.
\<close>

definition store_bytes :: "byte list \<Rightarrow> nat \<Rightarrow> byte list \<Rightarrow> byte list option" where
  "store_bytes memory offset d =
     (if offset + length d \<le> length memory
      then Some (take offset memory @ d @ drop (offset + length d) memory) else None)"

fun client_read :: "int \<Rightarrow> byte list \<Rightarrow> nat \<Rightarrow> byte list round list \<Rightarrow> (byte list \<times> byte list round list) tcp_result" where
  "client_read sock memory offset rounds =
     (if offset < length memory
      then case rounds of
        [] \<Rightarrow> Waits
      | r # rs \<Rightarrow> (case round_call r of
          Failed e \<Rightarrow> Throws (client_read_exn sock e)
        | Passed d \<Rightarrow> (case store_bytes memory offset d of
            None \<Rightarrow> Overflow
          | Some memory' \<Rightarrow>
              if is_closed r then Throws (client_closed_exn sock)
              else client_read sock memory' (offset + length d) rs))
      else Returns (memory, rounds))"

declare client_read.simps [simp del]

text \<open>Reading a text, in blocks of 4096 bytes, until a block is not full.\<close>

fun client_read_text :: "int \<Rightarrow> byte list round list \<Rightarrow> byte list \<Rightarrow> (byte list \<times> byte list round list) tcp_result" where
  "client_read_text sock [] str = Waits"
| "client_read_text sock (r # rs) str = (case round_call r of
     Failed e \<Rightarrow> Throws (client_read_exn sock e)
   | Passed d \<Rightarrow> (if length d = 4096 then client_read_text sock rs (str @ d) else Returns (str @ d, rs)))"

text \<open>One call of \<open>send\<close>, whose count is compared with \<open>-1\<close> only: \<open>Passed n\<close> sends \<open>n\<close> bytes.\<close>

definition client_write :: "tcp_client \<Rightarrow> byte list \<Rightarrow> nat call \<Rightarrow> byte list tcp_result" where
  "client_write c data outcome = (case outcome of
     Failed e \<Rightarrow> Throws (mk_exn TCPClientError
       [''TCPClient could not write data'', e, show_int (int (length data)), tc_host c, show_int (tc_port c)])
   | Passed n \<Rightarrow> Returns (take n data))"

section \<open>Connections of the server\<close>

record connection =
  conn_sock :: int
  conn_running :: bool
  conn_timeout :: int
  conn_endtime :: int
  conn_open :: bool

definition mk_connection :: "int \<Rightarrow> int \<Rightarrow> int \<Rightarrow> connection" where
  "mk_connection sock timeout now =
     \<lparr>conn_sock = sock, conn_running = True, conn_timeout = timeout, conn_endtime = timeout + now, conn_open = True\<rparr>"

definition start_timeout :: "int \<Rightarrow> connection \<Rightarrow> connection" where
  "start_timeout now c = c\<lparr>conn_endtime := conn_timeout c + now\<rparr>"

definition conn_exn :: "string list \<Rightarrow> exn" where
  "conn_exn texts = mk_exn TCPConnectionClosedException texts"

definition ensure_open :: "'a round \<Rightarrow> connection \<Rightarrow> exn option \<times> connection" where
  "ensure_open r c =
     (if conn_endtime c < round_time r
      then (Some (conn_exn [''TCPConnection timed out'', show_int (conn_sock c)]), c\<lparr>conn_running := False\<rparr>)
      else if is_closed r
      then (Some (conn_exn [''TCPConnection got closed by client'', show_int (conn_sock c)]), c\<lparr>conn_running := False\<rparr>)
      else (None, c))"

text \<open>
  Reading and writing loop until \<open>size\<close> bytes have passed, again with \<open>size\<close> in every call. The
  written bytes are taken from \<open>offset\<close> on, so sending more than the rest reads beyond the data.
\<close>

fun conn_read_loop ::
    "byte list \<Rightarrow> nat \<Rightarrow> byte list round list \<Rightarrow> connection \<Rightarrow> (byte list \<times> byte list round list) tcp_result \<times> connection" where
  "conn_read_loop memory offset rounds c =
     (if offset < length memory
      then case rounds of
        [] \<Rightarrow> (Waits, c)
      | r # rs \<Rightarrow> (case round_call r of
          Failed e \<Rightarrow> (Throws (conn_exn [''TCPConnection could not read'', show_int (conn_sock c), e]), c\<lparr>conn_running := False\<rparr>)
        | Passed d \<Rightarrow> (case store_bytes memory offset d of
            None \<Rightarrow> (Overflow, c)
          | Some memory' \<Rightarrow> (case ensure_open r c of
              (Some e, c') \<Rightarrow> (Throws e, c')
            | (None, c') \<Rightarrow> conn_read_loop memory' (offset + length d) rs c')))
      else (Returns (memory, rounds), c))"

declare conn_read_loop.simps [simp del]

definition conn_read ::
    "int \<Rightarrow> byte list \<Rightarrow> byte list round list \<Rightarrow> connection \<Rightarrow> (byte list \<times> byte list round list) tcp_result \<times> connection" where
  "conn_read now memory rounds c = conn_read_loop memory 0 rounds (start_timeout now c)"

fun conn_write_loop ::
    "byte list \<Rightarrow> nat \<Rightarrow> nat round list \<Rightarrow> connection \<Rightarrow> byte list \<Rightarrow> (byte list \<times> nat round list) tcp_result \<times> connection" where
  "conn_write_loop data offset rounds c out =
     (if offset < length data
      then case rounds of
        [] \<Rightarrow> (Waits, c)
      | r # rs \<Rightarrow> (case round_call r of
          Failed e \<Rightarrow> (Throws (conn_exn [''TCPConnection could not write'', show_int (conn_sock c), e]), c\<lparr>conn_running := False\<rparr>)
        | Passed n \<Rightarrow>
            if length data < offset + n then (Overflow, c)
            else (case ensure_open r c of
              (Some e, c') \<Rightarrow> (Throws e, c')
            | (None, c') \<Rightarrow> conn_write_loop data (offset + n) rs c' (out @ take n (drop offset data))))
      else (Returns (out, rounds), c))"

declare conn_write_loop.simps [simp del]

definition conn_write ::
    "int \<Rightarrow> byte list \<Rightarrow> nat round list \<Rightarrow> connection \<Rightarrow> (byte list \<times> nat round list) tcp_result \<times> connection" where
  "conn_write now data rounds c = conn_write_loop data 0 rounds (start_timeout now c) []"

text \<open>
  The loop of a connection's thread. A turn is what the handler makes of the connection (an
  answer, or the exception of a closed connection) and what the check after it observes; the
  socket is closed at the end, whatever ended the loop.
\<close>

record turn =
  turn_answer :: "connection \<Rightarrow> (exn + bool) \<times> connection"
  turn_round :: "unit round"

fun conn_loop :: "turn list \<Rightarrow> connection \<Rightarrow> (turn list \<times> connection) tcp_result" where
  "conn_loop turns c =
     (if \<not> conn_running c then Returns (turns, c\<lparr>conn_open := False\<rparr>)
      else case turns of
        [] \<Rightarrow> Waits
      | t # ts \<Rightarrow> (case turn_answer t c of
          (Inl e, c1) \<Rightarrow>
            if catches TCPConnectionClosedException (exn_class e)
            then Returns (ts, c1\<lparr>conn_running := False, conn_open := False\<rparr>) else Throws e
        | (Inr False, c1) \<Rightarrow> Returns (ts, c1\<lparr>conn_open := False\<rparr>)
        | (Inr True, c1) \<Rightarrow> (case ensure_open (turn_round t) c1 of
            (Some e, c2) \<Rightarrow> Returns (ts, c2\<lparr>conn_running := False, conn_open := False\<rparr>)
          | (None, c2) \<Rightarrow> conn_loop ts c2)))"

declare conn_loop.simps [simp del]

section \<open>The server\<close>

datatype family = INET6 | INET | Other_family

text \<open>The first address of version 6, else the last of version 4; without any, the code follows
  a null pointer.\<close>

fun accept_address :: "(family \<times> 'a) list \<Rightarrow> (family \<times> 'a) option \<Rightarrow> (family \<times> 'a) option" where
  "accept_address [] ai4 = ai4"
| "accept_address (a # as) ai4 =
     (if fst a = INET6 then Some a
      else if fst a = INET then accept_address as (Some a)
      else accept_address as ai4)"

record server =
  srv_running :: bool
  srv_timeout :: int
  srv_connections :: "connection list"

text \<open>A turn of the accepting loop: whether \<open>select\<close> returned something else than zero, what
  \<open>accept\<close> gave, and the time.\<close>

definition server_turn :: "(int \<times> int) option \<Rightarrow> server \<Rightarrow> server" where
  "server_turn accepted s = (if \<not> srv_running s then s else (case accepted of
     None \<Rightarrow> s
   | Some (sock, now) \<Rightarrow> s\<lparr>srv_connections := srv_connections s @ [mk_connection sock (srv_timeout s) now]\<rparr>))"

definition server_stop :: "server \<Rightarrow> server" where
  "server_stop s = s\<lparr>srv_running := False, srv_connections := []\<rparr>"

section \<open>Reading and writing in pieces\<close>

lemma store_bytes_prefix:
  assumes "take (length p) memory = p" "length p + length d \<le> length memory"
  obtains memory' where "store_bytes memory (length p) d = Some memory'" "length memory' = length memory"
    and "take (length (p @ d)) memory' = p @ d"
  using assms by (intro that[of "p @ d @ drop (length p + length d) memory"]) (auto simp: store_bytes_def min_def)

text \<open>
  What both readers share: they return when the memory is full, and a turn in time stores its
  piece and goes on, unless the peer has closed the connection.
\<close>

locale piecewise_reader =
  fixes rd :: "byte list \<Rightarrow> nat \<Rightarrow> byte list round list \<Rightarrow> (byte list \<times> byte list round list) tcp_result"
    and closed_exn :: exn and in_time :: "byte list round \<Rightarrow> bool"
  assumes full: "length memory \<le> offset \<Longrightarrow> rd memory offset rounds = Returns (memory, rounds)"
    and piece: "offset < length memory \<Longrightarrow> round_call r = Passed d \<Longrightarrow> in_time r \<Longrightarrow> rd memory offset (r # rs) =
      (case store_bytes memory offset d of None \<Rightarrow> Overflow
       | Some memory' \<Rightarrow> if is_closed r then Throws closed_exn else rd memory' (offset + length d) rs)"
begin

lemma reads_from:
  assumes "map round_call before = map Passed ds" "list_all (\<lambda>r. \<not> is_closed r) before" "round_call r = Passed d"
    and "list_all in_time (before @ [r])"
    and "take (length p) memory = p" "length (p @ concat ds) < length memory" "length memory \<le> length (p @ concat ds) + length d"
  shows "rd memory (length p) (before @ r # rest) =
    (if length memory < length (p @ concat ds) + length d then Overflow
     else if is_closed r then Throws closed_exn
     else Returns (p @ concat ds @ d, rest))"
  using assms
proof (induction before arbitrary: p memory ds)
  case Nil
  then have ds: "ds = []" by simp
  show ?case
  proof (cases "length memory < length p + length d")
    case True
    then show ?thesis using Nil by (simp add: piece ds store_bytes_def)
  next
    case False
    then have fits: "length p + length d \<le> length memory" by simp
    from store_bytes_prefix[OF Nil.prems(5) fits] obtain memory' where m: "store_bytes memory (length p) d = Some memory'"
        "length memory' = length memory" "take (length (p @ d)) memory' = p @ d" .
    have "memory' = p @ d" using m(2,3) False Nil.prems(7) by (simp add: ds)
    then show ?thesis
      using False Nil m(1) by (simp add: piece full ds)
  qed
next
  case (Cons b before)
  then obtain e es where ds: "ds = e # es" "round_call b = Passed e" "map round_call before = map Passed es"
    by (cases ds) auto
  have fits: "length p + length e \<le> length memory" using Cons.prems(6) by (simp add: ds)
  from store_bytes_prefix[OF Cons.prems(5) fits] obtain memory' where m: "store_bytes memory (length p) e = Some memory'"
      "length memory' = length memory" "take (length (p @ e)) memory' = p @ e" .
  show ?case
    using Cons.IH[of es "p @ e" memory'] Cons.prems m ds by (simp add: piece)
qed

lemma reads_all:
  assumes "map round_call before = map Passed ds" "list_all (\<lambda>r. \<not> is_closed r) before" "round_call r = Passed d"
    and "list_all in_time (before @ [r])" "length (concat ds) < length memory" "length memory \<le> length (concat ds) + length d"
  shows "rd memory 0 (before @ r # rest) =
    (if length memory < length (concat ds) + length d then Overflow
     else if is_closed r then Throws closed_exn
     else Returns (concat ds @ d, rest))"
  using reads_from[OF assms(1-4), of "[]" memory rest] assms(5,6) by simp

end

interpretation client: piecewise_reader "client_read sock" "client_closed_exn sock" "\<lambda>r. True" for sock
  by unfold_locales (subst client_read.simps, simp)+

interpretation conn: piecewise_reader "\<lambda>memory offset rounds. fst (conn_read_loop memory offset rounds c)"
    "conn_exn [''TCPConnection got closed by client'', show_int (conn_sock c)]" "\<lambda>r. round_time r \<le> conn_endtime c" for c
proof (unfold_locales, goal_cases)
  case (1 memory offset rounds)
  then show ?case by (subst conn_read_loop.simps) simp
next
  case (2 offset memory r d rs)
  then show ?case by (subst conn_read_loop.simps) (simp add: ensure_open_def split: option.split)
qed

text \<open>
  C34: When the bytes of a message come in pieces, reading it is right only when the last piece
  ends with the message: a longer one, which the call allows because it always asks for the
  whole size, is stored beyond the caller's memory. A message that is complete is also thrown
  away when the peer has closed the connection after it. This holds for the client, and for a
  connection of the server in time.
\<close>

theorem message_in_pieces:
  assumes "map round_call before = map Passed ds" "list_all (\<lambda>r. \<not> is_closed r) before" "round_call r = Passed d"
    and "length (concat ds) < length memory" "length memory \<le> length (concat ds) + length d"
  shows "client_read sock memory 0 (before @ r # rest) =
      (if length memory < length (concat ds) + length d then Overflow
       else if is_closed r then Throws (client_closed_exn sock)
       else Returns (concat ds @ d, rest)) \<and>
    (list_all (\<lambda>r. round_time r \<le> conn_timeout c + now) (before @ [r]) \<longrightarrow>
      fst (conn_read now memory (before @ r # rest) c) =
        (if length memory < length (concat ds) + length d then Overflow
         else if is_closed r then Throws (conn_exn [''TCPConnection got closed by client'', show_int (conn_sock c)])
         else Returns (concat ds @ d, rest)))"
  using client.reads_all[OF assms(1-3) _ assms(4,5), of sock rest]
    conn.reads_all[OF assms(1-3) _ assms(4,5), of "start_timeout now c" rest]
  by (simp add: conn_read_def start_timeout_def list_all_iff)

text \<open>Eight bytes that come as five and then five, the last two of another message.\<close>

theorem message_in_pieces_witness:
  "client_read 3 (replicate 8 0) 0
     [\<lparr>round_call = Passed (replicate 5 1), round_readable = False, round_pending = 0, round_time = 0\<rparr>,
      \<lparr>round_call = Passed (replicate 5 2), round_readable = False, round_pending = 0, round_time = 0\<rparr>] = Overflow"
  using message_in_pieces[of "[\<lparr>round_call = Passed (replicate 5 1), round_readable = False, round_pending = 0, round_time = 0\<rparr>]"
      "[replicate 5 1]" "\<lparr>round_call = Passed (replicate 5 2), round_readable = False, round_pending = 0, round_time = 0\<rparr>"
      "replicate 5 2" "replicate 8 0" 3 "[]"]
  by (simp add: is_closed_def)

text \<open>
  A closed client never becomes non-blocking: taking the flags together with the mask keeps
  only a bit that is not set.
\<close>

theorem blocking_stays:
  "tc_flags (set_blocking nb False (set_blocking nb True c)) = 0"
  by (simp add: set_blocking_def and.assoc)

text \<open>
  The loop of a connection ends with a closed socket, after at least as many turns as it takes
  the handler to refuse, to throw or to find the connection closed; it never overflows itself.
\<close>

theorem conn_loop_closes:
  "conn_loop turns c = Returns (rest, c') \<Longrightarrow> \<not> conn_open c' \<and> (\<exists>used. turns = used @ rest)"
proof (induction turns arbitrary: c)
  case Nil
  then show ?case by (subst (asm) conn_loop.simps) (auto split: if_splits)
next
  case (Cons t ts)
  then show ?case
    by (subst (asm) (2) conn_loop.simps)
      (auto split: if_splits sum.splits bool.splits prod.splits option.splits, (metis append_Cons append_Nil)+)
qed

theorem accept_address_choice:
  "accept_address as None = (case filter (\<lambda>a. fst a = INET6) as of a # _ \<Rightarrow> Some a
     | [] \<Rightarrow> (case rev (filter (\<lambda>a. fst a = INET) as) of a # _ \<Rightarrow> Some a | [] \<Rightarrow> None))"
proof -
  have "accept_address as ai4 = (case filter (\<lambda>a. fst a = INET6) as of a # _ \<Rightarrow> Some a
     | [] \<Rightarrow> (case rev (filter (\<lambda>a. fst a = INET) as) of a # _ \<Rightarrow> Some a | [] \<Rightarrow> ai4))" for ai4
    by (induction as arbitrary: ai4) (auto split: list.splits)
  then show ?thesis by simp
qed

end
