(* ===== verification/Json.thy ===== *)
theory Json
  imports Double_Int Stdio Exceptions
begin

text \<open>
  The JSON values of \<open>src/src/json.hpp\<close>, a copy of the library nlohmann::json in which the
  constant operator \<open>[]\<close> was changed to throw the \<open>KeyException\<close> of this program: the type of
  values, the exceptions of the library, access to members, conversions, construction from
  initialiser lists, and equality. \<open>None\<close> stands for a conversion without defined behaviour.
\<close>

section \<open>Strings in order\<close>

text \<open>The order of \<open>std::string\<close>: bytes from left to right, a prefix first.\<close>

fun string_less :: "string \<Rightarrow> string \<Rightarrow> bool" where
  "string_less [] [] = False"
| "string_less [] (d # t) = True"
| "string_less (c # s) [] = False"
| "string_less (c # s) (d # t) =
     (if of_char c < (of_char d :: nat) then True else if of_char d < (of_char c :: nat) then False else string_less s t)"

lemma string_less_lex:
  "string_less s t \<longleftrightarrow> (map (of_char :: char \<Rightarrow> nat) s, map of_char t) \<in> lexord {(a, b). a < b}"
  by (induction s t rule: string_less.induct) auto

interpretation strings: total_order string_less "\<lambda>_. True"
proof (unfold_locales, goal_cases)
  case (1 x)
  show ?case unfolding string_less_lex by (rule lexord_irreflexive) simp
next
  case (2 x y z)
  have "trans {(a, b :: nat). a < b}" by (auto simp: trans_def)
  then show ?case using 2(4,5) unfolding string_less_lex by (blast intro: lexord_trans)
next
  case (3 x y z)
  have "(u, v) \<in> lexord {(a, b). a < b} \<or> u = v \<or> (v, u) \<in> lexord {(a, b). a < b}" for u v :: "nat list"
    by (rule lexord_linear) auto
  moreover have "trans {(a, b :: nat). a < b}" by (auto simp: trans_def)
  ultimately show ?case using 3(4) unfolding string_less_lex by (metis lexord_trans)
next
  case (4 x y)
  have "(u, v) \<in> lexord {(a, b). a < b} \<or> u = v \<or> (v, u) \<in> lexord {(a, b). a < b}" for u v :: "nat list"
    by (rule lexord_linear) auto
  then have "map (of_char :: char \<Rightarrow> nat) x = map of_char y" using 4(3,4) unfolding string_less_lex by blast
  then show ?case by (metis list.inj_map_strong of_char_eq_iff)
qed

lemma string_less_neq: "string_less a b \<or> string_less b a \<longleftrightarrow> a \<noteq> b"
  using strings.total strings.irrefl by metis

section \<open>Values\<close>

datatype value_t = V_null | V_object | V_array | V_string | V_boolean | V_number_integer
  | V_number_unsigned | V_number_float | V_discarded

text \<open>An object is a \<open>std::map\<close> from strings: the list is sorted by keys, each key there once.\<close>

datatype json =
    Json_null
  | Json_object "(string \<times> json) list"
  | Json_array "json list"
  | Json_string string
  | Json_boolean bool
  | Json_integer "64 word"
  | Json_unsigned uint64
  | Json_float double
  | Json_discarded

fun json_type :: "json \<Rightarrow> value_t" where
  "json_type Json_null = V_null"
| "json_type (Json_object m) = V_object"
| "json_type (Json_array xs) = V_array"
| "json_type (Json_string s) = V_string"
| "json_type (Json_boolean b) = V_boolean"
| "json_type (Json_integer i) = V_number_integer"
| "json_type (Json_unsigned u) = V_number_unsigned"
| "json_type (Json_float x) = V_number_float"
| "json_type Json_discarded = V_discarded"

fun json_type_name :: "json \<Rightarrow> string" where
  "json_type_name Json_null = ''null''"
| "json_type_name (Json_object m) = ''object''"
| "json_type_name (Json_array xs) = ''array''"
| "json_type_name (Json_string s) = ''string''"
| "json_type_name (Json_boolean b) = ''boolean''"
| "json_type_name Json_discarded = ''discarded''"
| "json_type_name _ = ''number''"

section \<open>Exceptions\<close>

text \<open>The exceptions of the library, with their identifiers, that of the program, and the others.\<close>

datatype json_exn =
    Parse_error nat nat string
  | Type_error nat string
  | Out_of_range nat string
  | Key_error exn
  | Std_exception string

text \<open>The text that \<open>what\<close> gives.\<close>

definition exception_name :: "string \<Rightarrow> nat \<Rightarrow> string" where
  "exception_name ename eid = ''[json.exception.'' @ ename @ ''.'' @ show_nat eid @ ''] ''"

fun json_what :: "json_exn \<Rightarrow> string" where
  "json_what (Parse_error eid byte arg) = exception_name ''parse_error'' eid @ ''parse error'' @
     (if byte \<noteq> 0 then '' at '' @ show_nat byte else '''') @ '': '' @ arg"
| "json_what (Type_error eid arg) = exception_name ''type_error'' eid @ arg"
| "json_what (Out_of_range eid arg) = exception_name ''out_of_range'' eid @ arg"
| "json_what (Key_error e) = what e"
| "json_what (Std_exception m) = m"

type_synonym 'a json_result = "json_exn + 'a"

fun json_bind :: "'a json_result \<Rightarrow> ('a \<Rightarrow> 'b json_result) \<Rightarrow> 'b json_result" where
  "json_bind (Inl e) f = Inl e"
| "json_bind (Inr x) f = f x"

section \<open>Objects\<close>

definition object_find :: "string \<Rightarrow> (string \<times> json) list \<Rightarrow> json option" where
  "object_find key m =
     map_option snd (List.find (\<lambda>e. \<not> string_less (fst e) key \<and> \<not> string_less key (fst e)) m)"

text \<open>\<open>emplace\<close> leaves a value that the key already has.\<close>

fun object_emplace :: "string \<Rightarrow> json \<Rightarrow> (string \<times> json) list \<Rightarrow> (string \<times> json) list" where
  "object_emplace key value [] = [(key, value)]"
| "object_emplace key value (e # m) =
     (if string_less key (fst e) then (key, value) # e # m
      else if string_less (fst e) key then e # object_emplace key value m
      else e # m)"

section \<open>Access and conversion\<close>

text \<open>The operator \<open>[]\<close> of a constant value with a key: the change of this copy of the library.\<close>

fun json_at :: "json \<Rightarrow> string \<Rightarrow> json json_result" where
  "json_at (Json_object m) key =
     (case object_find key m of
        None \<Rightarrow> Inl (Key_error (mk_exn KeyException [key]))
      | Some v \<Rightarrow> Inr v)"
| "json_at j key = Inl (Type_error 305 (''cannot use operator[] with '' @ json_type_name j))"

fun json_get_string :: "json \<Rightarrow> string json_result" where
  "json_get_string (Json_string s) = Inr s"
| "json_get_string j = Inl (Type_error 302 (''type must be string, but is '' @ json_type_name j))"

text \<open>
  \<open>get_arithmetic_value\<close>, for the numbers that the program reads: a double, and an unsigned
  integer, where a floating-point value must fit.
\<close>

fun json_get_double :: "json \<Rightarrow> double json_result" where
  "json_get_double (Json_unsigned u) = Inr (lit (uint u))"
| "json_get_double (Json_integer i) = Inr (lit (sint i))"
| "json_get_double (Json_float x) = Inr x"
| "json_get_double j = Inl (Type_error 302 (''type must be number, but is '' @ json_type_name j))"

definition d_to_u64 :: "double \<Rightarrow> uint64 option" where
  "d_to_u64 x = Option.bind (d_trunc x) (\<lambda>i. if 0 \<le> i \<and> i < 2 ^ 64 then Some (word_of_int i) else None)"

fun json_get_unsigned :: "json \<Rightarrow> uint64 json_result option" where
  "json_get_unsigned (Json_unsigned u) = Some (Inr u)"
| "json_get_unsigned (Json_integer i) = Some (Inr i)"
| "json_get_unsigned (Json_float x) = map_option Inr (d_to_u64 x)"
| "json_get_unsigned j = Some (Inl (Type_error 302 (''type must be number, but is '' @ json_type_name j)))"

section \<open>Initialiser lists\<close>

text \<open>A list of pairs that start with a string is an object, any other one an array.\<close>

fun is_pair :: "json \<Rightarrow> bool" where
  "is_pair (Json_array [Json_string s, v]) = True"
| "is_pair j = False"

fun emplace_pair :: "json \<Rightarrow> (string \<times> json) list \<Rightarrow> (string \<times> json) list" where
  "emplace_pair (Json_array [Json_string s, v]) m = object_emplace s v m"
| "emplace_pair j m = m"

definition json_of_list :: "json list \<Rightarrow> json" where
  "json_of_list init = (if list_all is_pair init then Json_object (fold emplace_pair init []) else Json_array init)"

section \<open>Equality\<close>

text \<open>
  Numbers of different types are converted: an unsigned value is compared with a signed one
  as a signed one, and any integer with a floating-point value as one.
\<close>

fun json_eq :: "json \<Rightarrow> json \<Rightarrow> bool" and json_list_eq :: "json list \<Rightarrow> json list \<Rightarrow> bool"
  and json_object_eq :: "(string \<times> json) list \<Rightarrow> (string \<times> json) list \<Rightarrow> bool" where
  "json_eq (Json_array xs) j = (case j of Json_array ys \<Rightarrow> json_list_eq xs ys | _ \<Rightarrow> False)"
| "json_eq (Json_object m) j = (case j of Json_object n \<Rightarrow> json_object_eq m n | _ \<Rightarrow> False)"
| "json_eq Json_null j = (j = Json_null)"
| "json_eq (Json_string s) j = (case j of Json_string t \<Rightarrow> s = t | _ \<Rightarrow> False)"
| "json_eq (Json_boolean b) j = (case j of Json_boolean c \<Rightarrow> b = c | _ \<Rightarrow> False)"
| "json_eq (Json_integer i) j = (case j of
      Json_integer k \<Rightarrow> i = k
    | Json_unsigned v \<Rightarrow> i = v
    | Json_float y \<Rightarrow> d_eq (lit (sint i)) y
    | _ \<Rightarrow> False)"
| "json_eq (Json_unsigned u) j = (case j of
      Json_unsigned v \<Rightarrow> u = v
    | Json_integer k \<Rightarrow> u = k
    | Json_float y \<Rightarrow> d_eq (lit (uint u)) y
    | _ \<Rightarrow> False)"
| "json_eq (Json_float x) j = (case j of
      Json_float y \<Rightarrow> d_eq x y
    | Json_integer k \<Rightarrow> d_eq x (lit (sint k))
    | Json_unsigned v \<Rightarrow> d_eq x (lit (uint v))
    | _ \<Rightarrow> False)"
| "json_eq Json_discarded j = False"
| "json_list_eq [] ys = (ys = [])"
| "json_list_eq (x # xs) ys = (case ys of [] \<Rightarrow> False | y # ys \<Rightarrow> json_eq x y \<and> json_list_eq xs ys)"
| "json_object_eq [] n = (n = [])"
| "json_object_eq ((k, x) # m) n = (case n of [] \<Rightarrow> False | (l, y) # n \<Rightarrow> k = l \<and> json_eq x y \<and> json_object_eq m n)"

text \<open>The overload for scalars, at the type \<open>int\<close>.\<close>

definition json_eq_int :: "json \<Rightarrow> int \<Rightarrow> bool" where
  "json_eq_int j i = json_eq j (Json_integer (word_of_int i))"

section \<open>Lemmas\<close>

definition object_sorted :: "(string \<times> json) list \<Rightarrow> bool" where
  "object_sorted m = sorted_wrt (\<lambda>a b. string_less (fst a) (fst b)) m"

lemma object_find_map_of: "object_find key m = map_of m key"
proof -
  have "(\<not> string_less a key \<and> \<not> string_less key a) = (a = key)" for a using string_less_neq by blast
  then show ?thesis
    unfolding object_find_def by (induction m) auto
qed

lemma string_less_trans: "string_less a b \<Longrightarrow> string_less b c \<Longrightarrow> string_less a c"
  using strings.trans[OF TrueI TrueI TrueI] by blast

lemma string_less_irrefl [simp]: "\<not> string_less a a"
  using strings.irrefl by blast

lemma object_sorted_keys: "object_sorted m \<Longrightarrow> distinct (map fst m)"
  unfolding object_sorted_def by (induction m) auto

text \<open>A new key enters at its place and changes no other; an old one keeps its value.\<close>

lemma object_emplace_keys: "fst ` set (object_emplace key value m) = insert key (fst ` set m)"
  using string_less_neq by (induction m) auto

lemma object_emplace_sorted: "object_sorted m \<Longrightarrow> object_sorted (object_emplace key v m)"
proof (induction m)
  case (Cons e m)
  then have e: "\<forall>b \<in> set m. string_less (fst e) (fst b)" and m: "object_sorted m" by (simp_all add: object_sorted_def)
  have "string_less (fst e) (fst b)" if "string_less (fst e) key" "b \<in> set (object_emplace key v m)" for b
    using that e object_emplace_keys[of key v m] by (metis image_iff imageI insertE)
  moreover have "\<forall>b \<in> set m. string_less key (fst b)" if "string_less key (fst e)"
    using that e string_less_trans by blast
  ultimately show ?case using Cons m e by (auto simp: object_sorted_def)
qed (simp add: object_sorted_def)

lemma object_emplace_find:
  assumes "object_sorted m"
  shows "map_of (object_emplace key value m) k =
    (if k = key \<and> map_of m key = None then Some value else map_of m k)"
  using assms
proof (induction m)
  case (Cons e m)
  then have e: "\<forall>b \<in> set m. string_less (fst e) (fst b)" and m: "object_sorted m" by (simp_all add: object_sorted_def)
  have "key \<notin> fst ` set m" "fst e \<noteq> key" if "string_less key (fst e)"
    using that e string_less_trans string_less_irrefl by (fastforce, auto)
  then have "map_of m key = None" "fst e \<noteq> key" if "string_less key (fst e)"
    using that by (simp_all add: map_of_eq_None_iff)
  moreover have "fst e = key" if "\<not> string_less key (fst e)" "\<not> string_less (fst e) key"
    using that string_less_neq by blast
  ultimately show ?case using Cons.IH[OF m] by (cases e) auto
qed simp

text \<open>An emplaced key greater than all others goes to the end.\<close>

lemma object_emplace_end: "object_sorted (m @ [(key, value)]) \<Longrightarrow> object_emplace key value m = m @ [(key, value)]"
proof (induction m)
  case (Cons e m)
  then have "string_less (fst e) key" by (simp add: object_sorted_def sorted_wrt_append)
  moreover have "\<not> string_less key (fst e)" using calculation string_less_trans string_less_irrefl by blast
  ultimately show ?case using Cons by (simp add: object_sorted_def)
qed simp

end
