(* ===== verification/Json_Lexer.thy ===== *)
theory Json_Lexer
  imports Json
begin

text \<open>
  The lexical analysis of JSON texts (class \<open>lexer\<close> of \<open>src/src/json.hpp\<close>) over a buffer of
  bytes. A character is a byte, and the end of the input is \<open>None\<close>. The process runs in the
  locale "C", which it never changes, so the decimal point is a point.
\<close>

section \<open>Tokens and state\<close>

datatype token = T_uninitialized | T_literal_true | T_literal_false | T_literal_null
  | T_value_string | T_value_unsigned | T_value_integer | T_value_float
  | T_begin_array | T_begin_object | T_end_array | T_end_object
  | T_name_separator | T_value_separator | T_parse_error | T_end_of_input | T_literal_or_value

fun token_type_name :: "token \<Rightarrow> string" where
  "token_type_name T_uninitialized = ''<uninitialized>''"
| "token_type_name T_literal_true = ''true literal''"
| "token_type_name T_literal_false = ''false literal''"
| "token_type_name T_literal_null = ''null literal''"
| "token_type_name T_value_string = ''string literal''"
| "token_type_name T_value_unsigned = ''number literal''"
| "token_type_name T_value_integer = ''number literal''"
| "token_type_name T_value_float = ''number literal''"
| "token_type_name T_begin_array = [CHR 0x27, CHR 0x5B, CHR 0x27]"
| "token_type_name T_begin_object = [CHR 0x27, CHR 0x7B, CHR 0x27]"
| "token_type_name T_end_array = [CHR 0x27, CHR 0x5D, CHR 0x27]"
| "token_type_name T_end_object = [CHR 0x27, CHR 0x7D, CHR 0x27]"
| "token_type_name T_name_separator = [CHR 0x27, CHR 0x3A, CHR 0x27]"
| "token_type_name T_value_separator = [CHR 0x27, CHR 0x2C, CHR 0x27]"
| "token_type_name T_parse_error = ''<parse error>''"
| "token_type_name T_end_of_input = ''end of input''"
| "token_type_name T_literal_or_value =
     [CHR 0x27, CHR 0x5B, CHR 0x27] @ '', '' @ [CHR 0x27, CHR 0x7B, CHR 0x27] @ '', or a literal''"

text \<open>The adapter of a buffer is the buffer and the position of its cursor.\<close>

record lexer =
  lx_buffer :: string
  lx_cursor :: nat
  lx_current :: "char option"
  lx_chars_read :: nat
  lx_token_string :: string
  lx_yytext :: string
  lx_error_message :: string
  lx_value_integer :: "64 word"
  lx_value_unsigned :: uint64
  lx_value_float :: double

text \<open>A byte order mark at the beginning is skipped.\<close>

definition adapter_cursor :: "string \<Rightarrow> nat" where
  "adapter_cursor s = (if 3 \<le> length s \<and> take 3 s = [CHR 0xEF, CHR 0xBB, CHR 0xBF] then 3 else 0)"

definition mk_lexer :: "string \<Rightarrow> lexer" where
  "mk_lexer s = \<lparr>lx_buffer = s, lx_cursor = adapter_cursor s, lx_current = None, lx_chars_read = 0,
     lx_token_string = [], lx_yytext = [], lx_error_message = [], lx_value_integer = 0,
     lx_value_unsigned = 0, lx_value_float = 0\<rparr>"

definition ia_get_character :: "lexer \<Rightarrow> char option" where
  "ia_get_character lx = (if lx_cursor lx < length (lx_buffer lx) then Some (lx_buffer lx ! lx_cursor lx) else None)"

definition lx_get :: "lexer \<Rightarrow> lexer" where
  "lx_get lx = (case ia_get_character lx of
     None \<Rightarrow> lx\<lparr>lx_chars_read := lx_chars_read lx + 1, lx_current := None\<rparr>
   | Some c \<Rightarrow> lx\<lparr>lx_cursor := lx_cursor lx + 1, lx_chars_read := lx_chars_read lx + 1, lx_current := Some c,
       lx_token_string := lx_token_string lx @ [c]\<rparr>)"

definition lx_unget :: "lexer \<Rightarrow> lexer" where
  "lx_unget lx = (let lx = lx\<lparr>lx_chars_read := lx_chars_read lx - 1\<rparr> in
     if lx_current lx \<noteq> None
     then lx\<lparr>lx_cursor := lx_cursor lx - 1, lx_token_string := butlast (lx_token_string lx)\<rparr>
     else lx)"

definition lx_add :: "char \<Rightarrow> lexer \<Rightarrow> lexer" where
  "lx_add c lx = lx\<lparr>lx_yytext := lx_yytext lx @ [c]\<rparr>"

text \<open>The end of the input becomes the byte \<open>0xFF\<close>, but no token begins with it.\<close>

definition lx_reset :: "lexer \<Rightarrow> lexer" where
  "lx_reset lx = lx\<lparr>lx_yytext := [],
     lx_token_string := [case lx_current lx of Some c \<Rightarrow> c | None \<Rightarrow> CHR 0xFF]\<rparr>"

definition lx_add_current :: "lexer \<Rightarrow> lexer" where
  "lx_add_current lx = lx_add (case lx_current lx of Some c \<Rightarrow> c | None \<Rightarrow> CHR 0xFF) lx"

definition lx_fail :: "string \<Rightarrow> lexer \<Rightarrow> token \<times> lexer" where
  "lx_fail m lx = (T_parse_error, lx\<lparr>lx_error_message := m\<rparr>)"

text \<open>The last token for messages, control characters escaped.\<close>

definition hex_digit :: "nat \<Rightarrow> char" where
  "hex_digit n = (if n < 10 then char_of (48 + n) else char_of (55 + n))"

definition token_text :: "lexer \<Rightarrow> string" where
  "token_text lx = concat (map (\<lambda>c. let n = (of_char c :: nat) in
     if n \<le> 31 then ''<U+00'' @ [hex_digit (n div 16), hex_digit (n mod 16)] @ ''>'' else [c]) (lx_token_string lx))"

section \<open>Strings\<close>

definition hex_code :: "char option \<Rightarrow> int option" where
  "hex_code c = (case c of None \<Rightarrow> None | Some c \<Rightarrow> let n = (of_char c :: int) in
     if 48 \<le> n \<and> n \<le> 57 then Some (n - 48)
     else if 65 \<le> n \<and> n \<le> 70 then Some (n - 55)
     else if 97 \<le> n \<and> n \<le> 102 then Some (n - 87) else None)"

fun codepoint_loop :: "nat list \<Rightarrow> int \<Rightarrow> lexer \<Rightarrow> int \<times> lexer" where
  "codepoint_loop [] codepoint lx = (codepoint, lx)"
| "codepoint_loop (f # fs) codepoint lx =
     (let lx = lx_get lx in
      case hex_code (lx_current lx) of
        None \<Rightarrow> (- 1, lx)
      | Some d \<Rightarrow> codepoint_loop fs (codepoint + push_bit f d) lx)"

definition get_codepoint :: "lexer \<Rightarrow> int \<times> lexer" where
  "get_codepoint lx = codepoint_loop [12, 8, 4, 0] 0 lx"

text \<open>The current byte is added; then each range takes one byte.\<close>

fun bytes_in_range :: "(nat \<times> nat) list \<Rightarrow> lexer \<Rightarrow> bool \<times> lexer" where
  "bytes_in_range [] lx = (True, lx)"
| "bytes_in_range ((lo, hi) # rs) lx =
     (let lx = lx_get lx in
      case lx_current lx of
        Some c \<Rightarrow> if lo \<le> of_char c \<and> of_char c \<le> hi then bytes_in_range rs (lx_add c lx)
          else (False, lx\<lparr>lx_error_message := ''invalid string: ill-formed UTF-8 byte''\<rparr>)
      | None \<Rightarrow> (False, lx\<lparr>lx_error_message := ''invalid string: ill-formed UTF-8 byte''\<rparr>))"

definition next_byte_in_range :: "(nat \<times> nat) list \<Rightarrow> lexer \<Rightarrow> bool \<times> lexer" where
  "next_byte_in_range ranges lx = bytes_in_range ranges (lx_add_current lx)"

text \<open>The bytes of a code point in UTF-8.\<close>

definition codepoint_bytes :: "int \<Rightarrow> string" where
  "codepoint_bytes cp =
     (let byte = (\<lambda>i. char_of (i :: int)) in
      if cp < 0x80 then [byte cp]
      else if cp \<le> 0x7FF then [byte (0xC0 OR drop_bit 6 cp), byte (0x80 OR (cp AND 0x3F))]
      else if cp \<le> 0xFFFF
      then [byte (0xE0 OR drop_bit 12 cp), byte (0x80 OR (drop_bit 6 cp AND 0x3F)), byte (0x80 OR (cp AND 0x3F))]
      else [byte (0xF0 OR drop_bit 18 cp), byte (0x80 OR (drop_bit 12 cp AND 0x3F)),
            byte (0x80 OR (drop_bit 6 cp AND 0x3F)), byte (0x80 OR (cp AND 0x3F))])"

definition add_codepoint :: "int \<Rightarrow> lexer \<Rightarrow> lexer" where
  "add_codepoint cp lx = fold lx_add (codepoint_bytes cp) lx"

text \<open>
  The escape \<open>u\<close>. A result \<open>None\<close> goes on with the string. The second half of a surrogate
  pair is asked for by \<open>get() == '\' and get() == 'u'\<close>, which reads one character or two.
\<close>

definition scan_unicode :: "lexer \<Rightarrow> token option \<times> lexer" where
  "scan_unicode lx =
     (let stop = (\<lambda>m lx. case lx_fail m lx of (t, lx) \<Rightarrow> (Some t, lx));
          hexes = ''invalid string: '' @ [CHR 0x27, CHR 0x5C] @ ''u'' @ [CHR 0x27] @ '' must be followed by 4 hex digits'';
          pair = ''invalid string: surrogate U+DC00..U+DFFF must be followed by U+DC00..U+DFFF'';
          alone = ''invalid string: surrogate U+DC00..U+DFFF must follow U+D800..U+DBFF'';
          (codepoint1, lx) = get_codepoint lx in
      if codepoint1 = - 1 then stop hexes lx
      else if 0xD800 \<le> codepoint1 \<and> codepoint1 \<le> 0xDBFF
      then let lx = lx_get lx in
        if lx_current lx \<noteq> Some (CHR 0x5C) then stop pair lx
        else let lx = lx_get lx in
          if lx_current lx \<noteq> Some CHR ''u'' then stop pair lx
          else let (codepoint2, lx) = get_codepoint lx in
            if codepoint2 = - 1 then stop hexes lx
            else if 0xDC00 \<le> codepoint2 \<and> codepoint2 \<le> 0xDFFF
            then (None, add_codepoint (push_bit 10 codepoint1 + codepoint2 - 0x35FDC00) lx)
            else stop pair lx
      else if 0xDC00 \<le> codepoint1 \<and> codepoint1 \<le> 0xDFFF then stop alone lx
      else (None, add_codepoint codepoint1 lx))"

definition scan_escape :: "lexer \<Rightarrow> token option \<times> lexer" where
  "scan_escape lx =
     (let lx = lx_get lx in
      case lx_current lx of
        None \<Rightarrow> (Some T_parse_error, lx\<lparr>lx_error_message := ''invalid string: forbidden character after backslash''\<rparr>)
      | Some c \<Rightarrow>
          if c = CHR 0x22 then (None, lx_add c lx)
          else if c = CHR 0x5C then (None, lx_add c lx)
          else if c = CHR ''/'' then (None, lx_add c lx)
          else if c = CHR ''b'' then (None, lx_add (CHR 0x08) lx)
          else if c = CHR ''f'' then (None, lx_add (CHR 0x0C) lx)
          else if c = CHR ''n'' then (None, lx_add (CHR 0x0A) lx)
          else if c = CHR ''r'' then (None, lx_add (CHR 0x0D) lx)
          else if c = CHR ''t'' then (None, lx_add (CHR 0x09) lx)
          else if c = CHR ''u'' then scan_unicode lx
          else (Some T_parse_error, lx\<lparr>lx_error_message := ''invalid string: forbidden character after backslash''\<rparr>))"

text \<open>The ranges of the bytes that follow the first byte of a multi-byte character, by that byte.\<close>

definition follow_ranges :: "nat \<Rightarrow> (nat \<times> nat) list option" where
  "follow_ranges n =
     (if 0xC2 \<le> n \<and> n \<le> 0xDF then Some [(0x80, 0xBF)]
      else if n = 0xE0 then Some [(0xA0, 0xBF), (0x80, 0xBF)]
      else if (0xE1 \<le> n \<and> n \<le> 0xEC) \<or> n = 0xEE \<or> n = 0xEF then Some [(0x80, 0xBF), (0x80, 0xBF)]
      else if n = 0xED then Some [(0x80, 0x9F), (0x80, 0xBF)]
      else if n = 0xF0 then Some [(0x90, 0xBF), (0x80, 0xBF), (0x80, 0xBF)]
      else if 0xF1 \<le> n \<and> n \<le> 0xF3 then Some [(0x80, 0xBF), (0x80, 0xBF), (0x80, 0xBF)]
      else if n = 0xF4 then Some [(0x80, 0x8F), (0x80, 0xBF), (0x80, 0xBF)]
      else None)"

text \<open>One turn of the loop; \<open>None\<close> goes round again.\<close>

definition scan_string_turn :: "lexer \<Rightarrow> token option \<times> lexer" where
  "scan_string_turn lx =
     (let lx = lx_get lx in
      case lx_current lx of
        None \<Rightarrow> (Some T_parse_error, lx\<lparr>lx_error_message := ''invalid string: missing closing quote''\<rparr>)
      | Some c \<Rightarrow> let n = (of_char c :: nat) in
          if c = CHR 0x22 then (Some T_value_string, lx)
          else if c = CHR 0x5C then scan_escape lx
          else if n \<le> 0x1F
          then (Some T_parse_error, lx\<lparr>lx_error_message := ''invalid string: control character must be escaped''\<rparr>)
          else if n \<le> 0x7F then (None, lx_add c lx)
          else case follow_ranges n of
            Some rs \<Rightarrow> (case next_byte_in_range rs lx of
              (True, lx) \<Rightarrow> (None, lx) | (False, lx) \<Rightarrow> (Some T_parse_error, lx))
          | None \<Rightarrow> (Some T_parse_error, lx\<lparr>lx_error_message := ''invalid string: ill-formed UTF-8 byte''\<rparr>))"

section \<open>Progress\<close>

text \<open>Reading only moves the cursor on; what is left of the input bounds the loops.\<close>

definition lx_left :: "lexer \<Rightarrow> nat" where
  "lx_left lx = length (lx_buffer lx) - lx_cursor lx"

definition moves_on :: "lexer \<Rightarrow> lexer \<Rightarrow> bool" where
  "moves_on lx lx' \<longleftrightarrow> lx_buffer lx' = lx_buffer lx \<and> lx_cursor lx \<le> lx_cursor lx'"

lemma moves_on_refl [simp]: "moves_on lx lx"
  by (simp add: moves_on_def)

lemma moves_on_trans: "moves_on a b \<Longrightarrow> moves_on b c \<Longrightarrow> moves_on a c"
  by (auto simp: moves_on_def)

lemma moves_on_left: "moves_on lx lx' \<Longrightarrow> lx_left lx' \<le> lx_left lx"
  by (auto simp: moves_on_def lx_left_def)

lemma moves_on_get [simp]: "moves_on lx (lx_get lx)"
  by (simp add: moves_on_def lx_get_def split: option.split)

lemma moves_on_fields [simp]:
  "moves_on a (b\<lparr>lx_error_message := m\<rparr>) = moves_on a b" "moves_on a (b\<lparr>lx_yytext := s\<rparr>) = moves_on a b"
  "moves_on a (lx_add c b) = moves_on a b" "moves_on a (lx_add_current b) = moves_on a b"
  "moves_on a (lx_reset b) = moves_on a b" "moves_on (lx_reset b) a = moves_on b a"
  "moves_on (lx_add c b) a = moves_on b a"
  by (simp_all add: moves_on_def lx_add_def lx_add_current_def lx_reset_def)

lemma moves_on_get2: "moves_on a b \<Longrightarrow> moves_on a (lx_get b)"
  using moves_on_trans moves_on_get by blast

lemma lx_get_left: "lx_current (lx_get lx) \<noteq> None \<Longrightarrow> lx_left (lx_get lx) < lx_left lx"
  by (auto simp: lx_get_def lx_left_def ia_get_character_def split: option.splits if_splits)

lemma codepoint_loop_moves: "moves_on lx (snd (codepoint_loop fs cp lx))"
proof (induction fs cp lx rule: codepoint_loop.induct)
  case (2 f fs cp lx)
  then show ?case by (auto simp: Let_def split: option.split intro: moves_on_trans[OF moves_on_get])
qed simp

lemma bytes_in_range_moves: "moves_on lx (snd (bytes_in_range rs lx))"
proof (induction rs lx rule: bytes_in_range.induct)
  case (2 lo hi rs lx)
  show ?case
  proof (cases "lx_current (lx_get lx)")
    case (Some c)
    then show ?thesis using "2.IH"[OF refl Some] by (auto simp: Let_def intro: moves_on_trans[OF moves_on_get])
  qed simp
qed simp

lemma add_codepoint_moves [simp]: "moves_on a (add_codepoint cp b) = moves_on a b"
proof -
  have "moves_on a (fold lx_add s b) = moves_on a b" for s by (induction s arbitrary: b) simp_all
  then show ?thesis by (simp add: add_codepoint_def)
qed

lemma get_codepoint_moves: "get_codepoint lx = (cp, lx') \<Longrightarrow> moves_on lx lx'"
  using codepoint_loop_moves[of lx "[12, 8, 4, 0]" 0] by (simp add: get_codepoint_def)

lemma scan_unicode_moves: "moves_on lx (snd (scan_unicode lx))"
proof -
  obtain c1 l1 where 1: "get_codepoint lx = (c1, l1)" by fastforce
  obtain c2 l2 where 2: "get_codepoint (lx_get (lx_get l1)) = (c2, l2)" by fastforce
  have m: "moves_on lx l1" "moves_on lx (lx_get l1)" "moves_on lx (lx_get (lx_get l1))" "moves_on lx l2"
    using get_codepoint_moves[OF 1] get_codepoint_moves[OF 2] moves_on_get2 moves_on_trans by blast+
  show ?thesis using m by (simp add: scan_unicode_def 1 2 Let_def lx_fail_def)
qed

lemma scan_string_turn_moves: "moves_on (lx_get lx) (snd (scan_string_turn lx))"
proof -
  have "moves_on lx (snd (scan_escape lx))" for lx
    unfolding scan_escape_def Let_def
    by (cases "lx_current (lx_get lx)") (auto intro: moves_on_trans[OF moves_on_get] scan_unicode_moves)
  moreover have "next_byte_in_range rs l = (ok, l') \<Longrightarrow> moves_on l l'" for rs l ok l'
    using bytes_in_range_moves[of "lx_add_current l" rs]
    by (simp add: next_byte_in_range_def moves_on_def lx_add_current_def lx_add_def)
  ultimately show ?thesis
    unfolding scan_string_turn_def Let_def
    by (cases "lx_current (lx_get lx)") (auto split: option.split prod.split bool.split)
qed

lemma scan_string_turn_left:
  assumes "fst (scan_string_turn lx) = None"
  shows "lx_left (snd (scan_string_turn lx)) < lx_left lx"
proof -
  have "lx_current (lx_get lx) \<noteq> None"
    using assms by (cases "lx_current (lx_get lx)") (simp_all add: scan_string_turn_def Let_def)
  then show ?thesis using lx_get_left[of lx] moves_on_left[OF scan_string_turn_moves[of lx]] by linarith
qed

function scan_string_loop :: "lexer \<Rightarrow> token \<times> lexer" where
  "scan_string_loop lx = (case scan_string_turn lx of
     (Some t, lx') \<Rightarrow> (t, lx')
   | (None, lx') \<Rightarrow> scan_string_loop lx')"
  by pat_completeness auto
termination
  by (relation "measure lx_left") (simp, metis fst_conv snd_conv in_measure scan_string_turn_left)

declare scan_string_loop.simps [simp del]

definition scan_string :: "lexer \<Rightarrow> token \<times> lexer" where
  "scan_string lx = scan_string_loop (lx_reset lx)"

section \<open>Numbers\<close>

text \<open>The labels of the state machine, and where a character leads from each of them.\<close>

datatype num_state = N_minus | N_zero | N_any1 | N_decimal1 | N_decimal2 | N_exponent | N_sign | N_any2

datatype num_step = Goto num_state | Done | Bad string

definition is_exponent_mark :: "char \<Rightarrow> bool" where
  "is_exponent_mark c = (c = CHR ''e'' \<or> c = CHR ''E'')"

definition digit_goto :: "num_state \<Rightarrow> num_state \<Rightarrow> string \<Rightarrow> char \<Rightarrow> num_step" where
  "digit_goto zero any1 m c = (if c = CHR ''0'' then Goto zero else if is_digit c then Goto any1 else Bad m)"

fun num_turn :: "num_state \<Rightarrow> char \<Rightarrow> num_step" where
  "num_turn N_minus c =
     digit_goto N_zero N_any1 (''invalid number; expected digit after '' @ [CHR 0x27, CHR ''-'', CHR 0x27]) c"
| "num_turn N_zero c = (if c = CHR ''.'' then Goto N_decimal1 else if is_exponent_mark c then Goto N_exponent else Done)"
| "num_turn N_any1 c = (if is_digit c then Goto N_any1 else if c = CHR ''.'' then Goto N_decimal1
     else if is_exponent_mark c then Goto N_exponent else Done)"
| "num_turn N_decimal1 c =
     digit_goto N_decimal2 N_decimal2 (''invalid number; expected digit after '' @ [CHR 0x27, CHR ''.'', CHR 0x27]) c"
| "num_turn N_decimal2 c = (if is_digit c then Goto N_decimal2 else if is_exponent_mark c then Goto N_exponent else Done)"
| "num_turn N_exponent c = (if c = CHR ''+'' \<or> c = CHR ''-'' then Goto N_sign
     else digit_goto N_any2 N_any2 (''invalid number; expected '' @ [CHR 0x27, CHR ''+'', CHR 0x27] @ '', '' @
       [CHR 0x27, CHR ''-'', CHR 0x27] @ '', or digit after exponent'') c)"
| "num_turn N_sign c = digit_goto N_any2 N_any2 ''invalid number; expected digit after exponent sign'' c"
| "num_turn N_any2 c = (if is_digit c then Goto N_any2 else Done)"

text \<open>
  The end of the input is none of the characters: it ends a number, or it is the error that
  any other character would be.
\<close>

definition num_turn_end :: "num_state \<Rightarrow> num_step" where
  "num_turn_end st = num_turn st (CHR 0xFF)"

fun enter_state :: "num_state \<Rightarrow> token \<Rightarrow> token" where
  "enter_state N_minus t = T_value_integer"
| "enter_state N_decimal1 t = T_value_float"
| "enter_state N_exponent t = T_value_float"
| "enter_state _ t = t"

text \<open>\<open>strtod\<close> on a text that is a number.\<close>

definition strtod :: "string \<Rightarrow> double" where
  "strtod s = (case scan_double s of Some (v, _) \<Rightarrow> v | None \<Rightarrow> 0)"

definition scan_number_done :: "token \<Rightarrow> lexer \<Rightarrow> token \<times> lexer" where
  "scan_number_done number_type lx =
     (let lx = lx_unget lx; s = lx_yytext lx; n = int (digits_value s); i = - int (digits_value (drop 1 s)) in
      if number_type = T_value_unsigned \<and> n < 2 ^ 64
      then (T_value_unsigned, lx\<lparr>lx_value_unsigned := of_int n\<rparr>)
      else if number_type = T_value_integer \<and> - (2 ^ 63) \<le> i
      then (T_value_integer, lx\<lparr>lx_value_integer := of_int i\<rparr>)
      else (T_value_float, lx\<lparr>lx_value_float := strtod s\<rparr>))"

function scan_number_loop :: "num_state \<Rightarrow> token \<Rightarrow> lexer \<Rightarrow> token \<times> lexer" where
  "scan_number_loop st number_type lx =
     (let number_type = enter_state st number_type; lx' = lx_get lx in
      case lx_current lx' of
        None \<Rightarrow> (case num_turn_end st of Bad m \<Rightarrow> lx_fail m lx' | _ \<Rightarrow> scan_number_done number_type lx')
      | Some c \<Rightarrow> (case num_turn st c of
          Goto st' \<Rightarrow> scan_number_loop st' number_type (lx_add c lx')
        | Done \<Rightarrow> scan_number_done number_type lx'
        | Bad m \<Rightarrow> lx_fail m lx'))"
  by pat_completeness auto
termination
proof (relation "measure (\<lambda>(st, t, lx). lx_left lx)", simp, goal_cases)
  case (1 st t lx t' lx' c st')
  then have "lx_left lx' < lx_left lx" using lx_get_left[of lx] by simp
  then show ?case by (simp add: lx_left_def lx_add_def)
qed

declare scan_number_loop.simps [simp del]

text \<open>\<open>scan\<close> calls it on a sign or a digit only.\<close>

definition scan_number :: "lexer \<Rightarrow> token \<times> lexer" where
  "scan_number lx =
     (let lx = lx_reset lx in
      if lx_current lx = Some CHR ''-'' then scan_number_loop N_minus T_value_unsigned (lx_add_current lx)
      else if lx_current lx = Some CHR ''0'' then scan_number_loop N_zero T_value_unsigned (lx_add_current lx)
      else scan_number_loop N_any1 T_value_unsigned (lx_add_current lx))"

section \<open>The scanner\<close>

fun scan_literal_rest :: "string \<Rightarrow> token \<Rightarrow> lexer \<Rightarrow> token \<times> lexer" where
  "scan_literal_rest [] t lx = (t, lx)"
| "scan_literal_rest (c # cs) t lx =
     (let lx = lx_get lx in
      if lx_current lx \<noteq> Some c then lx_fail ''invalid literal'' lx else scan_literal_rest cs t lx)"

definition scan_literal :: "string \<Rightarrow> token \<Rightarrow> lexer \<Rightarrow> token \<times> lexer" where
  "scan_literal text return_type lx = scan_literal_rest (drop 1 text) return_type lx"

definition is_white :: "char option \<Rightarrow> bool" where
  "is_white c = (c = Some CHR '' '' \<or> c = Some (CHR 0x09) \<or> c = Some (CHR 0x0A) \<or> c = Some (CHR 0x0D))"

function skip_white :: "lexer \<Rightarrow> lexer" where
  "skip_white lx = (let lx' = lx_get lx in if is_white (lx_current lx') then skip_white lx' else lx')"
  by pat_completeness auto
termination
proof (relation "measure lx_left", simp, goal_cases)
  case (1 lx lx')
  then have "lx_current (lx_get lx) \<noteq> None" by (auto simp: is_white_def)
  then show ?case using 1 lx_get_left[of lx] by simp
qed

declare skip_white.simps [simp del]

definition scan :: "lexer \<Rightarrow> token \<times> lexer" where
  "scan lx =
     (let lx = skip_white lx in
      case lx_current lx of
        None \<Rightarrow> (T_end_of_input, lx)
      | Some c \<Rightarrow>
          if c = CHR 0x5B then (T_begin_array, lx)
          else if c = CHR 0x5D then (T_end_array, lx)
          else if c = CHR 0x7B then (T_begin_object, lx)
          else if c = CHR 0x7D then (T_end_object, lx)
          else if c = CHR 0x3A then (T_name_separator, lx)
          else if c = CHR 0x2C then (T_value_separator, lx)
          else if c = CHR ''t'' then scan_literal ''true'' T_literal_true lx
          else if c = CHR ''f'' then scan_literal ''false'' T_literal_false lx
          else if c = CHR ''n'' then scan_literal ''null'' T_literal_null lx
          else if c = CHR 0x22 then scan_string lx
          else if c = CHR ''-'' \<or> is_digit c then scan_number lx
          else if c = CHR 0x00 then (T_end_of_input, lx)
          else lx_fail ''invalid literal'' lx)"

section \<open>The scanner makes progress\<close>

text \<open>Every token but the end of the input consumes at least one character.\<close>

lemma scan_string_loop_moves: "moves_on lx (snd (scan_string_loop lx))"
proof (induction lx rule: scan_string_loop.induct)
  case (1 lx)
  have m: "moves_on lx (snd (scan_string_turn lx))"
    using moves_on_trans[OF moves_on_get scan_string_turn_moves] .
  show ?case
  proof (cases "scan_string_turn lx")
    case (Pair t l)
    then show ?thesis
      using m "1.IH"[OF Pair[symmetric]] moves_on_trans
      by (subst scan_string_loop.simps) (fastforce split: option.split)
  qed
qed

lemma scan_number_done_moves:
  assumes "moves_on lx0 lx" "lx_current lx \<noteq> None \<Longrightarrow> lx_cursor lx0 < lx_cursor lx"
  shows "moves_on lx0 (snd (scan_number_done t lx))"
  using assms by (auto simp: scan_number_done_def lx_unget_def moves_on_def Let_def)

lemma scan_number_loop_moves: "moves_on lx (snd (scan_number_loop st t lx))"
proof (induction st t lx rule: scan_number_loop.induct)
  case (1 st t lx)
  have d: "moves_on lx (snd (scan_number_done t' (lx_get lx)))" for t'
    by (rule scan_number_done_moves[OF moves_on_get]) (auto simp: lx_get_def split: option.splits)
  have f: "moves_on lx (snd (lx_fail m (lx_get lx)))" for m by (simp add: lx_fail_def)
  show ?case
  proof (cases "lx_current (lx_get lx)")
    case None
    then show ?thesis using d f by (subst scan_number_loop.simps) (simp add: Let_def split: num_step.split)
  next
    case (Some c)
    show ?thesis
    proof (cases "num_turn st c")
      case (Goto st')
      then show ?thesis
        using "1.IH"[OF refl refl Some Goto] Some
        by (subst scan_number_loop.simps) (auto simp: Let_def intro: moves_on_trans[OF moves_on_get])
    qed (use d f Some in \<open>subst scan_number_loop.simps, simp add: Let_def\<close>)+
  qed
qed

lemma scan_number_moves: "moves_on lx (snd (scan_number lx))"
proof -
  have "moves_on (lx_add_current (lx_reset lx)) l \<Longrightarrow> moves_on lx l" for l
    by (simp add: moves_on_def lx_add_current_def lx_add_def lx_reset_def)
  then show ?thesis using scan_number_loop_moves by (simp add: scan_number_def Let_def)
qed

lemma scan_literal_moves: "moves_on lx (snd (scan_literal text t lx))"
proof -
  have "moves_on lx (snd (scan_literal_rest cs t lx))" for cs
    by (induction cs t lx rule: scan_literal_rest.induct)
      (auto simp: Let_def lx_fail_def intro: moves_on_trans[OF moves_on_get])
  then show ?thesis by (simp add: scan_literal_def)
qed

lemma skip_white_moves: "moves_on lx (skip_white lx) \<and> (lx_current (skip_white lx) \<noteq> None \<longrightarrow> lx_left (skip_white lx) < lx_left lx)"
proof (induction lx rule: skip_white.induct)
  case (1 lx)
  show ?case
  proof (cases "is_white (lx_current (lx_get lx))")
    case True
    then show ?thesis
      using "1.IH"[OF refl True] moves_on_trans[OF moves_on_get] moves_on_left[OF moves_on_get[of lx]]
      by (subst (1 2 3) skip_white.simps) (auto simp: Let_def)
  next
    case False
    then show ?thesis
      using lx_get_left[of lx] by (subst (1 2 3) skip_white.simps) (simp add: Let_def)
  qed
qed

lemma scan_progress:
  "moves_on lx (snd (scan lx)) \<and> (fst (scan lx) \<noteq> T_end_of_input \<longrightarrow> lx_left (snd (scan lx)) < lx_left lx)"
proof (cases "lx_current (skip_white lx)")
  case None
  then show ?thesis using skip_white_moves[of lx] by (simp add: scan_def Let_def)
next
  case (Some c)
  have "moves_on (skip_white lx) (snd (scan lx))"
    using scan_literal_moves scan_string_loop_moves[of "lx_reset (skip_white lx)"] scan_number_moves Some
    by (simp add: scan_def Let_def scan_string_def lx_fail_def)
  then show ?thesis
    using skip_white_moves[of lx] Some moves_on_left moves_on_trans by (metis le_less_trans option.distinct(1))
qed

end
