(* ===== verification/Json_Parser.thy ===== *)
theory Json_Parser
  imports Json_Lexer "HOL-Library.Monad_Syntax"
begin

text \<open>
  The recursive descent parser of JSON texts (class \<open>parser\<close> of \<open>src/src/json.hpp\<close>), as
  \<open>JSON::parse\<close> runs it: no callback, so every value is kept, and errors are exceptions. The two
  loops and the values call each other, so they are one function of what is parsed; \<open>None\<close> would
  be a parser that does not return, and there is none (\<open>parse_returns\<close>).
\<close>

record parser =
  ps_lexer :: lexer
  ps_last_token :: token

definition mk_parser :: "string \<Rightarrow> parser" where
  "mk_parser s = \<lparr>ps_lexer = mk_lexer s, ps_last_token = T_uninitialized\<rparr>"

definition get_token :: "parser \<Rightarrow> parser" where
  "get_token p = (case scan (ps_lexer p) of (t, lx) \<Rightarrow> \<lparr>ps_lexer = lx, ps_last_token = t\<rparr>)"

definition syntax_error :: "token \<Rightarrow> parser \<Rightarrow> json_exn" where
  "syntax_error expected p =
     Parse_error 101 (lx_chars_read (ps_lexer p))
       (''syntax error - '' @
        (if ps_last_token p = T_parse_error
         then lx_error_message (ps_lexer p) @ ''; last read: '' @ [CHR 0x27] @ token_text (ps_lexer p) @ [CHR 0x27]
         else ''unexpected '' @ token_type_name (ps_last_token p)) @
        (if expected \<noteq> T_uninitialized then ''; expected '' @ token_type_name expected else ''''))"

type_synonym 'a parse_result = "'a json_result option"

text \<open>\<open>expect\<close>, with what follows when the token is the expected one.\<close>

definition expect :: "token \<Rightarrow> parser \<Rightarrow> 'a parse_result \<Rightarrow> 'a parse_result" where
  "expect t p k = (if t \<noteq> ps_last_token p then Some (Inl (syntax_error t p)) else k)"

definition result_bind :: "'a parse_result \<Rightarrow> ('a \<Rightarrow> 'b parse_result) \<Rightarrow> 'b parse_result" where
  "result_bind r k = Option.bind r (\<lambda>x. case x of Inl e \<Rightarrow> Some (Inl e) | Inr v \<Rightarrow> k v)"

text \<open>A value, or the rest of the members of an object or of the elements of an array.\<close>

datatype goal = Value | Members "(string \<times> json) list" | Elements "json list"

text \<open>A floating-point value that overflowed is the exception 406.\<close>

definition parse_float :: "parser \<Rightarrow> (json \<times> parser) parse_result" where
  "parse_float p =
     (let x = lx_value_float (ps_lexer p) in
      if \<not> isfinite x
      then Some (Inl (Out_of_range 406
        (''number overflow parsing '' @ [CHR 0x27] @ token_text (ps_lexer p) @ [CHR 0x27])))
      else Some (Inr (Json_float x, p)))"

partial_function (option) parse_goal :: "goal \<Rightarrow> parser \<Rightarrow> (json \<times> parser) parse_result" where
  "parse_goal g p = (case g of
     Value \<Rightarrow> (case ps_last_token p of
         T_begin_object \<Rightarrow>
           (let p = get_token p in
            if ps_last_token p = T_end_object then Some (Inr (Json_object [], p)) else parse_goal (Members []) p)
       | T_begin_array \<Rightarrow>
           (let p = get_token p in
            if ps_last_token p = T_end_array then Some (Inr (Json_array [], p)) else parse_goal (Elements []) p)
       | T_literal_null \<Rightarrow> Some (Inr (Json_null, p))
       | T_value_string \<Rightarrow> Some (Inr (Json_string (lx_yytext (ps_lexer p)), p))
       | T_literal_true \<Rightarrow> Some (Inr (Json_boolean True, p))
       | T_literal_false \<Rightarrow> Some (Inr (Json_boolean False, p))
       | T_value_unsigned \<Rightarrow> Some (Inr (Json_unsigned (lx_value_unsigned (ps_lexer p)), p))
       | T_value_integer \<Rightarrow> Some (Inr (Json_integer (lx_value_integer (ps_lexer p)), p))
       | T_value_float \<Rightarrow> parse_float p
       | T_parse_error \<Rightarrow> Some (Inl (syntax_error T_uninitialized p))
       | _ \<Rightarrow> Some (Inl (syntax_error T_literal_or_value p)))
   | Members m \<Rightarrow>
       if ps_last_token p \<noteq> T_value_string then Some (Inl (syntax_error T_value_string p))
       else (let key = lx_yytext (ps_lexer p); p = get_token p in
         if ps_last_token p \<noteq> T_name_separator then Some (Inl (syntax_error T_name_separator p))
         else Option.bind (parse_goal Value (get_token p)) (\<lambda>r. case r of
             Inl e \<Rightarrow> Some (Inl e)
           | Inr vp \<Rightarrow> (let m = object_emplace key (fst vp) m; p = get_token (snd vp) in
               if ps_last_token p = T_value_separator then parse_goal (Members m) (get_token p)
               else expect T_end_object p (Some (Inr (Json_object m, p))))))
   | Elements xs \<Rightarrow>
       Option.bind (parse_goal Value p) (\<lambda>r. case r of
           Inl e \<Rightarrow> Some (Inl e)
         | Inr vp \<Rightarrow> (let xs = xs @ [fst vp]; p = get_token (snd vp) in
             if ps_last_token p = T_value_separator then parse_goal (Elements xs) (get_token p)
             else expect T_end_array p (Some (Inr (Json_array xs, p))))))"

declare parse_goal.simps [code]

text \<open>\<open>parse\<close>: the input must end after the value.\<close>

definition parse_text :: "string \<Rightarrow> json parse_result" where
  "parse_text s = result_bind (parse_goal Value (get_token (mk_parser s))) (\<lambda>(v, p).
     let p = get_token p in expect T_end_of_input p (Some (Inr v)))"

section \<open>Parsing returns\<close>

definition weight :: "goal \<Rightarrow> parser \<Rightarrow> nat" where
  "weight g p = 4 * lx_left (ps_lexer p) + (if ps_last_token p = T_end_of_input then 0 else 2) +
     (if g = Value then 0 else 1)"

lemma get_token_moves: "moves_on (ps_lexer p) (ps_lexer (get_token p))"
  using scan_progress[of "ps_lexer p"] by (cases "scan (ps_lexer p)") (simp add: get_token_def)

lemma get_token_left:
  "ps_last_token (get_token p) \<noteq> T_end_of_input \<Longrightarrow> lx_left (ps_lexer (get_token p)) < lx_left (ps_lexer p)"
  using scan_progress[of "ps_lexer p"] by (cases "scan (ps_lexer p)") (simp add: get_token_def)

lemmas token_left = moves_on_left[OF get_token_moves]

lemma weight_get_token: "weight g (get_token p) \<le> 4 * lx_left (ps_lexer p) + 1"
  using get_token_left[of p] token_left[of p]
  by (cases "ps_last_token (get_token p) = T_end_of_input") (simp_all add: weight_def)

text \<open>The exceptions of the parser.\<close>

definition parse_exn :: "json_exn \<Rightarrow> bool" where
  "parse_exn e = (case e of Parse_error n _ _ \<Rightarrow> n = 101 | Out_of_range n _ \<Rightarrow> n = 406 | _ \<Rightarrow> False)"

lemma parse_exn_syntax [simp]: "parse_exn (syntax_error t p)"
  by (simp add: parse_exn_def syntax_error_def)

definition returns_on :: "parser \<Rightarrow> (json \<times> parser) parse_result \<Rightarrow> bool" where
  "returns_on p r = (case r of None \<Rightarrow> False | Some (Inl e) \<Rightarrow> parse_exn e
     | Some (Inr (v, p')) \<Rightarrow> moves_on (ps_lexer p) (ps_lexer p'))"

lemma returns_on_simps [simp]: "returns_on p (Some (Inl e)) = parse_exn e" "returns_on p (Some (Inr (v, p)))"
  "returns_on p (Some (Inr (v, get_token p)))"
  by (simp_all add: returns_on_def get_token_moves)

lemma returns_on_mono: "returns_on q r \<Longrightarrow> moves_on (ps_lexer p) (ps_lexer q) \<Longrightarrow> returns_on p r"
  by (auto simp: returns_on_def split: option.splits sum.splits intro: moves_on_trans)

lemma returns_on_token: "returns_on (get_token p) r \<Longrightarrow> returns_on p r"
  using returns_on_mono get_token_moves by blast

lemma parse_float_returns [simp]: "returns_on p (parse_float p)"
  by (simp add: parse_float_def parse_exn_def Let_def)

text \<open>What comes after a value in a loop: a separator and another turn, or the end.\<close>

lemma returns_on_loop:
  assumes "returns_on q r"
    and "\<And>v q'. r = Some (Inr (v, q')) \<Longrightarrow> moves_on (ps_lexer q) (ps_lexer q') \<Longrightarrow>
      returns_on q' (k (v, q'))"
  shows "returns_on q (Option.bind r (\<lambda>x. case x of Inl e \<Rightarrow> Some (Inl e) | Inr vp \<Rightarrow> k vp))"
  using assms by (auto simp: returns_on_def split: option.splits sum.splits prod.splits intro: moves_on_trans)

text \<open>The end of a turn of a loop.\<close>

definition next_turn :: "goal \<Rightarrow> token \<Rightarrow> json \<Rightarrow> parser \<Rightarrow> (json \<times> parser) parse_result" where
  "next_turn g t j q = (let p = get_token q in
     if ps_last_token p = T_value_separator then parse_goal g (get_token p) else expect t p (Some (Inr (j, p))))"

lemma parse_Members:
  "parse_goal (Members m) p =
     (if ps_last_token p \<noteq> T_value_string then Some (Inl (syntax_error T_value_string p))
      else if ps_last_token (get_token p) \<noteq> T_name_separator
      then Some (Inl (syntax_error T_name_separator (get_token p)))
      else Option.bind (parse_goal Value (get_token (get_token p))) (\<lambda>r. case r of
          Inl e \<Rightarrow> Some (Inl e)
        | Inr vp \<Rightarrow> (let m = object_emplace (lx_yytext (ps_lexer p)) (fst vp) m in
            next_turn (Members m) T_end_object (Json_object m) (snd vp))))"
  by (subst parse_goal.simps) (simp only: goal.simps Let_def next_turn_def)

lemma parse_Elements:
  "parse_goal (Elements xs) p =
     Option.bind (parse_goal Value p) (\<lambda>r. case r of
         Inl e \<Rightarrow> Some (Inl e)
       | Inr vp \<Rightarrow> next_turn (Elements (xs @ [fst vp])) T_end_array (Json_array (xs @ [fst vp])) (snd vp))"
  by (subst parse_goal.simps) (simp only: goal.simps Let_def next_turn_def)

lemma next_turn_returns:
  assumes "\<And>q. weight g q < 4 * lx_left (ps_lexer p) \<Longrightarrow> returns_on q (parse_goal g q)"
  shows "returns_on p (next_turn g t j p)"
proof (cases "ps_last_token (get_token p) = T_value_separator")
  case True
  let ?q = "get_token (get_token p)"
  have "lx_left (ps_lexer (get_token p)) < lx_left (ps_lexer p)" using get_token_left True by simp
  then have "returns_on ?q (parse_goal g ?q)"
    using weight_get_token[of g "get_token p"] by (intro assms) linarith
  then have "returns_on p (parse_goal g ?q)" by (rule returns_on_token[OF returns_on_token])
  then show ?thesis using True by (simp add: next_turn_def)
next
  case False
  then show ?thesis by (simp add: next_turn_def Let_def expect_def)
qed

lemma parse_goal_returns: "returns_on p (parse_goal g p)"
proof (induction "weight g p" arbitrary: g p rule: less_induct)
  case less
  show ?case
  proof (cases g)
    case Value
    have first: "returns_on p (parse_goal g' (get_token p))" if "ps_last_token p \<noteq> T_end_of_input" "g' \<noteq> Value" for g'
      by (rule returns_on_token, rule less)
        (use weight_get_token[of g' p] that Value in \<open>simp add: weight_def\<close>)
    show ?thesis unfolding Value
      using first by (subst parse_goal.simps) (cases "ps_last_token p"; simp add: Let_def)
  next
    case (Members m)
    let ?q = "get_token (get_token p)"
    have "returns_on p (parse_goal (Members m) p)"
      if t: "ps_last_token p = T_value_string" "ps_last_token (get_token p) = T_name_separator"
    proof -
      have l: "lx_left (ps_lexer ?q) \<le> lx_left (ps_lexer p)"
        using token_left[of p] token_left[of "get_token p"] by linarith
      have "returns_on ?q (parse_goal Value ?q)"
        by (rule less) (use weight_get_token[of Value "get_token p"] token_left[of p] t Members in \<open>simp add: weight_def\<close>)
      then have "returns_on ?q (parse_goal (Members m) p)"
        unfolding parse_Members using t
        by (simp del: split_paired_All) (rule returns_on_loop, assumption, simp add: Let_def, rule next_turn_returns, rule less,
          use l Members in \<open>fastforce dest: moves_on_left simp: weight_def\<close>)
      then show ?thesis by (rule returns_on_token[OF returns_on_token])
    qed
    then show ?thesis unfolding Members by (cases "ps_last_token p = T_value_string";
      cases "ps_last_token (get_token p) = T_name_separator") (simp_all add: parse_Members)
  next
    case (Elements xs)
    have "returns_on p (parse_goal Value p)" by (rule less) (simp add: Elements weight_def)
    then show ?thesis
      unfolding Elements parse_Elements
      by (rule returns_on_loop) (simp, rule next_turn_returns, rule less,
        use Elements in \<open>fastforce dest: moves_on_left simp: weight_def\<close>)
  qed
qed

text \<open>
  C40: Parsing returns on every text, with a value or with one of two exceptions: a syntax error
  (101) or a number that is too large (406). The header's comments promise two more for
  \<open>parse\<close>, 102 for surrogates and 103 for code points that are too large: neither is thrown.
\<close>

theorem parse_returns:
  "case parse_text s of None \<Rightarrow> False | Some (Inl e) \<Rightarrow> parse_exn e | Some (Inr v) \<Rightarrow> True"
proof -
  have "returns_on (get_token (mk_parser s)) (parse_goal Value (get_token (mk_parser s)))"
    by (rule parse_goal_returns)
  then show ?thesis
    by (auto simp: parse_text_def result_bind_def returns_on_def expect_def Let_def split: option.splits sum.splits)
qed

end
