(* ===== verification/Json_Float.thy ===== *)
theory Json_Float
  imports Double_Int Stdio "HOL-Library.Monad_Syntax" "HOL-Library.Signed_Division"
begin

text \<open>
  How a JSON text writes a floating-point number (namespace \<open>dtoa_impl\<close> and \<open>to_chars\<close> of
  \<open>src/src/json.hpp\<close>): the algorithm Grisu2 on 64-bit words with their wrap-around, and the
  layout of its digits. \<open>None\<close> stands for a shift by a negative amount or by 64 bits and more,
  for an index out of the table, and for a loop that does not end.
\<close>

section \<open>Numbers \<open>f * 2 ^ e\<close>\<close>

record diyfp =
  fp_f :: uint64
  fp_e :: int

definition mk_fp :: "uint64 \<Rightarrow> int \<Rightarrow> diyfp" where
  "mk_fp f e = \<lparr>fp_f = f, fp_e = e\<rparr>"

definition fp_sub :: "diyfp \<Rightarrow> diyfp \<Rightarrow> diyfp" where
  "fp_sub x y = mk_fp (fp_f x - fp_f y) (fp_e x)"

definition fp_mul :: "diyfp \<Rightarrow> diyfp \<Rightarrow> diyfp" where
  "fp_mul x y =
     (let u_lo = fp_f x AND 0xFFFFFFFF; u_hi = drop_bit 32 (fp_f x);
          v_lo = fp_f y AND 0xFFFFFFFF; v_hi = drop_bit 32 (fp_f y);
          p0 = u_lo * v_lo; p1 = u_lo * v_hi; p2 = u_hi * v_lo; p3 = u_hi * v_hi;
          p0_hi = drop_bit 32 p0;
          p1_lo = p1 AND 0xFFFFFFFF; p1_hi = drop_bit 32 p1;
          p2_lo = p2 AND 0xFFFFFFFF; p2_hi = drop_bit 32 p2;
          q = p0_hi + p1_lo + p2_lo;
          q = q + push_bit (64 - 32 - 1) 1;
          h = p3 + p2_hi + p1_hi + drop_bit 32 q
      in mk_fp h (fp_e x + fp_e y + 64))"

partial_function (option) fp_normalize :: "diyfp \<Rightarrow> diyfp option" where
  "fp_normalize x =
     (if drop_bit 63 (fp_f x) = 0 then fp_normalize (mk_fp (push_bit 1 (fp_f x)) (fp_e x - 1)) else Some x)"

declare fp_normalize.simps [code]

definition fp_normalize_to :: "diyfp \<Rightarrow> int \<Rightarrow> diyfp option" where
  "fp_normalize_to x target_exponent =
     (let delta = fp_e x - target_exponent in
      if 0 \<le> delta \<and> delta < 64 then Some (mk_fp (push_bit (nat delta) (fp_f x)) target_exponent) else None)"

record boundaries =
  bd_w :: diyfp
  bd_minus :: diyfp
  bd_plus :: diyfp

text \<open>The precision of a double is 53 bits, the bias 1075.\<close>

definition compute_boundaries :: "double \<Rightarrow> boundaries option" where
  "compute_boundaries v0 =
     (let E = drop_bit 52 (bits v0); F = bits v0 AND (push_bit 52 1 - 1);
          is_denormal = (E = 0);
          v = (if is_denormal then mk_fp F (1 - 1075) else mk_fp (F + push_bit 52 1) (uint E - 1075));
          lower_boundary_is_closer = (F = 0 \<and> 1 < E);
          m_plus = mk_fp (2 * fp_f v + 1) (fp_e v - 1);
          m_minus = (if lower_boundary_is_closer then mk_fp (4 * fp_f v - 1) (fp_e v - 2)
                     else mk_fp (2 * fp_f v - 1) (fp_e v - 1))
      in do {
        w_plus \<leftarrow> fp_normalize m_plus;
        w_minus \<leftarrow> fp_normalize_to m_minus (fp_e w_plus);
        w \<leftarrow> fp_normalize v;
        Some \<lparr>bd_w = w, bd_minus = w_minus, bd_plus = w_plus\<rparr> })"

section \<open>Cached powers of ten\<close>

definition kCachedPowers :: "(uint64 \<times> int \<times> int) list" where
  "kCachedPowers =
    [(0xAB70FE17C79AC6CA, - 1060, - 300),
     (0xFF77B1FCBEBCDC4F, - 1034, - 292),
     (0xBE5691EF416BD60C, - 1007, - 284),
     (0x8DD01FAD907FFC3C, - 980, - 276),
     (0xD3515C2831559A83, - 954, - 268),
     (0x9D71AC8FADA6C9B5, - 927, - 260),
     (0xEA9C227723EE8BCB, - 901, - 252),
     (0xAECC49914078536D, - 874, - 244),
     (0x823C12795DB6CE57, - 847, - 236),
     (0xC21094364DFB5637, - 821, - 228),
     (0x9096EA6F3848984F, - 794, - 220),
     (0xD77485CB25823AC7, - 768, - 212),
     (0xA086CFCD97BF97F4, - 741, - 204),
     (0xEF340A98172AACE5, - 715, - 196),
     (0xB23867FB2A35B28E, - 688, - 188),
     (0x84C8D4DFD2C63F3B, - 661, - 180),
     (0xC5DD44271AD3CDBA, - 635, - 172),
     (0x936B9FCEBB25C996, - 608, - 164),
     (0xDBAC6C247D62A584, - 582, - 156),
     (0xA3AB66580D5FDAF6, - 555, - 148),
     (0xF3E2F893DEC3F126, - 529, - 140),
     (0xB5B5ADA8AAFF80B8, - 502, - 132),
     (0x87625F056C7C4A8B, - 475, - 124),
     (0xC9BCFF6034C13053, - 449, - 116),
     (0x964E858C91BA2655, - 422, - 108),
     (0xDFF9772470297EBD, - 396, - 100),
     (0xA6DFBD9FB8E5B88F, - 369, - 92),
     (0xF8A95FCF88747D94, - 343, - 84),
     (0xB94470938FA89BCF, - 316, - 76),
     (0x8A08F0F8BF0F156B, - 289, - 68),
     (0xCDB02555653131B6, - 263, - 60),
     (0x993FE2C6D07B7FAC, - 236, - 52),
     (0xE45C10C42A2B3B06, - 210, - 44),
     (0xAA242499697392D3, - 183, - 36),
     (0xFD87B5F28300CA0E, - 157, - 28),
     (0xBCE5086492111AEB, - 130, - 20),
     (0x8CBCCC096F5088CC, - 103, - 12),
     (0xD1B71758E219652C, - 77, - 4),
     (0x9C40000000000000, - 50, 4),
     (0xE8D4A51000000000, - 24, 12),
     (0xAD78EBC5AC620000, 3, 20),
     (0x813F3978F8940984, 30, 28),
     (0xC097CE7BC90715B3, 56, 36),
     (0x8F7E32CE7BEA5C70, 83, 44),
     (0xD5D238A4ABE98068, 109, 52),
     (0x9F4F2726179A2245, 136, 60),
     (0xED63A231D4C4FB27, 162, 68),
     (0xB0DE65388CC8ADA8, 189, 76),
     (0x83C7088E1AAB65DB, 216, 84),
     (0xC45D1DF942711D9A, 242, 92),
     (0x924D692CA61BE758, 269, 100),
     (0xDA01EE641A708DEA, 295, 108),
     (0xA26DA3999AEF774A, 322, 116),
     (0xF209787BB47D6B85, 348, 124),
     (0xB454E4A179DD1877, 375, 132),
     (0x865B86925B9BC5C2, 402, 140),
     (0xC83553C5C8965D3D, 428, 148),
     (0x952AB45CFA97A0B3, 455, 156),
     (0xDE469FBD99A05FE3, 481, 164),
     (0xA59BC234DB398C25, 508, 172),
     (0xF6C69A72A3989F5C, 534, 180),
     (0xB7DCBF5354E9BECE, 561, 188),
     (0x88FCF317F22241E2, 588, 196),
     (0xCC20CE9BD35C78A5, 614, 204),
     (0x98165AF37B2153DF, 641, 212),
     (0xE2A0B5DC971F303A, 667, 220),
     (0xA8D9D1535CE3B396, 694, 228),
     (0xFB9B7CD9A4A7443C, 720, 236),
     (0xBB764C4CA7A44410, 747, 244),
     (0x8BAB8EEFB6409C1A, 774, 252),
     (0xD01FEF10A657842C, 800, 260),
     (0x9B10A4E5E9913129, 827, 268),
     (0xE7109BFBA19C0C9D, 853, 276),
     (0xAC2820D9623BF429, 880, 284),
     (0x80444B5E7AA7CF85, 907, 292),
     (0xBF21E44003ACDD2D, 933, 300),
     (0x8E679C2F5E44FF8F, 960, 308),
     (0xD433179D9C8CB841, 986, 316),
     (0x9E19DB92B4E31BA9, 1013, 324)]"

text \<open>The operator \<open>/\<close> on signed integers truncates towards zero.\<close>

definition cached_power_index :: "int \<Rightarrow> int" where
  "cached_power_index e =
     (let f = - 60 - e - 1; k = (f * 78913) sdiv (push_bit 18 1) + (if 0 < f then 1 else 0)
      in (300 + k + (8 - 1)) sdiv 8)"

definition cached_power_for :: "int \<Rightarrow> (uint64 \<times> int \<times> int) option" where
  "cached_power_for e =
     (let index = cached_power_index e in
      if 0 \<le> index \<and> index < 79 then Some (kCachedPowers ! nat index) else None)"

section \<open>Digits\<close>

definition find_largest_pow10 :: "32 word \<Rightarrow> nat \<times> 32 word" where
  "find_largest_pow10 n =
     (if 1000000000 \<le> n then (10, 1000000000)
      else if 100000000 \<le> n then (9, 100000000)
      else if 10000000 \<le> n then (8, 10000000)
      else if 1000000 \<le> n then (7, 1000000)
      else if 100000 \<le> n then (6, 100000)
      else if 10000 \<le> n then (5, 10000)
      else if 1000 \<le> n then (4, 1000)
      else if 100 \<le> n then (3, 100)
      else if 10 \<le> n then (2, 10)
      else (1, 1))"

text \<open>The last digit goes down while this comes closer to \<open>w\<close>.\<close>

definition decrement_last :: "string \<Rightarrow> string" where
  "decrement_last buf = butlast buf @ [char_of (of_char (last buf) - (1 :: int))]"

partial_function (option) grisu2_round ::
    "string \<Rightarrow> uint64 \<Rightarrow> uint64 \<Rightarrow> uint64 \<Rightarrow> uint64 \<Rightarrow> string option" where
  "grisu2_round buf dist_w delta rest ten_k =
     (if rest < dist_w \<and> ten_k \<le> delta - rest \<and> (rest + ten_k < dist_w \<or> rest + ten_k - dist_w < dist_w - rest)
      then grisu2_round (decrement_last buf) dist_w delta (rest + ten_k) ten_k
      else Some buf)"

declare grisu2_round.simps [code]

definition digit_char :: "nat \<Rightarrow> char" where
  "digit_char d = char_of (48 + d)"

text \<open>
  The loop over the digits before the point, \<open>n\<close> of them to come: it goes through with the
  buffer, or ends with the buffer, the number of digits left out, the rest and the unit.
\<close>

fun integral_digits ::
    "nat \<Rightarrow> string \<Rightarrow> 32 word \<Rightarrow> 32 word \<Rightarrow> uint64 \<Rightarrow> uint64 \<Rightarrow> nat \<Rightarrow> string + string \<times> nat \<times> uint64 \<times> uint64" where
  "integral_digits 0 buffer p1 pow10 p2 delta shift = Inl buffer"
| "integral_digits (Suc n) buffer p1 pow10 p2 delta shift =
     (let d = p1 div pow10; r = p1 mod pow10; buffer = buffer @ [digit_char (unat d)];
          rest = push_bit shift (ucast r) + p2
      in if rest \<le> delta then Inr (buffer, n, rest, push_bit shift (ucast pow10))
         else integral_digits n buffer r (pow10 div 10) p2 delta shift)"

partial_function (option) fraction_digits ::
    "string \<Rightarrow> uint64 \<Rightarrow> uint64 \<Rightarrow> uint64 \<Rightarrow> nat \<Rightarrow> nat \<Rightarrow> (string \<times> uint64 \<times> uint64 \<times> uint64 \<times> nat) option" where
  "fraction_digits buffer p2 delta dist_w m shift =
     (let p2 = p2 * 10; d = drop_bit shift p2; r = p2 AND (push_bit shift 1 - 1);
          buffer = buffer @ [digit_char (unat d)]; m = m + 1; delta = delta * 10; dist_w = dist_w * 10
      in if r \<le> delta then Some (buffer, r, delta, dist_w, m) else fraction_digits buffer r delta dist_w m shift)"

declare fraction_digits.simps [code]

definition grisu2_digit_gen :: "int \<Rightarrow> diyfp \<Rightarrow> diyfp \<Rightarrow> diyfp \<Rightarrow> (string \<times> int) option" where
  "grisu2_digit_gen decimal_exponent M_minus w M_plus =
     (let delta = fp_f (fp_sub M_plus M_minus); dist_w = fp_f (fp_sub M_plus w); shift = nat (- fp_e M_plus) in
      if 0 < fp_e M_plus \<or> fp_e M_plus \<le> - 64 then None
      else let p1 = ucast (drop_bit shift (fp_f M_plus)); p2 = fp_f M_plus AND (push_bit shift 1 - 1);
               (k, pow10) = find_largest_pow10 p1
      in case integral_digits k [] p1 pow10 p2 delta shift of
           Inr (buffer, n, rest, ten_n) \<Rightarrow>
             map_option (\<lambda>buf. (buf, decimal_exponent + int n)) (grisu2_round buffer dist_w delta rest ten_n)
         | Inl buffer \<Rightarrow> do {
             (buffer, p2, delta, dist_w, m) \<leftarrow> fraction_digits buffer p2 delta dist_w 0 shift;
             buf \<leftarrow> grisu2_round buffer dist_w delta p2 (push_bit shift 1);
             Some (buf, decimal_exponent - int m) })"

definition grisu2_scaled :: "diyfp \<Rightarrow> diyfp \<Rightarrow> diyfp \<Rightarrow> (string \<times> int) option" where
  "grisu2_scaled m_minus v m_plus = do {
     (f, e, k) \<leftarrow> cached_power_for (fp_e m_plus);
     let c_minus_k = mk_fp f e;
     let w = fp_mul v c_minus_k;
     let w_minus = fp_mul m_minus c_minus_k;
     let w_plus = fp_mul m_plus c_minus_k;
     grisu2_digit_gen (- k) (mk_fp (fp_f w_minus + 1) (fp_e w_minus)) w (mk_fp (fp_f w_plus - 1) (fp_e w_plus)) }"

definition grisu2 :: "double \<Rightarrow> (string \<times> int) option" where
  "grisu2 v = do {
     w \<leftarrow> compute_boundaries v;
     grisu2_scaled (bd_minus w) (bd_w w) (bd_plus w) }"

section \<open>Layout\<close>

definition append_exponent :: "int \<Rightarrow> string" where
  "append_exponent e =
     (let k = nat \<bar>e\<bar> in
      (if e < 0 then ''-'' else ''+'') @
      (if k < 10 then [CHR ''0'', digit_char k]
       else if k < 100 then [digit_char (k div 10), digit_char (k mod 10)]
       else [digit_char (k div 100), digit_char (k mod 100 div 10), digit_char (k mod 100 mod 10)]))"

definition format_buffer :: "string \<Rightarrow> int \<Rightarrow> int \<Rightarrow> int \<Rightarrow> string" where
  "format_buffer buf decimal_exponent min_exp max_exp =
     (let k = int (length buf); n = k + decimal_exponent in
      if k \<le> n \<and> n \<le> max_exp then buf @ replicate (nat (n - k)) CHR ''0'' @ ''.0''
      else if 0 < n \<and> n \<le> max_exp then take (nat n) buf @ ''.'' @ drop (nat n) buf
      else if min_exp < n \<and> n \<le> 0 then ''0.'' @ replicate (nat (- n)) CHR ''0'' @ buf
      else if k = 1 then buf @ ''e'' @ append_exponent (n - 1)
      else take 1 buf @ ''.'' @ drop 1 buf @ ''e'' @ append_exponent (n - 1))"

definition to_chars :: "double \<Rightarrow> string option" where
  "to_chars v =
     (let minus = (if d_neg v then ''-'' else ''''); v = (if d_neg v then - v else v) in
      if d_zero v then Some (minus @ ''0.0'')
      else map_option (\<lambda>(buf, decimal_exponent). minus @ format_buffer buf decimal_exponent (- 4) 15) (grisu2 v))"

end
