(* ===== verification/Json_Serializer.thy ===== *)
theory Json_Serializer
  imports Json Json_Float
begin

text \<open>
  Writing a JSON value as a text (class \<open>serializer\<close> of \<open>src/src/json.hpp\<close>) to a string, as
  \<open>dump()\<close> does by default: on one line. What is written is appended to the output. A result
  \<open>Inl\<close> is an exception; \<open>None\<close> stands for a write beyond the string buffer, and for a loop in the
  conversion of a floating-point number that does not end.
\<close>

section \<open>Decoding UTF-8\<close>

definition utf8d :: "nat list" where
  "utf8d =
    [0, 0, 0, 0, 0, 0, 0, 0, 0, 0, 0, 0, 0, 0, 0, 0, 0, 0, 0, 0, 0, 0, 0, 0, 0, 0, 0, 0, 0, 0, 0, 0,
     0, 0, 0, 0, 0, 0, 0, 0, 0, 0, 0, 0, 0, 0, 0, 0, 0, 0, 0, 0, 0, 0, 0, 0, 0, 0, 0, 0, 0, 0, 0, 0,
     0, 0, 0, 0, 0, 0, 0, 0, 0, 0, 0, 0, 0, 0, 0, 0, 0, 0, 0, 0, 0, 0, 0, 0, 0, 0, 0, 0, 0, 0, 0, 0,
     0, 0, 0, 0, 0, 0, 0, 0, 0, 0, 0, 0, 0, 0, 0, 0, 0, 0, 0, 0, 0, 0, 0, 0, 0, 0, 0, 0, 0, 0, 0, 0,
     1, 1, 1, 1, 1, 1, 1, 1, 1, 1, 1, 1, 1, 1, 1, 1, 9, 9, 9, 9, 9, 9, 9, 9, 9, 9, 9, 9, 9, 9, 9, 9,
     7, 7, 7, 7, 7, 7, 7, 7, 7, 7, 7, 7, 7, 7, 7, 7, 7, 7, 7, 7, 7, 7, 7, 7, 7, 7, 7, 7, 7, 7, 7, 7,
     8, 8, 2, 2, 2, 2, 2, 2, 2, 2, 2, 2, 2, 2, 2, 2, 2, 2, 2, 2, 2, 2, 2, 2, 2, 2, 2, 2, 2, 2, 2, 2,
     10, 3, 3, 3, 3, 3, 3, 3, 3, 3, 3, 3, 3, 4, 3, 3, 11, 6, 6, 6, 5, 8, 8, 8, 8, 8, 8, 8, 8, 8, 8, 8,
     0, 1, 2, 3, 5, 8, 7, 1, 1, 1, 4, 6, 1, 1, 1, 1, 1, 1, 1, 1, 1, 1, 1, 1, 1, 1, 1, 1, 1, 1, 1, 1,
     1, 0, 1, 1, 1, 1, 1, 0, 1, 0, 1, 1, 1, 1, 1, 1, 1, 2, 1, 1, 1, 1, 1, 2, 1, 2, 1, 1, 1, 1, 1, 1,
     1, 1, 1, 1, 1, 1, 1, 2, 1, 1, 1, 1, 1, 1, 1, 1, 1, 2, 1, 1, 1, 1, 1, 1, 1, 2, 1, 1, 1, 1, 1, 1,
     1, 1, 1, 1, 1, 1, 1, 3, 1, 3, 1, 1, 1, 1, 1, 1, 1, 3, 1, 1, 1, 1, 1, 3, 1, 3, 1, 1, 1, 1, 1, 1,
     1, 3, 1, 1, 1, 1, 1, 1, 1, 1, 1, 1, 1, 1, 1, 1]"

text \<open>The state machine: \<open>0\<close> accepts, \<open>1\<close> rejects; the code point has 32 bits.\<close>

definition UTF8_ACCEPT :: nat where "UTF8_ACCEPT = 0"
definition UTF8_REJECT :: nat where "UTF8_REJECT = 1"

definition decode :: "nat \<Rightarrow> nat \<Rightarrow> nat \<Rightarrow> nat \<times> nat" where
  "decode state codep byte =
     (let type = utf8d ! byte;
          codep = (if state \<noteq> UTF8_ACCEPT then ((byte AND 0x3F) OR push_bit 6 codep) mod 2 ^ 32
                   else drop_bit type 0xFF AND byte)
      in (utf8d ! (256 + state * 16 + type), codep))"

section \<open>Strings\<close>

text \<open>The output, and what the string buffer of 512 bytes holds.\<close>

record escaper =
  es_state :: nat
  es_codepoint :: nat
  es_buffer :: string
  es_out :: string

definition buffer_put :: "string \<Rightarrow> escaper \<Rightarrow> escaper option" where
  "buffer_put s es = (if length (es_buffer es) + length s \<le> 512
     then Some (es\<lparr>es_buffer := es_buffer es @ s\<rparr>) else None)"

text \<open>\<open>snprintf\<close> stores a NUL after its text.\<close>

definition buffer_printf :: "string \<Rightarrow> escaper \<Rightarrow> escaper option" where
  "buffer_printf s es = (if length (es_buffer es) + length s + 1 \<le> 512
     then Some (es\<lparr>es_buffer := es_buffer es @ s\<rparr>) else None)"

definition hex_lower :: "nat \<Rightarrow> char" where
  "hex_lower n = (if n < 10 then char_of (48 + n) else char_of (87 + n))"

text \<open>\<open>%04x\<close> on a number below \<open>2 ^ 16\<close>, and \<open>%02X\<close> of a byte.\<close>

definition hex4 :: "nat \<Rightarrow> string" where
  "hex4 n = [hex_lower (n div 4096 mod 16), hex_lower (n div 256 mod 16), hex_lower (n div 16 mod 16), hex_lower (n mod 16)]"

definition hex_upper2 :: "nat \<Rightarrow> string" where
  "hex_upper2 n = map (\<lambda>d. if d < 10 then char_of (48 + d) else char_of (55 + d)) [n div 16, n mod 16 :: nat]"

text \<open>What a complete code point, whose last byte is \<open>c\<close>, puts in the buffer.\<close>

definition put_codepoint :: "bool \<Rightarrow> nat \<Rightarrow> char \<Rightarrow> escaper \<Rightarrow> escaper option" where
  "put_codepoint ensure_ascii codepoint c es =
     (if codepoint = 0x08 then buffer_put [CHR 0x5C, CHR ''b''] es
      else if codepoint = 0x09 then buffer_put [CHR 0x5C, CHR ''t''] es
      else if codepoint = 0x0A then buffer_put [CHR 0x5C, CHR ''n''] es
      else if codepoint = 0x0C then buffer_put [CHR 0x5C, CHR ''f''] es
      else if codepoint = 0x0D then buffer_put [CHR 0x5C, CHR ''r''] es
      else if codepoint = 0x22 then buffer_put [CHR 0x5C, CHR 0x22] es
      else if codepoint = 0x5C then buffer_put [CHR 0x5C, CHR 0x5C] es
      else if codepoint \<le> 0x1F \<or> (ensure_ascii \<and> 0x7F \<le> codepoint)
      then (if codepoint \<le> 0xFFFF then buffer_printf ([CHR 0x5C, CHR ''u''] @ hex4 codepoint) es
            else buffer_printf ([CHR 0x5C, CHR ''u''] @ hex4 (0xD7C0 + drop_bit 10 codepoint) @
              [CHR 0x5C, CHR ''u''] @ hex4 (0xDC00 + (codepoint AND 0x3FF))) es)
      else buffer_put [c] es)"

definition flush :: "escaper \<Rightarrow> escaper" where
  "flush es = es\<lparr>es_out := es_out es @ es_buffer es, es_buffer := []\<rparr>"

text \<open>One byte, at the index \<open>i\<close>.\<close>

definition escape_byte :: "bool \<Rightarrow> nat \<Rightarrow> char \<Rightarrow> escaper \<Rightarrow> escaper json_result option" where
  "escape_byte ensure_ascii i c es =
     (let byte = (of_char c :: nat); (state, codepoint) = decode (es_state es) (es_codepoint es) byte;
          es = es\<lparr>es_state := state, es_codepoint := codepoint\<rparr> in
      if state = UTF8_ACCEPT
      then map_option (\<lambda>es. Inr (if 512 - length (es_buffer es) < 13 then flush es else es))
             (put_codepoint ensure_ascii codepoint c es)
      else if state = UTF8_REJECT
      then Some (Inl (Type_error 316 (''invalid UTF-8 byte at index '' @ show_nat i @ '': 0x'' @ hex_upper2 byte)))
      else if \<not> ensure_ascii then map_option Inr (buffer_put [c] es)
      else Some (Inr es))"

fun escape_bytes :: "bool \<Rightarrow> nat \<Rightarrow> string \<Rightarrow> escaper \<Rightarrow> escaper json_result option" where
  "escape_bytes ensure_ascii i [] es = Some (Inr es)"
| "escape_bytes ensure_ascii i (c # s) es =
     Option.bind (escape_byte ensure_ascii i c es) (\<lambda>r. case r of
       Inl e \<Rightarrow> Some (Inl e)
     | Inr es \<Rightarrow> escape_bytes ensure_ascii (i + 1) s es)"

definition dump_escaped :: "bool \<Rightarrow> string \<Rightarrow> string \<Rightarrow> string json_result option" where
  "dump_escaped ensure_ascii s out =
     Option.bind (escape_bytes ensure_ascii 0 s \<lparr>es_state = UTF8_ACCEPT, es_codepoint = 0, es_buffer = [], es_out = out\<rparr>)
       (\<lambda>r. case r of
          Inl e \<Rightarrow> Some (Inl e)
        | Inr es \<Rightarrow> Some (if es_state es = UTF8_ACCEPT then Inr (es_out (flush es))
            else Inl (Type_error 316 (''incomplete UTF-8 string; last byte: 0x'' @ hex_upper2 (of_char (last s))))))"

section \<open>Numbers\<close>

text \<open>The digits of an integer, from the last one; the remainder has the sign of the integer.\<close>

function integer_digits :: "int \<Rightarrow> string" where
  "integer_digits x =
     (if x \<noteq> 0 then digit_char (nat \<bar>x smod 10\<bar>) # integer_digits (x sdiv 10) else [])"
  by pat_completeness auto
termination
proof (relation "measure (\<lambda>x. nat \<bar>x\<bar>)", simp, goal_cases)
  case (1 x)
  then show ?case by (simp add: signed_divide_int_def abs_mult)
qed

declare integer_digits.simps [simp del]

definition dump_integer :: "int \<Rightarrow> string" where
  "dump_integer x = (if x = 0 then ''0'' else rev (integer_digits x @ (if x < 0 then ''-'' else '''')))"

definition dump_float :: "double \<Rightarrow> string option" where
  "dump_float x = (if \<not> isfinite x then Some ''null'' else to_chars x)"

section \<open>Values\<close>

type_synonym writer = "string \<Rightarrow> string json_result option"

definition write_characters :: "string \<Rightarrow> writer" where
  "write_characters s out = Some (Inr (out @ s))"

definition and_then :: "writer \<Rightarrow> writer \<Rightarrow> writer" where
  "and_then f g out = Option.bind (f out) (\<lambda>r. case r of Inl e \<Rightarrow> Some (Inl e) | Inr out \<Rightarrow> g out)"

definition dump_string :: "bool \<Rightarrow> string \<Rightarrow> writer" where
  "dump_string ensure_ascii s =
     and_then (write_characters [CHR 0x22]) (and_then (dump_escaped ensure_ascii s) (write_characters [CHR 0x22]))"

fun dump :: "bool \<Rightarrow> json \<Rightarrow> writer"
  and dump_members :: "bool \<Rightarrow> (string \<times> json) list \<Rightarrow> writer"
  and dump_elements :: "bool \<Rightarrow> json list \<Rightarrow> writer" where
  "dump ascii (Json_object m) =
     (if m = [] then write_characters [CHR 0x7B, CHR 0x7D]
      else and_then (write_characters [CHR 0x7B]) (and_then (dump_members ascii m) (write_characters [CHR 0x7D])))"
| "dump ascii (Json_array xs) =
     (if xs = [] then write_characters [CHR 0x5B, CHR 0x5D]
      else and_then (write_characters [CHR 0x5B]) (and_then (dump_elements ascii xs) (write_characters [CHR 0x5D])))"
| "dump ascii (Json_string s) = dump_string ascii s"
| "dump ascii (Json_boolean b) = write_characters (if b then ''true'' else ''false'')"
| "dump ascii (Json_integer i) = write_characters (dump_integer (sint i))"
| "dump ascii (Json_unsigned u) = write_characters (dump_integer (uint u))"
| "dump ascii (Json_float x) = (\<lambda>out. Option.bind (dump_float x) (\<lambda>s. write_characters s out))"
| "dump ascii Json_discarded = write_characters ''<discarded>''"
| "dump ascii Json_null = write_characters ''null''"
| "dump_members ascii [] = write_characters []"
| "dump_members ascii ((k, v) # m) =
     and_then (dump_string ascii k) (and_then (write_characters [CHR 0x3A]) (and_then (dump ascii v)
       (if m = [] then write_characters [] else and_then (write_characters [CHR 0x2C]) (dump_members ascii m))))"
| "dump_elements ascii [] = write_characters []"
| "dump_elements ascii (x # xs) =
     and_then (dump ascii x)
       (if xs = [] then write_characters [] else and_then (write_characters [CHR 0x2C]) (dump_elements ascii xs))"

definition dump_text :: "json \<Rightarrow> string json_result option" where
  "dump_text j = dump False j []"

end
