(* ===== verification/Pusher.thy ===== *)
theory Pusher
  imports WebSocket_Client Containers Json_Parser Json_Serializer
begin

text \<open>
  The client of the Pusher protocol (\<open>src/src/network/Pusher.hpp\<close>), a WebSocket client that
  routes events to subscriptions, and the REST client (\<open>src/src/network/RestClient.hpp\<close>), over
  the JSON values of \<open>Json\<close>. \<open>None\<close> stands for undefined behaviour and for a call that does not
  return.
\<close>

text \<open>An exception of the program, or one that the JSON library throws.\<close>

datatype failure = Program_exn exn | Library_exn json_exn

section \<open>The Pusher client\<close>

text \<open>
  A callback changes the state of the application, which its user data points to; it may throw,
  and the changes made before stay.
\<close>

type_synonym 's outcome = "(json_exn option \<times> 's) option"

type_synonym 's callback = "string \<Rightarrow> json \<Rightarrow> 's \<Rightarrow> 's outcome"

record 's subscription =
  sub_channel_name :: string
  sub_callback :: "'s callback"

record 's pusher =
  pu_client :: client
  pu_url :: string
  pu_subscriptions :: "(string \<times> 's subscription) list"

definition pusher_url :: "string \<Rightarrow> string \<Rightarrow> string" where
  "pusher_url key cluster =
     ''ws://ws-'' @ cluster @ ''.pusher.com/app/'' @ key @ ''?client=cpptrading&version=0.01&protocol=7''"

definition mk_pusher :: "string \<Rightarrow> string \<Rightarrow> 's pusher" where
  "mk_pusher key cluster = \<lparr>pu_client = mk_client, pu_url = pusher_url key cluster, pu_subscriptions = []\<rparr>"

definition string_bytes :: "string \<Rightarrow> byte list" where
  "string_bytes s = map of_char s"

text \<open>The braces are initialiser lists; the outer one makes an object of two members.\<close>

definition pusher_message :: "string \<Rightarrow> json \<Rightarrow> json" where
  "pusher_message event data = json_of_list
     [json_of_list [Json_string ''event'', Json_string event], json_of_list [Json_string ''data'', data]]"

definition pusher_payload :: "string \<Rightarrow> json \<Rightarrow> string json_result option" where
  "pusher_payload event data = dump_text (pusher_message event data)"

definition pusher_send :: "string \<Rightarrow> json \<Rightarrow> 's pusher \<Rightarrow> 's pusher json_result option" where
  "pusher_send event data p =
     Option.bind (pusher_payload event data) (\<lambda>r. case r of
       Inl e \<Rightarrow> Some (Inl e)
     | Inr payload \<Rightarrow> map_option (\<lambda>c. Inr (p\<lparr>pu_client := c\<rparr>)) (wc_send (string_bytes payload) (pu_client p)))"

definition pusher_subscribe :: "string \<Rightarrow> string list \<Rightarrow> 's callback \<Rightarrow> 's pusher \<Rightarrow> 's pusher" where
  "pusher_subscribe channel_name events callable p = p\<lparr>pu_subscriptions :=
     foldl (\<lambda>m event. mm_insert string_less event \<lparr>sub_channel_name = channel_name, sub_callback = callable\<rparr> m)
       (pu_subscriptions p) events\<rparr>"

definition pusher_unsubscribe :: "'s pusher \<Rightarrow> 's pusher" where
  "pusher_unsubscribe p = p\<lparr>pu_subscriptions := []\<rparr>"

text \<open>The names of the channels as a sorted set, and the messages that subscribe to them.\<close>

definition channel_names :: "'s pusher \<Rightarrow> string list" where
  "channel_names p = foldl (\<lambda>ns e. set_insert string_less (sub_channel_name (snd e)) ns) [] (pu_subscriptions p)"

definition channel_data :: "string \<Rightarrow> json" where
  "channel_data channel_name = json_of_list [json_of_list [Json_string ''channel'', Json_string channel_name]]"

fun send_all :: "string list \<Rightarrow> 's pusher \<Rightarrow> 's pusher json_result option" where
  "send_all [] p = Some (Inr p)"
| "send_all (n # ns) p =
     Option.bind (pusher_send ''pusher:subscribe'' (channel_data n) p) (\<lambda>r. case r of
       Inl e \<Rightarrow> Some (Inl e)
     | Inr p \<Rightarrow> send_all ns p)"

definition pusher_start ::
    "(wsocket \<times> socket) option \<Rightarrow> 's pusher \<Rightarrow> (failure + 's pusher) option" where
  "pusher_start link p =
     (case wc_start (pu_url p) link (pu_client p) of
        (Inl e, c) \<Rightarrow> Some (Inl (Program_exn e))
      | (Inr _, c) \<Rightarrow> map_option (\<lambda>r. case r of Inl e \<Rightarrow> Inl (Library_exn e) | Inr p \<Rightarrow> Inr p)
          (send_all (channel_names p) (p\<lparr>pu_client := c\<rparr>)))"

text \<open>
  A received payload. The first parse is outside of the handler, so its error leaves the
  callback; the second one is inside, but the handler is for type errors only. A type error
  that a callback throws is caught there, too.
\<close>

definition callbacks_for :: "string \<Rightarrow> 's pusher \<Rightarrow> 's subscription list" where
  "callbacks_for event p = map snd (filter (\<lambda>e. \<not> string_less (fst e) event \<and> \<not> string_less event (fst e)) (pu_subscriptions p))"

fun run_callbacks :: "'s subscription list \<Rightarrow> string \<Rightarrow> json \<Rightarrow> 's \<Rightarrow> 's outcome" where
  "run_callbacks [] event data s = Some (None, s)"
| "run_callbacks (sub # subs) event data s =
     Option.bind (sub_callback sub event data s) (\<lambda>(e, s).
       if e = None then run_callbacks subs event data s else Some (e, s))"

text \<open>What the callback reads of a message: the event, and the data that its text holds.\<close>

definition message_fields :: "json \<Rightarrow> (string \<times> json) json_result option" where
  "message_fields message =
     (case json_bind (json_at message ''event'') json_get_string of
        Inl e \<Rightarrow> Some (Inl e)
      | Inr event \<Rightarrow> (case json_bind (json_at message ''data'') json_get_string of
          Inl e \<Rightarrow> Some (Inl e)
        | Inr text \<Rightarrow> map_option (\<lambda>r. json_bind r (\<lambda>data. Inr (event, data))) (parse_text text)))"

definition pusher_route :: "'s pusher \<Rightarrow> json \<Rightarrow> 's \<Rightarrow> 's outcome" where
  "pusher_route p message s =
     Option.bind (message_fields message) (\<lambda>r. case r of
       Inl e \<Rightarrow> Some (Some e, s)
     | Inr (event, data) \<Rightarrow> run_callbacks (callbacks_for event p) event data s)"

fun is_type_error :: "json_exn \<Rightarrow> bool" where
  "is_type_error (Type_error eid m) = True"
| "is_type_error _ = False"

definition pusher_callback :: "'s pusher \<Rightarrow> string \<Rightarrow> 's \<Rightarrow> 's outcome" where
  "pusher_callback p payload s =
     Option.bind (parse_text payload) (\<lambda>r. case r of
       Inl e \<Rightarrow> Some (Some e, s)
     | Inr message \<Rightarrow> map_option (\<lambda>(e, s). (case e of
           Some x \<Rightarrow> if is_type_error x then None else Some x
         | None \<Rightarrow> None, s)) (pusher_route p message s))"

section \<open>The REST client\<close>

datatype curl_option =
    CURLOPT_URL string
  | CURLOPT_FOLLOWLOCATION int
  | CURLOPT_USERAGENT string
  | CURLOPT_TIMEOUT int
  | CURLOPT_MAXREDIRS int
  | CURLOPT_HTTPHEADER "string list"
  | CURLOPT_CUSTOMREQUEST string
  | CURLOPT_POSTFIELDS string

record rest_client =
  rest_base_url :: string
  rest_headers :: "string list"
  rest_headers_nopayload :: "string list"
  rest_timeout :: int

definition mk_rest_client :: "string \<Rightarrow> rest_client" where
  "mk_rest_client base_url = \<lparr>rest_base_url = base_url,
     rest_headers = [''Content-Type: application/json'', ''Accept: application/json''],
     rest_headers_nopayload = [''Accept: application/json''], rest_timeout = 5\<rparr>"

definition set_timeout :: "int \<Rightarrow> rest_client \<Rightarrow> rest_client" where
  "set_timeout timeout r = r\<lparr>rest_timeout := timeout\<rparr>"

text \<open>The options in the order they are set; deleting sends no method of its own.\<close>

definition rest_options :: "rest_client \<Rightarrow> string \<Rightarrow> string \<Rightarrow> string \<Rightarrow> curl_option list" where
  "rest_options r verb full_url request_body =
     [CURLOPT_URL full_url, CURLOPT_FOLLOWLOCATION 1, CURLOPT_USERAGENT ''cpptrading'', CURLOPT_TIMEOUT (rest_timeout r),
      CURLOPT_MAXREDIRS 1] @
     (if verb = ''GET'' \<or> verb = ''DELETE'' then [CURLOPT_HTTPHEADER (rest_headers_nopayload r)]
      else [CURLOPT_CUSTOMREQUEST verb, CURLOPT_HTTPHEADER (rest_headers r), CURLOPT_POSTFIELDS request_body])"

text \<open>
  The library: \<open>curl_easy_init\<close>, \<open>curl_easy_perform\<close> with the blocks it gives to the writer, and
  \<open>curl_easy_getinfo\<close>, which has no defined result on a handle that was cleaned up.
\<close>

record curl =
  curl_init :: bool
  curl_perform :: "curl_option list \<Rightarrow> string option \<times> string list"
  curl_getinfo_freed :: "int option"

fun curl_writer :: "string \<Rightarrow> string \<Rightarrow> string \<times> nat" where
  "curl_writer data buf = (buf @ data, length data)"

definition response_body :: "string list \<Rightarrow> string" where
  "response_body blocks = foldl (\<lambda>buf data. fst (curl_writer data buf)) [] blocks"

text \<open>The response: the body is parsed, and a text that is no JSON gives the null value.\<close>

definition response_data :: "string \<Rightarrow> json option" where
  "response_data body = map_option (\<lambda>r. case r of Inl e \<Rightarrow> Json_null | Inr j \<Rightarrow> j) (parse_text body)"

definition rest_request ::
    "curl \<Rightarrow> rest_client \<Rightarrow> string \<Rightarrow> string \<Rightarrow> json \<Rightarrow> (failure + int \<times> json) option" where
  "rest_request C r verb url data =
     (if \<not> curl_init C then Some (Inl (Program_exn (mk_exn NetworkException [''Could not initialize cURL''])))
      else let full_url = rest_base_url r @ url in
        Option.bind (dump_text data) (\<lambda>d. case d of
          Inl e \<Rightarrow> Some (Inl (Library_exn e))
        | Inr request_body \<Rightarrow>
            let (result, blocks) = curl_perform C (rest_options r verb full_url request_body) in
            Option.bind (curl_getinfo_freed C) (\<lambda>http_code.
              case result of
                Some e \<Rightarrow> Some (Inl (Program_exn (mk_exn NetworkException [''Could not perform cURL'', verb, full_url, e])))
              | None \<Rightarrow> map_option (\<lambda>j. Inr (http_code mod 65536, j)) (response_data (response_body blocks)))))"

definition rest_get where "rest_get C r url = rest_request C r ''GET'' url Json_null"
definition rest_post where "rest_post C r url data = rest_request C r ''POST'' url data"
definition rest_patch where "rest_patch C r url data = rest_request C r ''PATCH'' url data"
definition rest_del where "rest_del C r url = rest_request C r ''DELETE'' url Json_null"
definition rest_put where "rest_put C r url data = rest_request C r ''PUT'' url data"

section \<open>Routing\<close>

text \<open>Subscriptions made one after the other, and those among them for an event.\<close>

type_synonym 's subscribe_call = "string \<times> string list \<times> 's callback"

definition subscribe_all :: "'s subscribe_call list \<Rightarrow> 's pusher \<Rightarrow> 's pusher" where
  "subscribe_all calls p = foldl (\<lambda>p (channel_name, events, callable). pusher_subscribe channel_name events callable p) p calls"

definition subscribed :: "string \<Rightarrow> 's subscribe_call list \<Rightarrow> 's subscription list" where
  "subscribed event calls = concat (map (\<lambda>(channel_name, events, callable).
     map (\<lambda>_. \<lparr>sub_channel_name = channel_name, sub_callback = callable\<rparr>) (filter (\<lambda>e. e = event) events)) calls)"

lemma callbacks_eq: "callbacks_for event p = map snd (filter (\<lambda>e. fst e = event) (pu_subscriptions p))"
proof -
  have "(\<not> string_less a event \<and> \<not> string_less event a) = (a = event)" for a using string_less_neq by blast
  then show ?thesis by (simp add: callbacks_for_def)
qed

lemma insert_callbacks:
  fixes m :: "(string \<times> 'a) list"
  assumes "mm_sorted string_less m"
  shows "mm_sorted string_less (mm_insert string_less k v m)"
    and "map snd (filter (\<lambda>e. fst e = q) (mm_insert string_less k v m)) =
      map snd (filter (\<lambda>e. fst e = q) m) @ (if k = q then [v] else [])"
proof -
  have ok: "mm_ok (\<lambda>_. True) m" by (simp add: mm_ok_def)
  show "mm_sorted string_less (mm_insert string_less k v m)" by (rule strings.mm_sorted_insert[OF assms ok]) simp
  have eq: "filter (\<lambda>e. \<not> string_less (fst e) q \<and> \<not> string_less q (fst e)) l = filter (\<lambda>e. fst e = q) l" for l :: "(string \<times> 'a) list"
    using string_less_neq by (intro filter_cong) auto
  show "map snd (filter (\<lambda>e. fst e = q) (mm_insert string_less k v m)) =
      map snd (filter (\<lambda>e. fst e = q) m) @ (if k = q then [v] else [])"
    using strings.mm_insert_stable[OF assms ok TrueI TrueI, where k = k and q = q and v = v]
    by (simp add: eq string_less_neq)
qed

lemma subscribe_callbacks:
  assumes "mm_sorted string_less (pu_subscriptions p)"
  shows "mm_sorted string_less (pu_subscriptions (pusher_subscribe ch events cb p)) \<and>
    callbacks_for event (pusher_subscribe ch events cb p) = callbacks_for event p @ subscribed event [(ch, events, cb)]"
proof (induction events rule: rev_induct)
  case Nil
  then show ?case using assms by (simp add: pusher_subscribe_def subscribed_def callbacks_for_def)
next
  case (snoc e es)
  then show ?case
    unfolding pusher_subscribe_def callbacks_eq
    by (simp add: insert_callbacks subscribed_def)
qed

lemma subscribe_all_callbacks:
  assumes "mm_sorted string_less (pu_subscriptions p)"
  shows "mm_sorted string_less (pu_subscriptions (subscribe_all calls p)) \<and>
    callbacks_for event (subscribe_all calls p) = callbacks_for event p @ subscribed event calls"
proof (induction calls rule: rev_induct)
  case Nil
  then show ?case using assms by (simp add: subscribe_all_def subscribed_def)
next
  case (snoc c cs)
  obtain ch events cb where c: "c = (ch, events, cb)" by (cases c) auto
  have "subscribe_all (cs @ [c]) p = pusher_subscribe ch events cb (subscribe_all cs p)"
    by (simp add: subscribe_all_def c)
  then show ?case using subscribe_callbacks[of "subscribe_all cs p" ch events cb event] snoc.IH
    by (simp add: subscribed_def c)
qed

text \<open>
  C35: An event runs exactly the callbacks subscribed for its name, once for every subscription
  and in the order of the subscriptions; the channel the message came from plays no part. A
  payload that is no JSON throws out of the callback and of the thread that runs it, and so does
  data that is none and a message without an event; a field of another type, or a type error in
  a callback, is dropped.
\<close>

theorem pusher_routes:
  assumes "p = subscribe_all calls (mk_pusher key cluster)"
  shows "(parse_text payload = Some (Inl e) \<longrightarrow> pusher_callback p payload s = Some (Some e, s)) \<and>
    (parse_text payload = Some (Inr message) \<longrightarrow>
      (message_fields message = Some (Inr (event, data)) \<and>
        run_callbacks (subscribed event calls) event data s = Some (x, s') \<longrightarrow>
        pusher_callback p payload s =
          Some (if x \<noteq> None \<and> is_type_error (the x) then None else x, s')) \<and>
      (message_fields message = Some (Inl e) \<longrightarrow>
        pusher_callback p payload s = Some (if is_type_error e then None else Some e, s)))"
proof -
  have "pu_subscriptions (mk_pusher key cluster) = []" by (simp add: mk_pusher_def)
  then have c: "callbacks_for event p = subscribed event calls"
    using subscribe_all_callbacks[of "mk_pusher key cluster" calls event] by (simp add: assms mm_sorted_def mk_pusher_def callbacks_for_def)
  show ?thesis
    by (cases x) (simp_all add: pusher_callback_def pusher_route_def c)
qed

text \<open>The payload \<open>{"event":"trade","data":"7"}\<close>, with the quotes written as bytes.\<close>

definition demo_payload :: string where
  "demo_payload = (let q = [CHR 0x22] in [CHR 0x7B] @ q @ ''event'' @ q @ '':'' @ q @ ''trade'' @ q @ '','' @
     q @ ''data'' @ q @ '':'' @ q @ ''7'' @ q @ [CHR 0x7D])"

definition demo_message :: json where
  "demo_message = Json_object [(''data'', Json_string ''7''), (''event'', Json_string ''trade'')]"

definition demo_calls :: "nat list subscribe_call list" where
  "demo_calls = [(''live_trades_btceur'', [''trade''], \<lambda>e d s. Some (None, s @ [1])),
     (''live_orders_btceur'', [''order_created'', ''trade''], \<lambda>e d s. Some (None, s @ [2]))]"

lemma demo_parse: "parse_text demo_payload = Some (Inr demo_message)"
  by code_simp

lemma demo_message_fields: "message_fields demo_message = Some (Inr (''trade'', Json_unsigned 7))"
  by code_simp

theorem pusher_routes_witness:
  "pusher_callback (subscribe_all demo_calls (mk_pusher ''k'' ''mt1'')) demo_payload [0] = Some (None, [0, 1, 2])"
  using pusher_routes[OF refl, of demo_payload undefined demo_calls "''k''" "''mt1''" "[0]" demo_message
      "''trade''" "Json_unsigned 7" None "[0, 1, 2]"]
  by (simp add: demo_parse demo_message_fields subscribed_def demo_calls_def)

section \<open>REST requests\<close>

text \<open>The writer collects the blocks in order.\<close>

lemma response_body_concat: "response_body blocks = concat blocks"
proof -
  have "foldl (\<lambda>buf data. fst (curl_writer data buf)) buf blocks = buf @ concat blocks" for buf
    by (induction blocks arbitrary: buf) simp_all
  then show ?thesis by (simp add: response_body_def)
qed

text \<open>
  Every request asks a handle for the code of the response after it has cleaned the handle up,
  so it has no defined behaviour, whatever the server answers; only the failure to get a handle
  is reported, and a body that cannot be dumped.
\<close>

theorem request_uses_freed_handle:
  assumes "curl_getinfo_freed C = None"
  shows "rest_request C r verb url data =
    (if \<not> curl_init C then Some (Inl (Program_exn (mk_exn NetworkException [''Could not initialize cURL''])))
     else Option.bind (dump_text data) (\<lambda>d. case d of Inl e \<Rightarrow> Some (Inl (Library_exn e)) | Inr b \<Rightarrow> None))"
  using assms by (cases "dump_text data") (simp_all add: rest_request_def Let_def split: sum.split prod.split)

end
