(* ===== verification/Json_Utf8.thy ===== *)
theory Json_Utf8
  imports Json_Serializer Json_Lexer
begin

text \<open>
  The UTF-8 of the JSON library, in its two forms: the table of the decoder that the serializer
  runs accepts the same bytes as the ranges of the lexer, and in the same places.
\<close>

section \<open>The decoder and the ranges\<close>

text \<open>The state in which the decoder waits for bytes of the ranges.\<close>

definition range_states :: "((nat \<times> nat) list \<times> nat) list" where
  "range_states =
    [([], 0),
     ([(0x80, 0xBF)], 2),
     ([(0x80, 0xBF), (0x80, 0xBF)], 3),
     ([(0xA0, 0xBF), (0x80, 0xBF)], 4),
     ([(0x80, 0x9F), (0x80, 0xBF)], 5),
     ([(0x90, 0xBF), (0x80, 0xBF), (0x80, 0xBF)], 6),
     ([(0x80, 0xBF), (0x80, 0xBF), (0x80, 0xBF)], 7),
     ([(0x80, 0x8F), (0x80, 0xBF), (0x80, 0xBF)], 8)]"

definition state_of :: "(nat \<times> nat) list \<Rightarrow> nat" where
  "state_of rs = (case map_of range_states rs of Some st \<Rightarrow> st | None \<Rightarrow> 1)"

definition next_state :: "nat \<Rightarrow> nat \<Rightarrow> nat" where
  "next_state st n = utf8d ! (256 + st * 16 + utf8d ! n)"

definition first_codepoint :: "nat \<Rightarrow> nat" where
  "first_codepoint n = drop_bit (utf8d ! n) 0xFF AND n"

text \<open>The least code point that bytes of the ranges can make of a code point begun.\<close>

fun least_codepoint :: "(nat \<times> nat) list \<Rightarrow> nat \<Rightarrow> nat" where
  "least_codepoint [] cp = cp"
| "least_codepoint ((lo, hi) # rs) cp = least_codepoint rs (64 * cp + (lo - 128))"

text \<open>The table in rows: runs of the classes of bytes, then a row of 16 for each state.\<close>

definition class_runs :: "(nat \<times> nat) list" where
  "class_runs = [(128, 0), (16, 1), (16, 9), (32, 7), (2, 8), (30, 2), (1, 10), (12, 3), (1, 4), (2, 3), (1, 11), (3, 6), (1, 5), (11, 8)]"

fun run_value :: "(nat \<times> nat) list \<Rightarrow> nat \<Rightarrow> nat" where
  "run_value [] n = 0"
| "run_value ((k, v) # runs) n = (if n < k then v else run_value runs (n - k))"

definition byte_class :: "nat \<Rightarrow> nat" where
  "byte_class n = run_value class_runs n"

lemma run_value_nth:
  "n < sum_list (map fst runs) \<Longrightarrow> concat (map (\<lambda>(k, v). replicate k v) runs) ! n = run_value runs n"
  by (induction runs n rule: run_value.induct) (auto simp: nth_append)

definition state_rows :: "nat list list" where
  "state_rows =
    [[0, 1, 2, 3, 5, 8, 7, 1, 1, 1, 4, 6, 1, 1, 1, 1],
     [1, 1, 1, 1, 1, 1, 1, 1, 1, 1, 1, 1, 1, 1, 1, 1],
     [1, 0, 1, 1, 1, 1, 1, 0, 1, 0, 1, 1, 1, 1, 1, 1],
     [1, 2, 1, 1, 1, 1, 1, 2, 1, 2, 1, 1, 1, 1, 1, 1],
     [1, 1, 1, 1, 1, 1, 1, 2, 1, 1, 1, 1, 1, 1, 1, 1],
     [1, 2, 1, 1, 1, 1, 1, 1, 1, 2, 1, 1, 1, 1, 1, 1],
     [1, 1, 1, 1, 1, 1, 1, 3, 1, 3, 1, 1, 1, 1, 1, 1],
     [1, 3, 1, 1, 1, 1, 1, 3, 1, 3, 1, 1, 1, 1, 1, 1],
     [1, 3, 1, 1, 1, 1, 1, 1, 1, 1, 1, 1, 1, 1, 1, 1]]"

lemma replicate_lists:
  "replicate 128 x = [x, x, x, x, x, x, x, x, x, x, x, x, x, x, x, x, x, x, x, x, x, x, x, x, x, x, x, x, x, x, x, x, x, x, x, x, x, x, x, x, x, x, x, x, x, x, x, x, x, x, x, x, x, x, x, x, x, x, x, x, x, x, x, x, x, x, x, x, x, x, x, x, x, x, x, x, x, x, x, x, x, x, x, x, x, x, x, x, x, x, x, x, x, x, x, x, x, x, x, x, x, x, x, x, x, x, x, x, x, x, x, x, x, x, x, x, x, x, x, x, x, x, x, x, x, x, x, x]"
  "replicate 32 x = [x, x, x, x, x, x, x, x, x, x, x, x, x, x, x, x, x, x, x, x, x, x, x, x, x, x, x, x, x, x, x, x]"
  "replicate 30 x = [x, x, x, x, x, x, x, x, x, x, x, x, x, x, x, x, x, x, x, x, x, x, x, x, x, x, x, x, x, x]"
  "replicate 16 x = [x, x, x, x, x, x, x, x, x, x, x, x, x, x, x, x]"
  "replicate 12 x = [x, x, x, x, x, x, x, x, x, x, x, x]"
  "replicate 11 x = [x, x, x, x, x, x, x, x, x, x, x]"
  "replicate 3 x = [x, x, x]"
  "replicate 2 x = [x, x]"
  "replicate 1 x = [x]"
  by (simp_all add: numeral_eq_Suc)

lemma utf8d_rows: "utf8d = concat (map (\<lambda>(k, v). replicate k v) class_runs) @ concat state_rows"
  unfolding utf8d_def state_rows_def class_runs_def list.map prod.case replicate_lists
  by (simp only: append.simps concat.simps append_Nil2)

lemma length_runs: "length (concat (map (\<lambda>(k, v). replicate k v) class_runs)) = 256"
  by (simp add: class_runs_def)

lemma utf8d_class:
  assumes "n < 256"
  shows "utf8d ! n = byte_class n"
proof -
  have "sum_list (map fst class_runs) = 256" by (simp add: class_runs_def)
  then show ?thesis
    using assms run_value_nth[of n class_runs] by (simp add: utf8d_rows nth_append length_runs byte_class_def)
qed

lemma utf8d_state: "st < 9 \<Longrightarrow> ty < 16 \<Longrightarrow> utf8d ! (256 + st * 16 + ty) = state_rows ! st ! ty"
proof -
  assume a: "st < 9" "ty < 16"
  have "concat xss ! (st * 16 + ty) = xss ! st ! ty" if "list_all (\<lambda>xs. length xs = 16) xss" "st < length xss" for xss :: "nat list list"
    using that
  proof (induction xss arbitrary: st)
    case (Cons xs xss)
    then show ?case using a(2) by (cases st) (auto simp: nth_append)
  qed simp
  from this[of state_rows] show "utf8d ! (256 + st * 16 + ty) = state_rows ! st ! ty"
    using a length_runs by (simp add: utf8d_rows nth_append state_rows_def add.assoc)
qed

lemma byte_class_eval:
  "n < 128 \<Longrightarrow> byte_class n = 0"
  "128 \<le> n \<Longrightarrow> n < 144 \<Longrightarrow> byte_class n = 1"
  "144 \<le> n \<Longrightarrow> n < 160 \<Longrightarrow> byte_class n = 9"
  "160 \<le> n \<Longrightarrow> n < 192 \<Longrightarrow> byte_class n = 7"
  "192 \<le> n \<Longrightarrow> n < 194 \<Longrightarrow> byte_class n = 8"
  "194 \<le> n \<Longrightarrow> n < 224 \<Longrightarrow> byte_class n = 2"
  "n = 224 \<Longrightarrow> byte_class n = 10"
  "225 \<le> n \<Longrightarrow> n < 237 \<Longrightarrow> byte_class n = 3"
  "n = 237 \<Longrightarrow> byte_class n = 4"
  "238 \<le> n \<Longrightarrow> n < 240 \<Longrightarrow> byte_class n = 3"
  "n = 240 \<Longrightarrow> byte_class n = 11"
  "241 \<le> n \<Longrightarrow> n < 244 \<Longrightarrow> byte_class n = 6"
  "n = 244 \<Longrightarrow> byte_class n = 5"
  "245 \<le> n \<Longrightarrow> n < 256 \<Longrightarrow> byte_class n = 8"
  by (auto simp: byte_class_def class_runs_def)

lemma byte_cases:
  assumes "n < (256 :: nat)"
  obtains "n < 128" | "128 \<le> n" "n < 144" | "144 \<le> n" "n < 160" | "160 \<le> n" "n < 192" | "192 \<le> n" "n < 194"
    | "194 \<le> n" "n < 224" | "n = 224" | "225 \<le> n" "n < 237" | "n = 237" | "238 \<le> n" "n < 240"
    | "n = 240" | "241 \<le> n" "n < 244" | "n = 244" | "245 \<le> n"
  apply (cases "n < 128", rule that(1); simp)
  apply (cases "n < 144", rule that(2); simp)
  apply (cases "n < 160", rule that(3); simp)
  apply (cases "n < 192", rule that(4); simp)
  apply (cases "n < 194", rule that(5); simp)
  apply (cases "n < 224", rule that(6); simp)
  apply (cases "n < 225", rule that(7); simp)
  apply (cases "n < 237", rule that(8); simp)
  apply (cases "n < 238", rule that(9); simp)
  apply (cases "n < 240", rule that(10); simp)
  apply (cases "n < 241", rule that(11); simp)
  apply (cases "n < 244", rule that(12); simp)
  apply (cases "n < 245", rule that(13); simp)
  done

lemma next_state_row: "st < 9 \<Longrightarrow> n < 256 \<Longrightarrow> next_state st n = state_rows ! st ! byte_class n"
proof -
  assume a: "st < 9" "n < 256"
  have "byte_class n < 16" by (cases rule: byte_cases[OF a(2)]) (simp_all add: byte_class_eval a(2))
  then show "next_state st n = state_rows ! st ! byte_class n"
    using a by (simp add: next_state_def utf8d_class utf8d_state)
qed

lemma mask_and: "(2 ^ k - 1) AND n = n mod 2 ^ k" for n :: nat
  by (metis and.commute mask_eq_exp_minus_1 take_bit_eq_mask take_bit_eq_mod)

text \<open>Where the states lead.\<close>

lemma next_state_0:
  "n < 128 \<Longrightarrow> next_state 0 n = 0"
  "128 \<le> n \<Longrightarrow> n < 144 \<Longrightarrow> next_state 0 n = 1"
  "144 \<le> n \<Longrightarrow> n < 160 \<Longrightarrow> next_state 0 n = 1"
  "160 \<le> n \<Longrightarrow> n < 192 \<Longrightarrow> next_state 0 n = 1"
  "192 \<le> n \<Longrightarrow> n < 194 \<Longrightarrow> next_state 0 n = 1"
  "194 \<le> n \<Longrightarrow> n < 224 \<Longrightarrow> next_state 0 n = 2"
  "n = 224 \<Longrightarrow> next_state 0 n = 4"
  "225 \<le> n \<Longrightarrow> n < 237 \<Longrightarrow> next_state 0 n = 3"
  "n = 237 \<Longrightarrow> next_state 0 n = 5"
  "238 \<le> n \<Longrightarrow> n < 240 \<Longrightarrow> next_state 0 n = 3"
  "n = 240 \<Longrightarrow> next_state 0 n = 6"
  "241 \<le> n \<Longrightarrow> n < 244 \<Longrightarrow> next_state 0 n = 7"
  "n = 244 \<Longrightarrow> next_state 0 n = 8"
  "245 \<le> n \<Longrightarrow> n < 256 \<Longrightarrow> next_state 0 n = 1"
  by (simp_all add: next_state_row byte_class_eval, simp_all add: state_rows_def)

lemma next_state_2: "n < 256 \<Longrightarrow> next_state 2 n = (if 128 \<le> n \<and> n \<le> 191 then 0 else 1)"
  by (cases n rule: byte_cases; simp add: next_state_row byte_class_eval; simp add: state_rows_def)

lemma next_state_3: "n < 256 \<Longrightarrow> next_state 3 n = (if 128 \<le> n \<and> n \<le> 191 then 2 else 1)"
  by (cases n rule: byte_cases; simp add: next_state_row byte_class_eval; simp add: state_rows_def)

lemma next_state_4: "n < 256 \<Longrightarrow> next_state 4 n = (if 160 \<le> n \<and> n \<le> 191 then 2 else 1)"
  by (cases n rule: byte_cases; simp add: next_state_row byte_class_eval; simp add: state_rows_def)

lemma next_state_5: "n < 256 \<Longrightarrow> next_state 5 n = (if 128 \<le> n \<and> n \<le> 159 then 2 else 1)"
  by (cases n rule: byte_cases; simp add: next_state_row byte_class_eval; simp add: state_rows_def)

lemma next_state_6: "n < 256 \<Longrightarrow> next_state 6 n = (if 144 \<le> n \<and> n \<le> 191 then 3 else 1)"
  by (cases n rule: byte_cases; simp add: next_state_row byte_class_eval; simp add: state_rows_def)

lemma next_state_7: "n < 256 \<Longrightarrow> next_state 7 n = (if 128 \<le> n \<and> n \<le> 191 then 3 else 1)"
  by (cases n rule: byte_cases; simp add: next_state_row byte_class_eval; simp add: state_rows_def)

lemma next_state_8: "n < 256 \<Longrightarrow> next_state 8 n = (if 128 \<le> n \<and> n \<le> 143 then 3 else 1)"
  by (cases n rule: byte_cases; simp add: next_state_row byte_class_eval; simp add: state_rows_def)

lemma first_codepoint_class: "n < 256 \<Longrightarrow> first_codepoint n = (255 div 2 ^ byte_class n) AND n"
  by (simp add: first_codepoint_def utf8d_class drop_bit_eq_div)

lemma first_byte_ascii: "n < 128 \<Longrightarrow> next_state 0 n = 0 \<and> first_codepoint n = n"
  using mask_and[of 8 n] by (simp add: next_state_0 byte_class_eval first_codepoint_class)

lemma first_byte_invalid: "128 \<le> n \<Longrightarrow> n < 256 \<Longrightarrow> follow_ranges n = None \<Longrightarrow> next_state 0 n = 1"
  by (cases n rule: byte_cases) (auto simp: next_state_0 follow_ranges_def split: if_splits)

text \<open>The states of all ranges, and the code points of first bytes.\<close>

lemma state_of_ranges:
  "state_of [] = 0" "state_of [(128, 191)] = 2" "state_of [(128, 191), (128, 191)] = 3"
  "state_of [(160, 191), (128, 191)] = 4" "state_of [(128, 159), (128, 191)] = 5"
  "state_of [(144, 191), (128, 191), (128, 191)] = 6" "state_of [(128, 191), (128, 191), (128, 191)] = 7"
  "state_of [(128, 143), (128, 191), (128, 191)] = 8"
  by (simp_all add: state_of_def range_states_def)

lemma first_codepoint_range:
  "194 \<le> n \<Longrightarrow> n < 224 \<Longrightarrow> first_codepoint n = n - 192"
  "n = 224 \<Longrightarrow> first_codepoint n = 0"
  "225 \<le> n \<Longrightarrow> n < 237 \<Longrightarrow> first_codepoint n = n - 224"
  "n = 237 \<Longrightarrow> first_codepoint n = 13"
  "238 \<le> n \<Longrightarrow> n < 240 \<Longrightarrow> first_codepoint n = n - 224"
  "n = 240 \<Longrightarrow> first_codepoint n = 0"
  "241 \<le> n \<Longrightarrow> n < 244 \<Longrightarrow> first_codepoint n = n - 240"
  "n = 244 \<Longrightarrow> first_codepoint n = 4"
  using mask_and[of 6 n] mask_and[of 5 n] mask_and[of 2 n]
  by (simp_all add: first_codepoint_class byte_class_eval mod_nat_eqI)

lemma first_byte_range:
  assumes "n < 256" "follow_ranges n = Some rs"
  shows "128 \<le> n" "rs \<noteq> []" "rs \<in> set (map fst range_states)" "next_state 0 n = state_of rs"
    "0x80 \<le> least_codepoint rs (first_codepoint n)" "(first_codepoint n + 1) * 64 ^ length rs \<le> 2 ^ 24"
proof -
  have e: "n = 238 \<or> n = 239" if "238 \<le> n" "n < 240" using that by arith
  have "128 \<le> n \<and> rs \<noteq> [] \<and> rs \<in> set (map fst range_states) \<and> next_state 0 n = state_of rs \<and>
      0x80 \<le> least_codepoint rs (first_codepoint n) \<and> (first_codepoint n + 1) * 64 ^ length rs \<le> 2 ^ 24"
    by (cases rule: byte_cases[OF assms(1)])
      (use assms e in \<open>auto simp: follow_ranges_def next_state_0 state_of_ranges first_codepoint_range range_states_def split: if_splits\<close>)
  then show "128 \<le> n" "rs \<noteq> []" "rs \<in> set (map fst range_states)" "next_state 0 n = state_of rs"
    "0x80 \<le> least_codepoint rs (first_codepoint n)" "(first_codepoint n + 1) * 64 ^ length rs \<le> 2 ^ 24" by simp_all
qed

lemma next_byte_range:
  assumes "(lo, hi) # rs \<in> set (map fst range_states)" "n < 256"
  shows "0x80 \<le> lo" "hi \<le> 0xBF" "rs \<in> set (map fst range_states)"
    "next_state (state_of ((lo, hi) # rs)) n = (if lo \<le> n \<and> n \<le> hi then state_of rs else 1)"
proof -
  note next_states = next_state_2 next_state_3 next_state_4 next_state_5 next_state_6 next_state_7 next_state_8
  have "0x80 \<le> lo \<and> hi \<le> 0xBF \<and> rs \<in> set (map fst range_states) \<and>
      next_state (state_of ((lo, hi) # rs)) n = (if lo \<le> n \<and> n \<le> hi then state_of rs else 1)"
    using assms(1) by (simp add: range_states_def) (elim disjE; simp add: state_of_ranges next_states assms(2))
  then show "0x80 \<le> lo" "hi \<le> 0xBF" "rs \<in> set (map fst range_states)"
    "next_state (state_of ((lo, hi) # rs)) n = (if lo \<le> n \<and> n \<le> hi then state_of rs else 1)" by simp_all
qed

end
