(* ===== verification/Json_Strings.thy ===== *)
theory Json_Strings
  imports Json_Utf8
begin

text \<open>
  Strings of JSON texts, written and read: the buffer of the serializer is large enough for
  every string, and what it writes for a string is read back as the string.
\<close>

section \<open>The string buffer\<close>

lemma length_hex [simp]: "length (hex4 n) = 4"
  by (simp add: hex4_def)

lemma decode_alt:
  "decode st cp n = (next_state st n,
     if st \<noteq> 0 then ((n AND 0x3F) OR push_bit 6 cp) mod 2 ^ 32 else first_codepoint n)"
  by (simp add: decode_def next_state_def first_codepoint_def UTF8_ACCEPT_def Let_def)

lemma follow_and:
  assumes "128 \<le> n" "n \<le> 191" "(cp + 1) * 64 \<le> (2 :: nat) ^ 24"
  shows "((n AND 0x3F) OR push_bit 6 cp) mod 2 ^ 32 = 64 * cp + (n - 128)"
proof -
  have "n AND 63 = n mod 64" using mask_and[of 6 n] by (simp add: and.commute)
  then have m: "n AND 63 = n - 128" using assms(1,2) by (simp add: mod_nat_eqI)
  have "push_bit 6 cp AND (n - 128) = 0"
  proof (rule bit_eqI)
    fix k
    have "k < 6" if "bit (n - 128) k"
    proof (rule ccontr)
      assume "\<not> k < 6"
      then have "(2 :: nat) ^ 6 \<le> 2 ^ k" by (intro power_increasing) auto
      then have "n - 128 < 2 ^ k" using assms(2) by simp
      then show False using that by (simp add: bit_iff_odd)
    qed
    then show "bit (push_bit 6 cp AND (n - 128)) k = bit 0 k" by (auto simp: bit_and_iff bit_push_bit_iff)
  qed
  then have "(n - 128) OR push_bit 6 cp = (n - 128) + push_bit 6 cp"
    by (metis and.commute disjunctive_add_eq_or)
  then show ?thesis using assms unfolding m by (simp add: push_bit_eq_mult)
qed

text \<open>The serializer waits for bytes in the ranges \<open>rs\<close>; the code point begun is not an ASCII one.\<close>

definition waits_for :: "(nat \<times> nat) list \<Rightarrow> escaper \<Rightarrow> bool" where
  "waits_for rs es \<longleftrightarrow> rs \<in> set (map fst range_states) \<and> es_state es = state_of rs \<and>
     (rs \<noteq> [] \<longrightarrow> 0x80 \<le> least_codepoint rs (es_codepoint es) \<and>
       (es_codepoint es + 1) * 64 ^ length rs \<le> 2 ^ 24)"

definition after_char :: "escaper \<Rightarrow> escaper" where
  "after_char es = (if 512 - length (es_buffer es) < 13 then flush es else es)"

definition inside_char :: "bool \<Rightarrow> char \<Rightarrow> escaper \<Rightarrow> escaper option" where
  "inside_char ascii c es = (if \<not> ascii then buffer_put [c] es else Some es)"

lemma state_of_nonempty: "rs \<in> set (map fst range_states) \<Longrightarrow> rs \<noteq> [] \<Longrightarrow> state_of rs \<noteq> 0 \<and> state_of rs \<noteq> 1"
  by (simp add: range_states_def) (elim disjE; simp add: state_of_ranges)

lemma least_codepoint_mono: "cp \<le> cp' \<Longrightarrow> least_codepoint rs cp \<le> least_codepoint rs cp'"
  by (induction rs cp arbitrary: cp' rule: least_codepoint.induct) simp_all

lemma escape_byte_alt:
  "escape_byte ascii i c es =
     (let n = of_char c; st = next_state (es_state es) n;
          cp = (if es_state es \<noteq> 0 then ((n AND 0x3F) OR push_bit 6 (es_codepoint es)) mod 2 ^ 32 else first_codepoint n);
          es = es\<lparr>es_state := st, es_codepoint := cp\<rparr> in
      if st = 0 then map_option (\<lambda>es. Inr (after_char es)) (put_codepoint ascii cp c es)
      else if st = 1 then Some (Inl (Type_error 316 (''invalid UTF-8 byte at index '' @ show_nat i @ '': 0x'' @ hex_upper2 n)))
      else map_option Inr (inside_char ascii c es))"
  by (simp add: escape_byte_def decode_alt Let_def after_char_def inside_char_def UTF8_ACCEPT_def UTF8_REJECT_def)

text \<open>What one byte does.\<close>

lemma escape_byte_cases:
  assumes "waits_for rs es"
  obtains
    (ascii) n where "rs = []" "n = of_char c" "n < 128"
      "escape_byte ascii i c es =
        map_option (\<lambda>es. Inr (after_char es)) (put_codepoint ascii n c (es\<lparr>es_state := 0, es_codepoint := n\<rparr>))"
  | (bad) e where "escape_byte ascii i c es = Some (Inl e)"
  | (inside) rs' st cp where "rs' \<noteq> []" "rs' \<in> set (map fst range_states)" "waits_for rs' (es\<lparr>es_state := st, es_codepoint := cp\<rparr>)"
      "escape_byte ascii i c es = map_option Inr (inside_char ascii c (es\<lparr>es_state := st, es_codepoint := cp\<rparr>))"
      "if rs = [] then 128 \<le> (of_char c :: nat) \<and> follow_ranges (of_char c) = Some rs'
       else \<exists>lo hi. rs = (lo, hi) # rs' \<and> lo \<le> of_char c \<and> of_char c \<le> hi"
  | (complete) lo hi cp where "rs = [(lo, hi)]" "lo \<le> of_char c" "of_char c \<le> hi" "0x80 \<le> cp"
      "escape_byte ascii i c es =
        map_option (\<lambda>es. Inr (after_char es)) (put_codepoint ascii cp c (es\<lparr>es_state := 0, es_codepoint := cp\<rparr>))"
proof -
  define n where "n = (of_char c :: nat)"
  have n: "n < 256" unfolding n_def using of_char_mod_256[of c] by (metis mod_less_divisor zero_less_numeral)
  have w: "rs \<in> set (map fst range_states)" "es_state es = state_of rs"
    "rs \<noteq> [] \<Longrightarrow> 0x80 \<le> least_codepoint rs (es_codepoint es)"
    "rs \<noteq> [] \<Longrightarrow> (es_codepoint es + 1) * 64 ^ length rs \<le> 2 ^ 24"
    using assms by (simp_all add: waits_for_def)
  note alt = escape_byte_alt[of ascii i c es, unfolded Let_def n_def[symmetric] w(2)]
  show thesis
  proof (cases rs)
    case Nil
    note alt = alt[unfolded Nil state_of_ranges]
    show thesis
    proof (cases "n < 128")
      case True
      then show thesis using alt by (intro ascii[of n]) (simp_all add: Nil n_def first_byte_ascii)
    next
      case False
      show thesis
      proof (cases "follow_ranges n")
        case None
        then have "next_state 0 n = 1" using False n by (intro first_byte_invalid) simp_all
        then show thesis using alt by (intro bad) simp
      next
        case (Some rs')
        note r = first_byte_range[OF n Some]
        note s = state_of_nonempty[OF r(3,2)]
        show thesis
          using alt r s Some
          by (intro inside[of rs' "first_codepoint n" "next_state 0 n"]) (simp_all add: Nil n_def[symmetric] waits_for_def)
      qed
    qed
  next
    case (Cons r rs')
    obtain lo hi where r: "r = (lo, hi)" by fastforce
    have rs: "rs = (lo, hi) # rs'" by (simp add: Cons r)
    note x = next_byte_range[OF w(1)[unfolded rs] n] and s = state_of_nonempty[OF w(1)]
    show thesis
    proof (cases "lo \<le> n \<and> n \<le> hi")
      case False
      then have "next_state (state_of rs) n = 1" using x(4) unfolding rs by auto
      then show thesis using alt by (intro bad) simp
    next
      case True
      define cp where "cp = 64 * es_codepoint es + (n - 128)"
      have b: "(es_codepoint es + 1) * 64 * 64 ^ length rs' \<le> 2 ^ 24" using w(4) by (simp only: rs length_Cons power_Suc mult.assoc list.distinct not_False_eq_True)
      have "(es_codepoint es + 1) * 64 \<le> (es_codepoint es + 1) * 64 * 64 ^ length rs'" by simp
      then have b1: "(es_codepoint es + 1) * 64 \<le> 2 ^ 24" using b by linarith
      have cp: "((n AND 0x3F) OR push_bit 6 (es_codepoint es)) mod 2 ^ 32 = cp"
        unfolding cp_def using True x(1,2) b1 by (intro follow_and) simp_all
      have "cp + 1 \<le> (es_codepoint es + 1) * 64" unfolding cp_def using True x(1,2) by simp arith
      then have b2: "(cp + 1) * 64 ^ length rs' \<le> 2 ^ 24" using b mult_le_mono1 order_trans by blast
      have "least_codepoint rs (es_codepoint es) \<le> least_codepoint rs' cp"
        unfolding rs cp_def least_codepoint.simps using True by (intro least_codepoint_mono) (simp add: diff_le_mono)
      then have l: "0x80 \<le> least_codepoint rs' cp" using w(3) by (simp add: rs)
      show thesis
      proof (cases "rs' = []")
        case rs': True
        then show thesis
          using alt x(4) s True cp l rs by (intro complete[of lo hi cp]) (simp_all add: n_def[symmetric] state_of_ranges)
      next
        case rs': False
        then show thesis
          using alt x(3,4) s state_of_nonempty[OF x(3) rs'] True cp l b2 rs
          by (intro inside[of rs' cp "state_of rs'"]) (simp_all add: n_def[symmetric] waits_for_def)
      qed
    qed
  qed
qed

text \<open>The buffer: 13 bytes are free before a character, and one of up to 4 bytes may be there.\<close>

definition buffer_ok :: "(nat \<times> nat) list \<Rightarrow> escaper \<Rightarrow> bool" where
  "buffer_ok rs es \<longleftrightarrow> length (es_buffer es) \<le> (if rs = [] then 499 else 503 - length rs)"

lemma buffer_ok_after [simp]: "buffer_ok [] (after_char es)"
  by (simp add: buffer_ok_def after_char_def flush_def) arith

lemma put_codepoint_room:
  assumes "length (es_buffer es) \<le> 499 \<or> (0x80 \<le> cp \<and> \<not> ascii \<and> length (es_buffer es) \<le> 502)"
  shows "\<exists>es'. put_codepoint ascii cp c es = Some es' \<and> es_state es' = es_state es"
  using assms by (auto simp: put_codepoint_def buffer_put_def buffer_printf_def)

lemma waits_for_after: "es_state es = 0 \<Longrightarrow> waits_for [] (after_char es)"
  by (simp add: waits_for_def state_of_ranges after_char_def flush_def range_states_def)

lemma range_states_length: "rs \<in> set (map fst range_states) \<Longrightarrow> length rs \<le> 3"
  by (auto simp: range_states_def)

lemma escape_bytes_room:
  assumes "waits_for rs es" "if ascii then length (es_buffer es) \<le> 499 else buffer_ok rs es"
  shows "escape_bytes ascii i s es \<noteq> None"
  using assms
proof (induction s arbitrary: rs es i)
  case (Cons c s)
  note next_turn = Cons.IH[of "[]" "after_char _"]
  have len: "length (es_buffer es) \<le> 499" if "rs = []" using Cons.prems(2) that by (simp add: buffer_ok_def split: if_splits)
  have after: "length (es_buffer (after_char es)) \<le> 499" for es
    using buffer_ok_after[of es] by (simp add: buffer_ok_def)
  show ?case
  proof (cases rule: escape_byte_cases[OF Cons.prems(1), of c ascii i])
    case (1 n)
    let ?es = "es\<lparr>es_state := 0, es_codepoint := n\<rparr>"
    obtain es' where "put_codepoint ascii n c ?es = Some es'" "es_state es' = 0"
      using put_codepoint_room[of ?es n ascii c] len 1(1) by auto
    then show ?thesis using 1(4) next_turn[OF waits_for_after] after by simp
  next
    case (3 rs' st cp)
    let ?es = "es\<lparr>es_state := st, es_codepoint := cp\<rparr>"
    have l: "length rs' \<le> 3" "length rs' < length rs" if "rs \<noteq> []"
      using 3(5) range_states_length[OF 3(2)] that by auto
    show ?thesis
    proof (cases ascii)
      case True
      then have "escape_bytes ascii (i + 1) s ?es \<noteq> None"
        using Cons.prems(2) Cons.IH[OF 3(3)] by simp
      then show ?thesis using 3(4) True by (simp add: inside_char_def)
    next
      case False
      let ?es' = "?es\<lparr>es_buffer := es_buffer es @ [c]\<rparr>"
      have b: "length (es_buffer es) \<le> 502 - length rs'"
        using Cons.prems(2) False l range_states_length[OF 3(2)] by (cases "rs = []") (auto simp: buffer_ok_def)
      have "waits_for rs' ?es'" using 3(3) by (simp add: waits_for_def)
      moreover have "buffer_ok rs' ?es'" using b 3(1) range_states_length[OF 3(2)] by (simp add: buffer_ok_def)
      ultimately have "escape_bytes ascii (i + 1) s ?es' \<noteq> None" using Cons.IH False by simp
      then show ?thesis using 3(4) False b by (simp add: inside_char_def buffer_put_def)
    qed
  next
    case (4 lo hi cp)
    let ?es = "es\<lparr>es_state := 0, es_codepoint := cp\<rparr>"
    obtain es' where "put_codepoint ascii cp c ?es = Some es'" "es_state es' = 0"
      using put_codepoint_room[of ?es cp ascii c] Cons.prems(2) 4(1,4)
      by (auto simp: buffer_ok_def split: if_splits)
    then show ?thesis using 4(5) next_turn[OF waits_for_after] after by simp
  qed simp
qed simp

text \<open>
  C39: The string buffer of 512 bytes is never written past its end: writing a string returns for every
  string, escaped to ASCII or not, with the text or with the exception for ill-formed UTF-8.
\<close>

theorem string_buffer_suffices:
  "dump_escaped ensure_ascii s out \<noteq> None"
proof -
  let ?es = "\<lparr>es_state = UTF8_ACCEPT, es_codepoint = 0, es_buffer = [], es_out = out\<rparr>"
  have "escape_bytes ensure_ascii 0 s ?es \<noteq> None"
    by (rule escape_bytes_room[of "[]"])
      (simp_all add: waits_for_def range_states_def state_of_def UTF8_ACCEPT_def buffer_ok_def)
  then show ?thesis by (auto simp: dump_escaped_def split: sum.splits)
qed

end
