(* ===== verification/Bitstamp.thy ===== *)
theory Bitstamp
  imports Source Pusher Json_Strings
begin

text \<open>
  The orders of the source of the exchange Bitstamp (\<open>src/src/sources/BitstampSource.hpp\<close>), a source
  that a Pusher client feeds. The function that makes a trade initialises \<open>Trade\<close>, a class with
  constructors, with the names of its members, which no C++ compiler accepts; so the callback of the trades
  is a parameter. What is printed on an error is left out.
\<close>

section \<open>Texts of numbers\<close>

text \<open>\<open>strtod\<close> reads the longest beginning that is a number: an incomplete exponent is left out.\<close>

definition exponent_or_0 :: "char \<Rightarrow> string \<Rightarrow> int" where
  "exponent_or_0 e s = (case scan_exponent e s of Some (k, _) \<Rightarrow> k | None \<Rightarrow> 0)"

definition strtod_value :: "string \<Rightarrow> double option" where
  "strtod_value s = (case scan_sign (skip_space (c_string s)) of (neg, s) \<Rightarrow>
     if map lower (take 3 s) = ''nan'' then Some (if neg then - NAN else NAN)
     else if map lower (take 3 s) = ''inf'' then Some (d_inf neg)
     else if map lower (take 2 s) = ''0x''
     then (case scan_significand 16 is_hex (drop 2 s) of
         None \<Rightarrow> Some (d_round neg 0 1 0)
       | Some (m, k, s) \<Rightarrow> Some (d_round neg (int m) 1 (exponent_or_0 CHR ''p'' s - 4 * int k)))
     else map_option (\<lambda>(m, k, s). decimal_double neg (int m) (exponent_or_0 CHR ''e'' s - int k))
       (scan_significand 10 is_digit s))"

text \<open>
  \<open>std::stod\<close> throws when there is no number, and when \<open>strtod\<close> reports a range error; whether it
  does so for a number that is too small is up to the C library: \<open>erange\<close> says for which texts.
\<close>

definition stod :: "(string \<Rightarrow> bool) \<Rightarrow> string \<Rightarrow> double json_result" where
  "stod erange s = (case strtod_value s of
     None \<Rightarrow> Inl (Std_exception ''stod'')
   | Some x \<Rightarrow> if erange s then Inl (Std_exception ''stod'') else Inr x)"

section \<open>Orders\<close>

text \<open>The members in the order of the initialiser; a conversion of the identifier may be undefined.\<close>

definition make_order :: "(string \<Rightarrow> bool) \<Rightarrow> json \<Rightarrow> order json_result option" where
  "make_order erange data =
     (case json_at data ''id'' of Inl e \<Rightarrow> Some (Inl e) | Inr j \<Rightarrow>
        map_option (\<lambda>r. json_bind r (\<lambda>oid.
          json_bind (json_bind (json_at data ''amount'') json_get_double) (\<lambda>amount.
          json_bind (json_bind (json_at data ''price'') json_get_double) (\<lambda>price.
          json_bind (json_at data ''order_type'') (\<lambda>t.
          json_bind (json_bind (json_bind (json_at data ''datetime'') json_get_string) (stod erange)) (\<lambda>ts.
          Inr \<lparr>o_id = oid, o_amount = amount, o_price = price,
            o_type = (if json_eq_int t 0 then BUY else SELL), o_timestamp = ts\<rparr>))))))
          (json_get_unsigned j))"

text \<open>The handlers of the callback: a missing key and an error of type.\<close>

fun order_handler :: "json_exn \<Rightarrow> bool" where
  "order_handler (Key_error e) = True"
| "order_handler (Type_error eid m) = True"
| "order_handler _ = False"

definition orders_callback :: "(string \<Rightarrow> bool) \<Rightarrow> 'm order_table \<Rightarrow> 'm source callback" where
  "orders_callback erange T event data source =
     map_option (\<lambda>r. case r of
         Inl e \<Rightarrow> (if order_handler e then None else Some e, source)
       | Inr order \<Rightarrow> (None,
           if event = ''order_created'' then source_feed_order T source order
           else if event = ''order_changed'' then source_feed_order T source order
           else if event = ''order_deleted'' then source_puke T source order
           else source))
       (make_order erange data)"

section \<open>The source\<close>

record 'm bitstamp =
  bs_source :: "'m source"
  bs_pusher_client :: "'m source pusher"
  bs_rest_client :: rest_client

definition mk_bitstamp ::
    "time_zone \<Rightarrow> (string \<Rightarrow> bool) \<Rightarrow> 'm order_table \<Rightarrow> 'm source callback \<Rightarrow> (wsocket \<times> socket) option \<Rightarrow> string \<Rightarrow>
      (failure + 'm bitstamp) option" where
  "mk_bitstamp tz erange T trades_callback link currency_pair =
     (let p = mk_pusher ''de504dc5763aeef9ff52'' ''mt1'';
          p = pusher_subscribe (''live_trades_'' @ currency_pair) [''trade''] trades_callback p;
          p = pusher_subscribe (''live_orders_'' @ currency_pair) [''order_created'', ''order_changed'', ''order_deleted'']
            (orders_callback erange T) p
      in map_option (\<lambda>r. case r of Inl e \<Rightarrow> Inl e
           | Inr p \<Rightarrow> Inr \<lparr>bs_source = mk_source tz T, bs_pusher_client = p,
               bs_rest_client = mk_rest_client ''https://www.bitstamp.net/api/v2''\<rparr>)
         (pusher_start link p))"

section \<open>Messages\<close>

lemma pusher_send_subscriptions:
  "pusher_send event data p = Some (Inr p') \<Longrightarrow> pu_subscriptions p' = pu_subscriptions p"
  by (auto simp: pusher_send_def split: Option.bind_splits sum.splits)

lemma send_all_subscriptions: "send_all ns p = Some (Inr p') \<Longrightarrow> pu_subscriptions p' = pu_subscriptions p"
proof (induction ns p rule: send_all.induct)
  case (2 n ns p)
  then obtain q where q: "pusher_send ''pusher:subscribe'' (channel_data n) p = Some (Inr q)" "send_all ns q = Some (Inr p')"
    by (auto split: Option.bind_splits sum.splits)
  then show ?case using "2.IH"[OF q(1) refl q(2)] pusher_send_subscriptions by simp
qed simp

lemma case_Inr: "(case z of Inl e \<Rightarrow> Inl (f e) | Inr x \<Rightarrow> Inr (g x)) = Inr y \<longleftrightarrow> (\<exists>x. z = Inr x \<and> y = g x)"
  by (cases z) auto

lemma pusher_start_subscriptions: "pusher_start link p = Some (Inr p') \<Longrightarrow> pu_subscriptions p' = pu_subscriptions p"
  by (auto simp: pusher_start_def case_Inr dest!: send_all_subscriptions split: sum.splits prod.splits)

definition bitstamp_calls where
  "bitstamp_calls erange T trades_callback currency_pair =
     [(''live_trades_'' @ currency_pair, [''trade''], trades_callback),
      (''live_orders_'' @ currency_pair, [''order_created'', ''order_changed'', ''order_deleted''], orders_callback erange T)]"

lemma mk_bitstamp_start:
  "mk_bitstamp tz erange T tc link pair = map_option (\<lambda>r. case r of Inl e \<Rightarrow> Inl e
      | Inr p \<Rightarrow> Inr \<lparr>bs_source = mk_source tz T, bs_pusher_client = p,
          bs_rest_client = mk_rest_client ''https://www.bitstamp.net/api/v2''\<rparr>)
    (pusher_start link (subscribe_all (bitstamp_calls erange T tc pair) (mk_pusher ''de504dc5763aeef9ff52'' ''mt1'')))"
  by (simp only: mk_bitstamp_def subscribe_all_def bitstamp_calls_def Let_def foldl.simps prod.case)

lemma bitstamp_callbacks:
  fixes T :: "'m order_table"
  assumes "mk_bitstamp tz erange T tc link pair = Some (Inr b)"
  shows "callbacks_for event (bs_pusher_client b) = subscribed event (bitstamp_calls erange T tc pair)"
proof -
  let ?q = "mk_pusher ''de504dc5763aeef9ff52'' ''mt1'' :: 'm source pusher"
  let ?p = "subscribe_all (bitstamp_calls erange T tc pair) ?q"
  have "pusher_start link ?p = Some (Inr (bs_pusher_client b))"
    using assms unfolding mk_bitstamp_start by (auto simp: case_Inr)
  from pusher_start_subscriptions[OF this]
  have "callbacks_for event (bs_pusher_client b) = callbacks_for event ?p" by (simp add: callbacks_for_def)
  moreover have "mm_sorted string_less (pu_subscriptions ?q)" "callbacks_for event ?q = []"
    by (simp_all add: mm_sorted_def mk_pusher_def callbacks_for_def)
  ultimately show ?thesis using subscribe_all_callbacks[of ?q "bitstamp_calls erange T tc pair" event] by simp
qed

lemma bitstamp_order_callbacks:
  assumes "mk_bitstamp tz erange T tc link pair = Some (Inr b)"
    and "event \<in> {''order_created'', ''order_changed'', ''order_deleted''}"
    and "parse_text payload = Some (Inr message)" "message_fields message = Some (Inr (event, data))"
  shows "pusher_callback (bs_pusher_client b) payload s = orders_callback erange T event data s"
proof -
  have "map sub_callback (callbacks_for event (bs_pusher_client b)) = [orders_callback erange T]"
    using assms(2) bitstamp_callbacks[OF assms(1)] by (auto simp: subscribed_def bitstamp_calls_def)
  then obtain sub where "callbacks_for event (bs_pusher_client b) = [sub]" "sub_callback sub = orders_callback erange T"
    by auto
  then show ?thesis
    by (cases "make_order erange data")
      (auto simp: pusher_callback_def pusher_route_def assms(3,4) orders_callback_def split: sum.splits elim: is_type_error.elims)
qed

text \<open>The data of an order: what it takes to read each of its members.\<close>

definition order_members :: "(string \<times> json) list \<Rightarrow> uint64 \<Rightarrow> double \<Rightarrow> double \<Rightarrow> json \<Rightarrow> string \<Rightarrow> bool" where
  "order_members m oid amount price t d \<longleftrightarrow>
     (map_of m ''id'' \<in> {Some (Json_unsigned oid), Some (Json_integer oid)}) \<and>
     (\<exists>j. map_of m ''amount'' = Some j \<and> json_get_double j = Inr amount) \<and>
     (\<exists>j. map_of m ''price'' = Some j \<and> json_get_double j = Inr price) \<and>
     map_of m ''order_type'' = Some t \<and> map_of m ''datetime'' = Some (Json_string d)"

lemma make_order_members:
  assumes "order_members m oid amount price t d"
  shows "make_order erange (Json_object m) = Some (map_sum id (\<lambda>ts. \<lparr>o_id = oid, o_amount = amount, o_price = price,
    o_type = (if json_eq_int t 0 then BUY else SELL), o_timestamp = ts\<rparr>) (stod erange d))"
  using assms by (cases "stod erange d") (auto simp: order_members_def make_order_def object_find_map_of)

lemma json_bind_handled:
  assumes "\<And>e. r = Inl e \<Longrightarrow> order_handler e" "\<And>x. r = Inr x \<Longrightarrow> \<exists>e. f x = Inl e \<and> order_handler e"
  shows "\<exists>e. json_bind r f = Inl e \<and> order_handler e"
  using assms by (cases r) auto

lemma make_order_missing:
  assumes "map_of m k = None" "k \<in> {''id'', ''amount'', ''price'', ''order_type'', ''datetime''}"
    and "\<And>x. map_of m ''id'' \<noteq> Some (Json_float x)"
  shows "\<exists>e. make_order erange (Json_object m) = Some (Inl e) \<and> order_handler e"
proof -
  have at: "json_at (Json_object m) k = (case map_of m k of None \<Rightarrow> Inl (Key_error (mk_exn KeyException [k])) | Some v \<Rightarrow> Inr v)" for k
    by (simp add: object_find_map_of)
  have present: "map_of m k \<noteq> None" if "json_bind (json_at (Json_object m) k) json_get_double = Inr y" for k y
    using that by (cases "map_of m k") (simp_all add: at del: json_at.simps)
  have dbl: "order_handler e" if "json_bind (json_at (Json_object m) k) json_get_double = Inl e" for k e
  proof (cases "map_of m k")
    case (Some j)
    then show ?thesis using that by (cases j) (auto simp: at simp del: json_at.simps)
  qed (use that in \<open>auto simp: at simp del: json_at.simps\<close>)
  show ?thesis
  proof (cases "map_of m ''id''")
    case None
    then show ?thesis by (simp add: make_order_def at del: json_at.simps)
  next
    case (Some j)
    have "\<exists>r. json_get_unsigned j = Some r \<and> (\<forall>e. r = Inl e \<longrightarrow> order_handler e)"
      using assms(3) Some by (cases j) auto
    then obtain r where r: "json_get_unsigned j = Some r" "\<And>e. r = Inl e \<Longrightarrow> order_handler e" by blast
    have three: "\<exists>e. json_bind r (\<lambda>oid. json_bind (json_bind (json_at (Json_object m) ''amount'') json_get_double) (\<lambda>amount.
        json_bind (json_bind (json_at (Json_object m) ''price'') json_get_double) (F oid amount))) = Inl e \<and> order_handler e"
      if "\<And>oid amount price. k \<in> {''order_type'', ''datetime''} \<Longrightarrow> \<exists>e. F oid amount price = Inl e \<and> order_handler e" for F
    proof (intro json_bind_handled)
      fix x y z
      assume "json_bind (json_at (Json_object m) ''amount'') json_get_double = Inr y"
        "json_bind (json_at (Json_object m) ''price'') json_get_double = Inr z"
      then have "map_of m ''amount'' \<noteq> None" "map_of m ''price'' \<noteq> None" using present by blast+
      then show "\<exists>e. F x y z = Inl e \<and> order_handler e" using that assms(1,2) Some by auto
    qed (use r(2) dbl in blast)+
    show ?thesis
      unfolding make_order_def at[of "''id''"] Some option.case sum.case r(1) option.map
      by (simp del: json_bind.simps json_at.simps) (rule three, use assms(1) in \<open>auto simp: at simp del: json_at.simps split: option.split\<close>)
  qed
qed

text \<open>
  C36: A message for an event of orders. When its data has the five members of an order, the order
  is fed to the source, or deleted; when its date is no number, or out of range, the exception of
  \<open>std::stod\<close> goes through all handlers and out of the callback. Data that lacks a member is
  dropped. The source only changes in the first case.
\<close>

theorem bitstamp_orders:
  assumes "mk_bitstamp tz erange T tc link pair = Some (Inr b)"
    and "event \<in> {''order_created'', ''order_changed'', ''order_deleted''}"
    and "parse_text payload = Some (Inr message)" "message_fields message = Some (Inr (event, Json_object m))"
  shows "(order_members m oid amount price t d \<longrightarrow>
      pusher_callback (bs_pusher_client b) payload s =
        (case strtod_value d of
           None \<Rightarrow> Some (Some (Std_exception ''stod''), s)
         | Some ts \<Rightarrow>
             if erange d then Some (Some (Std_exception ''stod''), s)
             else let r = \<lparr>o_id = oid, o_amount = amount, o_price = price,
                 o_type = (if json_eq_int t 0 then BUY else SELL), o_timestamp = ts\<rparr> in
               Some (None, if event = ''order_deleted'' then source_puke T s r else source_feed_order T s r))) \<and>
    (map_of m k = None \<and> k \<in> {''id'', ''amount'', ''price'', ''order_type'', ''datetime''} \<and>
      (\<forall>x. map_of m ''id'' \<noteq> Some (Json_float x)) \<longrightarrow>
      pusher_callback (bs_pusher_client b) payload s = Some (None, s))"
proof (intro conjI impI, goal_cases)
  case 1
  then show ?case
    using assms(2) make_order_members[OF 1, of erange]
    by (auto simp: bitstamp_order_callbacks[OF assms] orders_callback_def stod_def Let_def split: option.splits)
next
  case 2
  then show ?case
    using make_order_missing[of m k erange] by (auto simp: bitstamp_order_callbacks[OF assms] orders_callback_def)
qed

text \<open>An order that the exchange announces, in a message with the data as a text.\<close>

definition demo_event :: string where
  "demo_event = (let q = [CHR 0x22]; e = [CHR 0x5C, CHR 0x22] in
     [CHR 0x7B] @ q @ ''event'' @ q @ '':'' @ q @ ''order_created'' @ q @ '','' @ q @ ''data'' @ q @ '':'' @ q @ [CHR 0x7B] @
     e @ ''id'' @ e @ '':7,'' @ e @ ''amount'' @ e @ '':2,'' @ e @ ''price'' @ e @ '':1.5,'' @ e @ ''order_type'' @ e @ '':0,'' @
     e @ ''datetime'' @ e @ '':'' @ e @ ''1500'' @ e @ [CHR 0x7D] @ q @ [CHR 0x7D])"

definition demo_order_members :: "(string \<times> json) list" where
  "demo_order_members = [(''amount'', Json_unsigned 2), (''datetime'', Json_string ''1500''), (''id'', Json_unsigned 7),
     (''order_type'', Json_unsigned 0), (''price'', Json_float (lit 3 / lit 2))]"

definition demo_announcement :: json where
  "demo_announcement = (let e = [CHR 0x22] in Json_object
     [(''data'', Json_string ([CHR 0x7B] @ e @ ''id'' @ e @ '':7,'' @ e @ ''amount'' @ e @ '':2,'' @ e @ ''price'' @ e @ '':1.5,'' @
        e @ ''order_type'' @ e @ '':0,'' @ e @ ''datetime'' @ e @ '':'' @ e @ ''1500'' @ e @ [CHR 0x7D])),
      (''event'', Json_string ''order_created'')])"

lemma demo_event_parsed: "parse_text demo_event = Some (Inr demo_announcement)"
  by code_simp

lemma demo_announcement_fields:
  "message_fields demo_announcement = Some (Inr (''order_created'', Json_object demo_order_members))"
  by code_simp

lemma demo_date: "strtod_value ''1500'' = Some (lit 1500)"
  by code_simp

text \<open>Starting sends the names of both channels.\<close>

lemma escape_plain:
  assumes "list_all (\<lambda>c. c \<noteq> CHR 0x22 \<and> c \<noteq> CHR 0x5C \<and> 31 < (of_char c :: nat) \<and> (of_char c :: nat) < 127) s"
    and "es_state es = 0" "length (es_buffer es) \<le> 499"
  shows "\<exists>es'. escape_bytes ascii i s es = Some (Inr es') \<and> es_state es' = 0"
  using assms
proof (induction s arbitrary: i es)
  case (Cons c s)
  define n where "n = (of_char c :: nat)"
  have neq: "n \<noteq> 0x22" "n \<noteq> 0x5C" using Cons.prems(1) of_char_eq_iff[of c "CHR 0x22", where ?'a = nat]
      of_char_eq_iff[of c "CHR 0x5C", where ?'a = nat] by (auto simp: n_def)
  have n: "31 < n" "n < 127" using Cons.prems(1) by (simp_all add: n_def)
  let ?es = "es\<lparr>es_state := 0, es_codepoint := n, es_buffer := es_buffer es @ [c]\<rparr>"
  have "escape_byte ascii i c es = Some (Inr (after_char ?es))"
    using n neq first_byte_ascii[of n] Cons.prems(2,3)
    by (simp add: escape_byte_alt n_def[symmetric] put_codepoint_def buffer_put_def Let_def)
  then show ?case
    using Cons.IH[of "after_char ?es" "i + 1"] Cons.prems(1) buffer_ok_after[of ?es]
    by (simp add: buffer_ok_def) (simp add: after_char_def flush_def)
qed simp

lemma dump_plain:
  assumes "list_all (\<lambda>c. c \<noteq> CHR 0x22 \<and> c \<noteq> CHR 0x5C \<and> 31 < (of_char c :: nat) \<and> (of_char c :: nat) < 127) s"
  shows "\<exists>out'. dump_escaped ascii s out = Some (Inr out')"
  using escape_plain[OF assms, of "\<lparr>es_state = 0, es_codepoint = 0, es_buffer = [], es_out = out\<rparr>" ascii 0]
  by (auto simp: dump_escaped_def UTF8_ACCEPT_def)

definition succeeds :: "writer \<Rightarrow> bool" where
  "succeeds w \<longleftrightarrow> (\<forall>out. \<exists>out'. w out = Some (Inr out'))"

lemma succeeds_simps: "succeeds (write_characters s)" "succeeds f \<Longrightarrow> succeeds g \<Longrightarrow> succeeds (and_then f g)"
proof -
  show "succeeds (write_characters s)" by (simp add: succeeds_def write_characters_def)
  show "succeeds (and_then f g)" if f: "succeeds f" and g: "succeeds g"
    unfolding succeeds_def
  proof
    fix out
    obtain o1 where "f out = Some (Inr o1)" using f unfolding succeeds_def by blast
    then show "\<exists>out'. and_then f g out = Some (Inr out')" using g by (simp add: and_then_def succeeds_def)
  qed
qed

lemma dump_string_plain:
  assumes "list_all (\<lambda>c. c \<noteq> CHR 0x22 \<and> c \<noteq> CHR 0x5C \<and> 31 < (of_char c :: nat) \<and> (of_char c :: nat) < 127) s"
  shows "succeeds (dump_string ascii s)"
  unfolding dump_string_def using dump_plain[OF assms] by (intro succeeds_simps) (simp add: succeeds_def)

lemma subscribe_payload:
  assumes "list_all (\<lambda>c. c \<noteq> CHR 0x22 \<and> c \<noteq> CHR 0x5C \<and> 31 < (of_char c :: nat) \<and> (of_char c :: nat) < 127) s"
  shows "\<exists>x. pusher_payload ''pusher:subscribe'' (channel_data s) = Some (Inr x)"
proof -
  have m: "pusher_message ''pusher:subscribe'' (channel_data s) =
      Json_object [(''data'', Json_object [(''channel'', Json_string s)]), (''event'', Json_string ''pusher:subscribe'')]"
    by (simp add: pusher_message_def channel_data_def json_of_list_def)
  have "succeeds (dump_string False ''data'')" "succeeds (dump_string False ''channel'')" "succeeds (dump_string False s)"
    "succeeds (dump_string False ''event'')" "succeeds (dump_string False ''pusher:subscribe'')"
    by (rule dump_string_plain, simp add: assms)+
  then have "succeeds (dump False (Json_object [(''data'', Json_object [(''channel'', Json_string s)]), (''event'', Json_string ''pusher:subscribe'')]))"
    by (simp add: succeeds_simps del: list.inject)
  then show ?thesis by (simp add: pusher_payload_def dump_text_def m succeeds_def)
qed

definition demo_link :: "(wsocket \<times> socket) option" where
  "demo_link = Some (mk_wsocket True, \<lparr>recv_results = [], send_results = [], sent = []\<rparr>)"

lemma send_all_succeeds:
  assumes "wc_ws (pu_client p) \<noteq> None" "\<forall>n \<in> set ns. \<exists>x. pusher_payload ''pusher:subscribe'' (channel_data n) = Some (Inr x)"
  shows "\<exists>q. send_all ns p = Some (Inr q)"
  using assms
proof (induction ns arbitrary: p)
  case (Cons n ns)
  then obtain x ws where x: "pusher_payload ''pusher:subscribe'' (channel_data n) = Some (Inr x)" "wc_ws (pu_client p) = Some ws"
    by auto
  then show ?case using Cons by (simp add: pusher_send_def wc_send_def)
qed simp

lemma demo_bitstamp: "\<exists>b. mk_bitstamp utc erange map_table tc demo_link ''btceur'' = Some (Inr b)"
proof -
  let ?p = "subscribe_all (bitstamp_calls erange map_table tc ''btceur'') (mk_pusher ''de504dc5763aeef9ff52'' ''mt1'')"
  have "\<exists>q. send_all (channel_names ?p) (?p\<lparr>pu_client := c\<rparr>) = Some (Inr q)" if "wc_ws c \<noteq> None" for c
  proof (rule send_all_succeeds)
    have "set (channel_names ?p) \<subseteq> {''live_trades_btceur'', ''live_orders_btceur''}"
      by (simp add: channel_names_def subscribe_all_def bitstamp_calls_def pusher_subscribe_def mk_pusher_def mm_insert_def)
    then show "\<forall>n \<in> set (channel_names ?p). \<exists>x. pusher_payload ''pusher:subscribe'' (channel_data n) = Some (Inr x)"
      by (auto intro!: subscribe_payload)
  qed (use that in simp)
  moreover have "wc_start (pu_url ?p) demo_link (pu_client ?p) = (Inr (), c) \<Longrightarrow> wc_ws c \<noteq> None" for c
    by (auto simp: wc_start_def demo_link_def Let_def)
  moreover obtain c where "wc_start (pu_url ?p) demo_link (pu_client ?p) = (Inr (), c)"
    by (simp add: wc_start_def demo_link_def Let_def)
  ultimately obtain q where "pusher_start demo_link ?p = Some (Inr q)"
    by (fastforce simp: pusher_start_def)
  then show ?thesis unfolding mk_bitstamp_start by simp
qed

theorem bitstamp_orders_witness:
  "\<exists>b. mk_bitstamp utc (\<lambda>_. False) map_table (\<lambda>e d s. Some (None, s)) demo_link ''btceur'' = Some (Inr b) \<and>
     pusher_callback (bs_pusher_client b) demo_event (mk_source utc map_table) =
       Some (None, source_feed_order map_table (mk_source utc map_table)
         \<lparr>o_id = 7, o_amount = lit 2, o_price = lit 3 / lit 2, o_type = BUY, o_timestamp = lit 1500\<rparr>)"
proof -
  obtain b where b: "mk_bitstamp utc (\<lambda>_. False) map_table (\<lambda>e d s. Some (None, s)) demo_link ''btceur'' = Some (Inr b)"
    using demo_bitstamp by blast
  have m: "order_members demo_order_members 7 (lit 2) (lit 3 / lit 2) (Json_unsigned 0) ''1500''"
    by (simp add: order_members_def demo_order_members_def)
  from bitstamp_orders[OF b _ demo_event_parsed demo_announcement_fields, of 7 "lit 2" "lit 3 / lit 2" "Json_unsigned 0"
      "''1500''" "mk_source utc map_table" undefined] m
  show ?thesis using b by (intro exI[of _ b]) (simp add: demo_date json_eq_int_def)
qed

end
