(* ===== verification/Json_Read.thy ===== *)
theory Json_Read
  imports Json_Strings
begin

text \<open>
  The lexer on what the serializer writes: strings, numbers and literals are read back.
\<close>

section \<open>What is ahead of the lexer\<close>

definition ahead :: "lexer \<Rightarrow> string" where
  "ahead lx = drop (lx_cursor lx) (lx_buffer lx)"

lemma ahead_fields [simp]:
  "ahead (lx\<lparr>lx_error_message := m\<rparr>) = ahead lx" "ahead (lx\<lparr>lx_yytext := s\<rparr>) = ahead lx"
  "ahead (lx_add c lx) = ahead lx" "ahead (lx_reset lx) = ahead lx" "ahead (lx_add_current lx) = ahead lx"
  "ahead (lx\<lparr>lx_value_unsigned := u\<rparr>) = ahead lx" "ahead (lx\<lparr>lx_value_integer := i\<rparr>) = ahead lx"
  "ahead (lx\<lparr>lx_value_float := x\<rparr>) = ahead lx"
  by (simp_all add: ahead_def lx_add_def lx_reset_def lx_add_current_def)

lemma yytext_fields [simp]:
  "lx_yytext (lx_get lx) = lx_yytext lx" "lx_yytext (lx_add c lx) = lx_yytext lx @ [c]"
  "lx_yytext (lx_reset lx) = []" "lx_current (lx_add c lx) = lx_current lx" "lx_current (lx_reset lx) = lx_current lx"
  by (simp_all add: lx_get_def lx_add_def lx_reset_def split: option.split)

lemma ahead_get:
  assumes "ahead lx = c # t"
  shows "lx_current (lx_get lx) = Some c" "ahead (lx_get lx) = t" "ahead (lx_unget (lx_get lx)) = c # t"
proof -
  have "lx_cursor lx < length (lx_buffer lx)" using assms by (simp add: ahead_def) (metis drop_eq_Nil leI list.distinct(1))
  moreover from this have "lx_buffer lx ! lx_cursor lx = c" "drop (Suc (lx_cursor lx)) (lx_buffer lx) = t"
    using assms Cons_nth_drop_Suc[of "lx_cursor lx" "lx_buffer lx"] by (simp_all add: ahead_def)
  ultimately show "lx_current (lx_get lx) = Some c" "ahead (lx_get lx) = t" "ahead (lx_unget (lx_get lx)) = c # t"
    using assms by (simp_all add: lx_get_def ia_get_character_def ahead_def lx_unget_def Let_def)
qed

lemma ahead_end:
  assumes "ahead lx = []"
  shows "lx_current (lx_get lx) = None" "ahead (lx_get lx) = []" "ahead (lx_unget (lx_get lx)) = []"
  using assms by (simp_all add: lx_get_def ia_get_character_def ahead_def lx_unget_def Let_def)

section \<open>Strings\<close>

text \<open>A turn of the loop reads the text \<open>w\<close> of the character \<open>c\<close>.\<close>

definition turn_reads :: "string \<Rightarrow> char \<Rightarrow> bool" where
  "turn_reads w c \<longleftrightarrow> (\<forall>lx t. ahead lx = w @ t \<longrightarrow>
     (\<exists>lx'. scan_string_turn lx = (None, lx') \<and> ahead lx' = t \<and> lx_yytext lx' = lx_yytext lx @ [c]))"

lemma of_char_of_int: "(of_char (char_of (n :: nat)) :: int) = int (n mod 256)"
  by (metis of_char_of of_nat_of_char)

lemma hex_code_lower: "d < 16 \<Longrightarrow> hex_code (Some (hex_lower d)) = Some (int d)"
  unfolding hex_code_def hex_lower_def Let_def by (simp add: of_char_of_int)

lemma codepoint_loop_reads:
  assumes "ahead lx = map hex_lower ds @ t" "length ds = length fs" "\<forall>d \<in> set ds. d < 16"
  shows "\<exists>lx'. codepoint_loop fs cp lx = (cp + (\<Sum>(f, d) \<leftarrow> zip fs ds. push_bit f (int d)), lx') \<and>
    ahead lx' = t \<and> lx_yytext lx' = lx_yytext lx"
  using assms
proof (induction fs arbitrary: ds cp lx)
  case (Cons f fs)
  then obtain d ds' where ds: "ds = d # ds'" by (cases ds) auto
  then have a: "ahead lx = hex_lower d # map hex_lower ds' @ t" using Cons.prems(1) by simp
  have "\<exists>lx'. codepoint_loop fs (cp + push_bit f (int d)) (lx_get lx) =
      (cp + push_bit f (int d) + (\<Sum>(f, d) \<leftarrow> zip fs ds'. push_bit f (int d)), lx') \<and>
      ahead lx' = t \<and> lx_yytext lx' = lx_yytext (lx_get lx)"
    by (rule Cons.IH) (use Cons.prems ds ahead_get[OF a] in simp_all)
  then show ?case using Cons.prems(3) ds ahead_get[OF a] hex_code_lower[of d] by (auto simp: Let_def add.assoc)
qed simp

lemma scan_unicode_reads:
  assumes "ahead lx = hex4 n @ t" "n < 32"
  shows "\<exists>lx'. scan_unicode lx = (None, lx') \<and> ahead lx' = t \<and> lx_yytext lx' = lx_yytext lx @ [char_of n]"
proof -
  define a b where "a = n div 16" and "b = n mod 16"
  have n: "int n = int a * 16 + int b" unfolding a_def b_def by (metis div_mult_mod_eq of_nat_add of_nat_mult of_nat_numeral)
  have ab: "a < 16" "b < 16" using assms(2) by (auto simp: a_def b_def)
  have "n div 4096 mod 16 = 0" "n div 256 mod 16 = 0" "n div 16 mod 16 = a" "n mod 16 = b"
    using assms(2) by (simp_all add: a_def b_def)
  then have "ahead lx = map hex_lower [0, 0, a, b] @ t" using assms by (simp add: hex4_def)
  from codepoint_loop_reads[OF this, of "[12, 8, 4, 0]" 0]
  obtain lx' where l: "get_codepoint lx = (int n, lx')" "ahead lx' = t" "lx_yytext lx' = lx_yytext lx"
    using ab unfolding get_codepoint_def n by (auto simp: push_bit_eq_mult)
  have "\<not> 0xD800 \<le> int n" "\<not> 0xDC00 \<le> int n" "int n \<noteq> - 1" using assms(2) by simp_all
  then have "scan_unicode lx = (None, add_codepoint (int n) lx')" unfolding scan_unicode_def Let_def l(1) by simp
  then show ?thesis using l assms(2) by (simp add: add_codepoint_def codepoint_bytes_def Let_def char_of_def bit_of_nat_iff_bit)
qed

lemma turn_reads_plain:
  assumes "c \<noteq> CHR 0x22" "c \<noteq> CHR 0x5C" "31 < (of_char c :: nat)" "(of_char c :: nat) < 128"
  shows "turn_reads [c] c"
  unfolding turn_reads_def using assms by (auto simp: scan_string_turn_def ahead_get Let_def)

lemma turn_reads_escape:
  assumes "\<And>lx t. ahead lx = w @ t \<Longrightarrow>
    \<exists>lx'. scan_escape lx = (None, lx') \<and> ahead lx' = t \<and> lx_yytext lx' = lx_yytext lx @ [c]"
  shows "turn_reads (CHR 0x5C # w) c"
  unfolding turn_reads_def
proof (intro allI impI)
  fix lx t
  assume a: "ahead lx = (CHR 0x5C # w) @ t"
  then have a: "ahead lx = CHR 0x5C # w @ t" by simp
  show "\<exists>lx'. scan_string_turn lx = (None, lx') \<and> ahead lx' = t \<and> lx_yytext lx' = lx_yytext lx @ [c]"
    using assms[OF ahead_get(2)[OF a]] ahead_get(1)[OF a] by (simp add: scan_string_turn_def Let_def)
qed

lemma turn_reads_short:
  "turn_reads [CHR 0x5C, CHR 0x22] (CHR 0x22)" "turn_reads [CHR 0x5C, CHR 0x5C] (CHR 0x5C)"
  "turn_reads [CHR 0x5C, CHR ''b''] (CHR 0x08)" "turn_reads [CHR 0x5C, CHR ''f''] (CHR 0x0C)"
  "turn_reads [CHR 0x5C, CHR ''n''] (CHR 0x0A)" "turn_reads [CHR 0x5C, CHR ''r''] (CHR 0x0D)"
  "turn_reads [CHR 0x5C, CHR ''t''] (CHR 0x09)"
  by (rule turn_reads_escape; simp add: scan_escape_def ahead_get Let_def)+

lemma turn_reads_unicode: "n < 32 \<Longrightarrow> turn_reads ([CHR 0x5C, CHR ''u''] @ hex4 n) (char_of n)"
  unfolding append_Cons append_Nil
proof (rule turn_reads_escape)
  fix lx t
  assume n: "n < 32" and "ahead lx = (CHR ''u'' # hex4 n) @ t"
  then have a: "ahead lx = CHR ''u'' # hex4 n @ t" by simp
  show "\<exists>lx'. scan_escape lx = (None, lx') \<and> ahead lx' = t \<and> lx_yytext lx' = lx_yytext lx @ [char_of n]"
    using scan_unicode_reads[OF ahead_get(2)[OF a] n] ahead_get(1)[OF a] by (simp add: scan_escape_def Let_def)
qed

definition puts :: "string \<Rightarrow> escaper \<Rightarrow> escaper \<Rightarrow> bool" where
  "puts w es es' \<longleftrightarrow> es_buffer es' = es_buffer es @ w \<and> es_out es' = es_out es \<and> es_state es' = es_state es"

lemma put_ascii:
  assumes "put_codepoint False (of_char c) c es = Some es'" "(of_char c :: nat) < 128"
  shows "\<exists>w. puts w es es' \<and> turn_reads w c"
proof -
  define n where "n = (of_char c :: nat)"
  have n: "n = of_char d \<longleftrightarrow> c = d" for d unfolding n_def by simp
  have n_cases: "n = 8 \<longleftrightarrow> c = CHR 0x08" "n = 9 \<longleftrightarrow> c = CHR 0x09" "n = 10 \<longleftrightarrow> c = CHR 0x0A" "n = 12 \<longleftrightarrow> c = CHR 0x0C"
    "n = 13 \<longleftrightarrow> c = CHR 0x0D" "n = 34 \<longleftrightarrow> c = CHR 0x22" "n = 92 \<longleftrightarrow> c = CHR 0x5C"
    using n[of "CHR 0x08"] n[of "CHR 0x09"] n[of "CHR 0x0A"] n[of "CHR 0x0C"] n[of "CHR 0x0D"] n[of "CHR 0x22"] n[of "CHR 0x5C"]
    by simp_all
  note p = assms(1)[folded n_def, unfolded put_codepoint_def n_cases]
  note put_defs = buffer_put_def buffer_printf_def puts_def
  consider "c \<in> {CHR 0x08, CHR 0x09, CHR 0x0A, CHR 0x0C, CHR 0x0D, CHR 0x22, CHR 0x5C}"
    | "c \<notin> {CHR 0x08, CHR 0x09, CHR 0x0A, CHR 0x0C, CHR 0x0D, CHR 0x22, CHR 0x5C}" "n < 32"
    | "c \<notin> {CHR 0x08, CHR 0x09, CHR 0x0A, CHR 0x0C, CHR 0x0D, CHR 0x22, CHR 0x5C}" "31 < n" by linarith
  then show ?thesis
  proof cases
    case 1
    then show ?thesis using p turn_reads_short by (auto simp: put_defs split: if_splits intro!: exI)
  next
    case 2
    have "c = char_of n" by (simp add: n_def)
    then show ?thesis
      using p 2 turn_reads_unicode[OF 2(2)] by (intro exI[of _ "[CHR 0x5C, CHR ''u''] @ hex4 n"]) (auto simp: put_defs split: if_splits)
  next
    case 3
    then show ?thesis
      using p turn_reads_plain[of c] assms(2) by (intro exI[of _ "[c]"]) (auto simp: put_defs n_def split: if_splits)
  qed
qed

text \<open>The rest of a string, from inside a character on.\<close>

definition reads :: "(nat \<times> nat) list \<Rightarrow> string \<Rightarrow> string \<Rightarrow> bool" where
  "reads rs w s \<longleftrightarrow> (\<forall>lx t. ahead lx = w @ CHR 0x22 # t \<longrightarrow>
     (\<exists>l lx'. bytes_in_range rs lx = (True, l) \<and> scan_string_loop l = (T_value_string, lx') \<and> ahead lx' = t \<and>
       lx_yytext lx' = lx_yytext lx @ s))"

lemma readsI:
  assumes "\<And>lx t. ahead lx = w @ CHR 0x22 # t \<Longrightarrow>
    \<exists>l lx'. bytes_in_range rs lx = (True, l) \<and> scan_string_loop l = (T_value_string, lx') \<and> ahead lx' = t \<and>
      lx_yytext lx' = lx_yytext lx @ s"
  shows "reads rs w s"
  using assms by (simp add: reads_def)

lemma readsD:
  assumes "reads rs w s" "ahead lx = w @ CHR 0x22 # t"
  obtains l lx' where "bytes_in_range rs lx = (True, l)" "scan_string_loop l = (T_value_string, lx')" "ahead lx' = t"
    "lx_yytext lx' = lx_yytext lx @ s"
  using assms unfolding reads_def by blast

lemma reads_end: "reads [] [] []"
proof (rule readsI)
  fix lx t
  assume "ahead lx = [] @ CHR 0x22 # t"
  then have a: "ahead lx = CHR 0x22 # t" by simp
  show "\<exists>l lx'. bytes_in_range [] lx = (True, l) \<and> scan_string_loop l = (T_value_string, lx') \<and> ahead lx' = t \<and>
      lx_yytext lx' = lx_yytext lx @ []"
    by (simp, subst scan_string_loop.simps) (simp add: scan_string_turn_def Let_def ahead_get[OF a])
qed

lemma reads_turn:
  assumes "turn_reads w c" "reads [] w2 s"
  shows "reads [] (w @ w2) (c # s)"
proof (rule readsI)
  fix lx t
  assume "ahead lx = (w @ w2) @ CHR 0x22 # t"
  then have a: "ahead lx = w @ w2 @ CHR 0x22 # t" by simp
  then obtain l where l: "scan_string_turn lx = (None, l)" "ahead l = w2 @ CHR 0x22 # t" "lx_yytext l = lx_yytext lx @ [c]"
    using assms(1) by (auto simp: turn_reads_def)
  then show "\<exists>l lx'. bytes_in_range [] lx = (True, l) \<and> scan_string_loop l = (T_value_string, lx') \<and> ahead lx' = t \<and>
      lx_yytext lx' = lx_yytext lx @ c # s"
    by (rule_tac readsD[OF assms(2) l(2)]) (simp, subst scan_string_loop.simps, simp)
qed

lemma reads_first:
  assumes "128 \<le> (of_char c :: nat)" "follow_ranges (of_char c) = Some rs" "reads rs w s"
  shows "reads [] (c # w) (c # s)"
proof (rule readsI)
  fix lx t
  assume "ahead lx = (c # w) @ CHR 0x22 # t"
  then have a: "ahead lx = c # w @ CHR 0x22 # t" by simp
  have c: "c \<noteq> CHR 0x22" "c \<noteq> CHR 0x5C" using assms(1) by auto
  have b: "ahead (lx_add_current (lx_get lx)) = w @ CHR 0x22 # t" using ahead_get[OF a] by simp
  have y: "lx_yytext (lx_add_current (lx_get lx)) = lx_yytext lx @ [c]" using ahead_get[OF a] by (simp add: lx_add_current_def)
  show "\<exists>l lx'. bytes_in_range [] lx = (True, l) \<and> scan_string_loop l = (T_value_string, lx') \<and> ahead lx' = t \<and>
      lx_yytext lx' = lx_yytext lx @ c # s"
    by (rule readsD[OF assms(3) b], simp, subst scan_string_loop.simps)
      (use assms(1,2) c y ahead_get[OF a] in \<open>simp add: scan_string_turn_def Let_def next_byte_in_range_def\<close>)
qed

lemma reads_next:
  assumes "lo \<le> of_char c" "of_char c \<le> hi" "reads rs w s"
  shows "reads ((lo, hi) # rs) (c # w) (c # s)"
proof (rule readsI)
  fix lx t
  assume "ahead lx = (c # w) @ CHR 0x22 # t"
  then have a: "ahead lx = c # w @ CHR 0x22 # t" by simp
  have b: "ahead (lx_add c (lx_get lx)) = w @ CHR 0x22 # t" using ahead_get[OF a] by simp
  show "\<exists>l lx'. bytes_in_range ((lo, hi) # rs) lx = (True, l) \<and> scan_string_loop l = (T_value_string, lx') \<and> ahead lx' = t \<and>
      lx_yytext lx' = lx_yytext lx @ c # s"
    by (rule readsD[OF assms(3) b]) (use assms(1,2) ahead_get[OF a] in \<open>simp add: Let_def\<close>)
qed

text \<open>What the serializer has written, flushed or not.\<close>

definition es_text :: "escaper \<Rightarrow> string" where
  "es_text es = es_out es @ es_buffer es"

lemma es_text_simps [simp]: "es_text (after_char es) = es_text es" "es_text (es\<lparr>es_state := st, es_codepoint := cp\<rparr>) = es_text es"
  "es_state (after_char es) = es_state es" "es_text (flush es) = es_text es"
  by (simp_all add: es_text_def after_char_def flush_def)

lemma puts_text: "puts w es es' \<Longrightarrow> es_text es' = es_text es @ w \<and> es_state es' = es_state es"
  by (simp add: puts_def es_text_def)

lemma put_high: "put_codepoint False cp c es = Some es' \<Longrightarrow> 0x80 \<le> cp \<Longrightarrow> puts [c] es es'"
  by (auto simp: put_codepoint_def buffer_put_def puts_def split: if_splits)

lemma inside_puts: "inside_char False c es = Some es' \<Longrightarrow> puts [c] es es' \<and> es_codepoint es' = es_codepoint es"
  by (auto simp: inside_char_def buffer_put_def puts_def split: if_splits)

lemma escape_bytes_read:
  assumes "escape_bytes False i s es = Some (Inr es')" "es_state es' = 0" "waits_for rs es"
  shows "\<exists>w. es_text es' = es_text es @ w \<and> reads rs w s"
  using assms
proof (induction s arbitrary: i rs es)
  case Nil
  then have "rs = []" using state_of_nonempty[of rs] by (auto simp: waits_for_def)
  then show ?case using Nil reads_end by auto
next
  case (Cons c s)
  have step: "\<exists>w. es_text es' = es_text es @ w \<and> reads rs w (c # s)"
    if e: "escape_byte False i c es = Some (Inr es1)" and t: "es_text es1 = es_text es @ w1" "waits_for rs' es1"
      and r: "\<And>w2. reads rs' w2 s \<Longrightarrow> reads rs (w1 @ w2) (c # s)" for es1 w1 rs'
  proof -
    have "escape_bytes False (i + 1) s es1 = Some (Inr es')" using Cons.prems(1) e by simp
    from Cons.IH[OF this Cons.prems(2) t(2)] t(1) r show ?thesis by auto
  qed
  obtain es1 where e: "escape_byte False i c es = Some (Inr es1)"
    using Cons.prems(1) by (auto split: sum.splits Option.bind_splits)
  show ?case
  proof (cases rule: escape_byte_cases[OF Cons.prems(3), of c False i])
    case (1 n)
    from e[unfolded 1(4)] 1(2) obtain es2 where p: "put_codepoint False (of_char c) c (es\<lparr>es_state := 0, es_codepoint := n\<rparr>) = Some es2" "es1 = after_char es2"
      by auto
    from put_ascii[OF p(1)] 1(2,3) obtain w where w: "puts w (es\<lparr>es_state := 0, es_codepoint := n\<rparr>) es2" "turn_reads w c" by auto
    from puts_text[OF w(1)] show ?thesis
      using w(2) p(2) 1(1) waits_for_after[of es2] by (intro step[OF e, of w "[]"]) (simp_all add: reads_turn)
  next
    case (3 rs' st cp)
    from e[unfolded 3(4)] have "inside_char False c (es\<lparr>es_state := st, es_codepoint := cp\<rparr>) = Some es1" by auto
    from inside_puts[OF this] 3(3) puts_text[of "[c]" _ es1]
    have t: "es_text es1 = es_text es @ [c]" "waits_for rs' es1" by (auto simp: waits_for_def)
    have "reads rs ([c] @ w) (c # s)" if "reads rs' w s" for w
      using 3(5) that reads_first[of c rs'] reads_next by (cases "rs = []") auto
    then show ?thesis by (rule step[OF e t])
  next
    case (4 lo hi cp)
    from e[unfolded 4(5)] obtain es2 where p: "put_codepoint False cp c (es\<lparr>es_state := 0, es_codepoint := cp\<rparr>) = Some es2" "es1 = after_char es2"
      by auto
    from puts_text[OF put_high[OF p(1) 4(4)]] show ?thesis
      using p(2) 4(1-3) waits_for_after[of es2] by (intro step[OF e, of "[c]" "[]"]) (simp_all add: reads_next)
  qed (use e in simp)
qed

text \<open>A string is read back as it was.\<close>

lemma dump_escaped_read:
  assumes "dump_escaped False s out = Some (Inr out')"
  shows "\<exists>w. out' = out @ w \<and> reads [] w s"
proof -
  let ?es = "\<lparr>es_state = UTF8_ACCEPT, es_codepoint = 0, es_buffer = [], es_out = out\<rparr>"
  obtain es' where e: "escape_bytes False 0 s ?es = Some (Inr es')" "es_state es' = 0" "out' = es_out (flush es')"
    using assms by (auto simp: dump_escaped_def UTF8_ACCEPT_def split: sum.splits Option.bind_splits if_splits)
  have "waits_for [] ?es" by (simp add: waits_for_def range_states_def state_of_def UTF8_ACCEPT_def)
  from escape_bytes_read[OF e(1,2) this] e(3) show ?thesis by (auto simp: es_text_def flush_def)
qed

lemma scan_string_read:
  assumes "dump_escaped False s out = Some (Inr out')"
  shows "\<exists>w. out' = out @ w \<and> (\<forall>lx t. ahead lx = w @ CHR 0x22 # t \<longrightarrow>
    (\<exists>lx'. scan_string lx = (T_value_string, lx') \<and> ahead lx' = t \<and> lx_yytext lx' = s))"
proof -
  obtain w where w: "out' = out @ w" "reads [] w s" using dump_escaped_read[OF assms] by blast
  have "\<exists>lx'. scan_string lx = (T_value_string, lx') \<and> ahead lx' = t \<and> lx_yytext lx' = s"
    if "ahead lx = w @ CHR 0x22 # t" for lx t
    using readsD[OF w(2), of "lx_reset lx" t] that by (fastforce simp: scan_string_def)
  then show ?thesis using w(1) by blast
qed

end
