(* ===== verification/Json_Roundtrip.thy ===== *)
theory Json_Roundtrip
  imports Json_Read Json_Parser
begin

text \<open>
  What the serializer writes for a JSON value is parsed back as an equal value.
\<close>

section \<open>Integers\<close>

lemma digit_char_digit: "digit_char d = digit d"
  by (simp add: digit_char_def digit_def)

lemma integer_digits_show:
  "0 < n \<Longrightarrow> rev (integer_digits (int n)) = show_nat n"
  "0 < n \<Longrightarrow> rev (integer_digits (- int n)) = show_nat n"
proof (induction n rule: less_induct)
  case (less n)
  have d: "int n sdiv 10 = int (n div 10)" "int n smod 10 = int (n mod 10)" "- int n sdiv 10 = - int (n div 10)"
    "- int n smod 10 = - int (n mod 10)"
    by (simp_all add: signed_divide_int_def signed_modulo_int_def zdiv_int zmod_int sgn_if)
  { case 1
    then show ?case using less(1)[of "n div 10"]
      by (subst integer_digits.simps, subst show_nat.simps) (cases "n < 10", simp_all add: d digit_char_digit integer_digits.simps[of 0] del: of_nat_div of_nat_mod) }
  { case 2
    then show ?case using less(2)[of "n div 10"]
      by (subst integer_digits.simps, subst show_nat.simps) (cases "n < 10", simp_all add: d digit_char_digit integer_digits.simps[of 0] del: of_nat_div of_nat_mod) }
qed

lemma digit_0: "digit 0 = CHR ''0''"
proof -
  have "of_char (CHR ''0'') = (48 :: nat)" by simp
  then show ?thesis by (metis add.right_neutral char_of_char digit_def)
qed

text \<open>The digits written one after the other are those of the number.\<close>

lemma dump_integer_show: "dump_integer x = show_int x"
proof (cases x "0 :: int" rule: linorder_cases)
  case less
  then show ?thesis
    using integer_digits_show(2)[of "nat (- x)"] by (simp add: dump_integer_def show_int_def)
next
  case equal
  then show ?thesis by (simp add: dump_integer_def show_int_def show_nat.simps digit_0)
next
  case greater
  then show ?thesis
    using integer_digits_show(1)[of "nat x"] by (simp add: dump_integer_def show_int_def)
qed

lemma show_nat_hd: "0 < n \<Longrightarrow> hd (show_nat n) \<noteq> CHR ''0''"
proof (induction n rule: show_nat.induct)
  case (1 n)
  have "digit n \<noteq> CHR ''0''" if "n < 10"
    using that "1.prems" digit_simps(2)[of n] by (auto simp: digit_value_def)
  then show ?case using 1 by (subst show_nat.simps) (auto simp: hd_append)
qed

section \<open>Numbers\<close>

text \<open>The state machine on a whole text.\<close>

fun num_run :: "num_state \<Rightarrow> token \<Rightarrow> string \<Rightarrow> (num_state \<times> token) option" where
  "num_run st t [] = Some (st, enter_state st t)"
| "num_run st t (c # cs) = (case num_turn st c of
     Goto st' \<Rightarrow> num_run st' (enter_state st t) cs | _ \<Rightarrow> None)"

definition num_start :: "char \<Rightarrow> num_state" where
  "num_start c = (if c = CHR ''-'' then N_minus else if c = CHR ''0'' then N_zero else N_any1)"

definition number_text :: "string \<Rightarrow> token \<Rightarrow> bool" where
  "number_text w t \<longleftrightarrow> w \<noteq> [] \<and> (hd w = CHR ''-'' \<or> is_digit (hd w)) \<and>
     (case num_run (num_start (hd w)) T_value_unsigned (tl w) of
        Some (st, t') \<Rightarrow> num_turn_end st = Done \<and> t' = t | None \<Rightarrow> False)"

definition ends_value :: "string \<Rightarrow> bool" where
  "ends_value rest \<longleftrightarrow> rest = [] \<or> hd rest \<in> {CHR 0x2C, CHR 0x5D, CHR 0x7D}"

lemma num_turn_ends:
  "num_turn_end st = Done \<Longrightarrow> c \<in> {CHR 0x2C, CHR 0x5D, CHR 0x7D} \<Longrightarrow> num_turn st c = Done"
  by (cases st) (auto simp: num_turn_end_def digit_goto_def is_digit_def is_exponent_mark_def split: if_splits)

lemma scan_number_loop_read:
  assumes "ahead lx = w @ rest" "ends_value rest" "num_run st t w = Some (st', t')" "num_turn_end st' = Done"
  shows "\<exists>l. scan_number_loop st t lx = scan_number_done t' l \<and> ahead (lx_unget l) = rest \<and> lx_yytext l = lx_yytext lx @ w"
  using assms
proof (induction w arbitrary: lx st t)
  case Nil
  then have st: "st' = st" "t' = enter_state st t" and a: "ahead lx = rest" by auto
  show ?case
  proof (cases rest)
    case Nil
    note g = ahead_end[OF a[unfolded Nil]]
    show ?thesis
      using g Nil.prems(4) st Nil by (subst scan_number_loop.simps) (auto simp: Let_def)
  next
    case (Cons c cs)
    note g = ahead_get[OF a[unfolded Cons]]
    have "num_turn st c = Done" using Nil.prems(2,4) st Cons by (intro num_turn_ends) (auto simp: ends_value_def)
    then show ?thesis using g st Cons by (subst scan_number_loop.simps) (auto simp: Let_def)
  qed
next
  case (Cons c w)
  then have a: "ahead lx = c # w @ rest" by simp
  note g = ahead_get[OF a]
  obtain st1 where s: "num_turn st c = Goto st1" "num_run st1 (enter_state st t) w = Some (st', t')"
    using Cons.prems(3) by (cases "num_turn st c") auto
  have "ahead (lx_add c (lx_get lx)) = w @ rest" using g by simp
  from Cons.IH[OF this Cons.prems(2) s(2) Cons.prems(4)] show ?case
    using g s(1) by (subst scan_number_loop.simps) (simp add: Let_def)
qed

lemma skip_white_solid:
  assumes "ahead lx = c # t" "\<not> is_white (Some c)"
  shows "skip_white lx = lx_get lx"
  using ahead_get(1)[OF assms(1)] assms(2) by (subst skip_white.simps) (simp add: Let_def)

lemma scan_number_read:
  assumes "ahead lx = w @ rest" "ends_value rest" "number_text w t"
  shows "\<exists>l. scan lx = scan_number_done t l \<and> ahead (lx_unget l) = rest \<and> lx_yytext l = w"
proof -
  obtain c w1 where w: "w = c # w1" using assms(3) by (cases w) (auto simp: number_text_def)
  then have a: "ahead lx = c # w1 @ rest" using assms(1) by simp
  note g = ahead_get[OF a]
  have c: "c = CHR ''-'' \<or> is_digit c" and n: "\<exists>st. num_run (num_start c) T_value_unsigned w1 = Some (st, t) \<and> num_turn_end st = Done"
    using assms(3) by (auto simp: number_text_def w split: option.splits)
  have no_white: "\<not> is_white (Some c)" using c by (auto simp: is_white_def is_digit_def)
  have no: "c \<notin> {CHR 0x5B, CHR 0x5D, CHR 0x7B, CHR 0x7D, CHR 0x3A, CHR 0x2C, CHR ''t'', CHR ''f'', CHR ''n'', CHR 0x22}"
    using c by (auto simp: is_digit_def)
  let ?l = "lx_add_current (lx_reset (lx_get lx))"
  have "scan lx = scan_number (lx_get lx)"
    unfolding scan_def skip_white_solid[OF a no_white] Let_def using c g(1) no by simp
  also have "\<dots> = scan_number_loop (num_start c) T_value_unsigned ?l"
    using g by (simp add: scan_number_def num_start_def Let_def)
  finally have s: "scan lx = scan_number_loop (num_start c) T_value_unsigned ?l" .
  have y: "ahead ?l = w1 @ rest" "lx_yytext ?l = [c]" using g by (simp_all add: lx_add_current_def)
  show ?thesis using scan_number_loop_read[OF y(1) assms(2)] n s y(2) w by auto
qed

lemma num_run_digits: "list_all is_digit w \<Longrightarrow> num_run N_any1 t w = Some (N_any1, t)"
  by (induction w) simp_all

lemma number_text_nat:
  "number_text (show_nat n) T_value_unsigned" "0 < n \<Longrightarrow> number_text (CHR ''-'' # show_nat n) T_value_integer"
proof -
  obtain c w where s: "show_nat n = c # w" using show_nat_not_empty[of n] by (cases "show_nat n") auto
  have d: "is_digit c" "list_all is_digit w" using show_nat_digits[of n] s by simp_all
  have c: "c \<noteq> CHR ''-''" using d(1) by (auto simp: is_digit_def)
  have z: "c \<noteq> CHR ''0''" if "0 < n" using show_nat_hd[OF that] s by simp
  show "number_text (show_nat n) T_value_unsigned"
  proof (cases "n = 0")
    case True
    then show ?thesis by (simp add: show_nat.simps digit_0 number_text_def num_start_def is_digit_def num_turn_end_def is_exponent_mark_def)
  next
    case False
    then show ?thesis
      using z d c num_run_digits[of w T_value_unsigned]
      by (simp add: s number_text_def num_start_def num_turn_end_def is_exponent_mark_def is_digit_def)
  qed
  show "number_text (CHR ''-'' # show_nat n) T_value_integer" if "0 < n"
    using z[OF that] d c num_run_digits[of w T_value_integer]
    by (simp add: s number_text_def num_start_def num_turn_end_def is_exponent_mark_def digit_goto_def is_digit_def)
qed

section \<open>Tokens\<close>

abbreviation todo :: "parser \<Rightarrow> string" where
  "todo p \<equiv> ahead (ps_lexer p)"

text \<open>The tokens of one character.\<close>

lemma token_char:
  assumes "todo p = c # t"
  shows "c = CHR 0x5B \<Longrightarrow> ps_last_token (get_token p) = T_begin_array"
    "c = CHR 0x5D \<Longrightarrow> ps_last_token (get_token p) = T_end_array"
    "c = CHR 0x7B \<Longrightarrow> ps_last_token (get_token p) = T_begin_object"
    "c = CHR 0x7D \<Longrightarrow> ps_last_token (get_token p) = T_end_object"
    "c = CHR 0x3A \<Longrightarrow> ps_last_token (get_token p) = T_name_separator"
    "c = CHR 0x2C \<Longrightarrow> ps_last_token (get_token p) = T_value_separator"
    "c \<in> {CHR 0x5B, CHR 0x5D, CHR 0x7B, CHR 0x7D, CHR 0x3A, CHR 0x2C} \<Longrightarrow> todo (get_token p) = t"
  using ahead_get[OF assms] skip_white_solid[OF assms] by (auto simp: get_token_def scan_def is_white_def Let_def)

lemma token_end: "todo p = [] \<Longrightarrow> ps_last_token (get_token p) = T_end_of_input"
  using ahead_end[of "ps_lexer p"] skip_white.simps[of "ps_lexer p"]
  by (simp add: get_token_def scan_def is_white_def Let_def)

lemma scan_literal_read:
  "ahead lx = w @ t \<Longrightarrow> \<exists>lx'. scan_literal_rest w tok lx = (tok, lx') \<and> ahead lx' = t"
proof (induction w arbitrary: lx)
  case (Cons c w)
  then have a: "ahead lx = c # w @ t" by simp
  show ?case using Cons.IH[OF ahead_get(2)[OF a]] ahead_get(1)[OF a] by (simp add: Let_def)
qed simp

lemma token_literal:
  "todo p = ''true'' @ t \<Longrightarrow> ps_last_token (get_token p) = T_literal_true \<and> todo (get_token p) = t"
  "todo p = ''false'' @ t \<Longrightarrow> ps_last_token (get_token p) = T_literal_false \<and> todo (get_token p) = t"
  "todo p = ''null'' @ t \<Longrightarrow> ps_last_token (get_token p) = T_literal_null \<and> todo (get_token p) = t"
proof -
  have l: "get_token p = \<lparr>ps_lexer = snd (scan_literal_rest w tok (lx_get (ps_lexer p))), ps_last_token = fst (scan_literal_rest w tok (lx_get (ps_lexer p)))\<rparr>"
    if "todo p = c # w @ t" "(c, w, tok) \<in> {(CHR ''t'', ''rue'', T_literal_true), (CHR ''f'', ''alse'', T_literal_false), (CHR ''n'', ''ull'', T_literal_null)}"
    for c w tok
    using that(2) ahead_get[OF that(1)] skip_white_solid[OF that(1)]
    by (auto simp: get_token_def scan_def is_white_def scan_literal_def Let_def split: prod.split)
  show "todo p = ''true'' @ t \<Longrightarrow> ps_last_token (get_token p) = T_literal_true \<and> todo (get_token p) = t"
    using l[of "CHR ''t''" "''rue''" T_literal_true] ahead_get(2)[of "ps_lexer p" "CHR ''t''" "''rue'' @ t"]
      scan_literal_read[of "lx_get (ps_lexer p)" "''rue''" t T_literal_true] by auto
  show "todo p = ''false'' @ t \<Longrightarrow> ps_last_token (get_token p) = T_literal_false \<and> todo (get_token p) = t"
    using l[of "CHR ''f''" "''alse''" T_literal_false] ahead_get(2)[of "ps_lexer p" "CHR ''f''" "''alse'' @ t"]
      scan_literal_read[of "lx_get (ps_lexer p)" "''alse''" t T_literal_false] by auto
  show "todo p = ''null'' @ t \<Longrightarrow> ps_last_token (get_token p) = T_literal_null \<and> todo (get_token p) = t"
    using l[of "CHR ''n''" "''ull''" T_literal_null] ahead_get(2)[of "ps_lexer p" "CHR ''n''" "''ull'' @ t"]
      scan_literal_read[of "lx_get (ps_lexer p)" "''ull''" t T_literal_null] by auto
qed

lemma and_then_Inr:
  "and_then f g out = Some (Inr out') \<longleftrightarrow> (\<exists>o1. f out = Some (Inr o1) \<and> g o1 = Some (Inr out'))"
  by (auto simp: and_then_def split: Option.bind_splits sum.splits)

lemma dump_string_read:
  assumes "dump_string False s out = Some (Inr out')"
  shows "\<exists>w. out' = out @ CHR 0x22 # w \<and> (\<forall>p t. todo p = CHR 0x22 # w @ t \<longrightarrow>
    ps_last_token (get_token p) = T_value_string \<and> lx_yytext (ps_lexer (get_token p)) = s \<and> todo (get_token p) = t)"
proof -
  obtain o1 where o1: "dump_escaped False s (out @ [CHR 0x22]) = Some (Inr o1)" "out' = o1 @ [CHR 0x22]"
    using assms by (auto simp: dump_string_def and_then_Inr write_characters_def)
  obtain w where w: "o1 = (out @ [CHR 0x22]) @ w" "\<And>lx t. ahead lx = w @ CHR 0x22 # t \<Longrightarrow>
      \<exists>lx'. scan_string lx = (T_value_string, lx') \<and> ahead lx' = t \<and> lx_yytext lx' = s"
    using scan_string_read[OF o1(1)] by blast
  have "ps_last_token (get_token p) = T_value_string \<and> lx_yytext (ps_lexer (get_token p)) = s \<and> todo (get_token p) = t"
    if a: "todo p = CHR 0x22 # (w @ [CHR 0x22]) @ t" for p t
  proof -
    have "scan (ps_lexer p) = scan_string (lx_get (ps_lexer p))"
      using ahead_get(1)[OF a] skip_white_solid[OF a] by (simp add: scan_def is_white_def Let_def)
    moreover obtain lx' where "scan_string (lx_get (ps_lexer p)) = (T_value_string, lx')" "ahead lx' = t" "lx_yytext lx' = s"
      using w(2)[of "lx_get (ps_lexer p)" t] ahead_get(2)[OF a] by auto
    ultimately show ?thesis by (simp add: get_token_def)
  qed
  then show ?thesis using o1(2) w(1) by (intro exI[of _ "w @ [CHR 0x22]"]) simp
qed

section \<open>Values\<close>

text \<open>
  The values that a text can hold: no discarded value, the keys of an object in order, and the
  text of a floating-point number is one that reads as an equal number.
\<close>

definition float_reads_back :: "double \<Rightarrow> bool" where
  "float_reads_back x = (case dump_float x of
     None \<Rightarrow> True | Some s \<Rightarrow> number_text s T_value_float \<and> isfinite (strtod s) \<and> d_eq (strtod s) x)"

fun json_ok :: "json \<Rightarrow> bool" where
  "json_ok (Json_object m) = (object_sorted m \<and> list_all (\<lambda>(k, v). json_ok v) m)"
| "json_ok (Json_array xs) = list_all json_ok xs"
| "json_ok (Json_float x) = float_reads_back x"
| "json_ok Json_discarded = False"
| "json_ok j = True"

text \<open>The text \<open>w\<close> of a value or of what is between brackets is parsed back.\<close>

definition parses :: "goal \<Rightarrow> parser \<Rightarrow> string \<Rightarrow> (json \<Rightarrow> bool) \<Rightarrow> bool" where
  "parses g p rest P \<longleftrightarrow> (\<exists>v p'. parse_goal g p = Some (Inr (v, p')) \<and> P v \<and> todo p' = rest)"

definition reads_value :: "json \<Rightarrow> string \<Rightarrow> bool" where
  "reads_value j w \<longleftrightarrow> w \<noteq> [] \<and> hd w \<noteq> CHR 0xEF \<and> (\<forall>p rest. todo p = w @ rest \<and> ends_value rest \<longrightarrow>
     ps_last_token (get_token p) \<noteq> T_end_array \<and> parses Value (get_token p) rest (\<lambda>v. json_eq v j))"

definition reads_members :: "(string \<times> json) list \<Rightarrow> string \<Rightarrow> bool" where
  "reads_members m w \<longleftrightarrow> (\<forall>p rest acc. todo p = w @ CHR 0x7D # rest \<and> object_sorted (acc @ m) \<longrightarrow>
     ps_last_token (get_token p) \<noteq> T_end_object \<and>
     parses (Members acc) (get_token p) rest (\<lambda>v. \<exists>n. v = Json_object (acc @ n) \<and> json_object_eq n m))"

definition reads_elements :: "json list \<Rightarrow> string \<Rightarrow> bool" where
  "reads_elements xs w \<longleftrightarrow> (\<forall>p rest acc. todo p = w @ CHR 0x5D # rest \<longrightarrow>
     ps_last_token (get_token p) \<noteq> T_end_array \<and>
     parses (Elements acc) (get_token p) rest (\<lambda>v. \<exists>ys. v = Json_array (acc @ ys) \<and> json_list_eq ys xs))"

lemma reads_valueI:
  assumes "w \<noteq> []" "hd w \<noteq> CHR 0xEF"
    and "\<And>p rest. todo p = w @ rest \<Longrightarrow> ends_value rest \<Longrightarrow>
      ps_last_token (get_token p) \<noteq> T_end_array \<and> parses Value (get_token p) rest (\<lambda>v. json_eq v j)"
  shows "reads_value j w"
  using assms by (simp add: reads_value_def)

lemma parses_simple:
  assumes "parse_goal g p = Some (Inr (v, p'))" "todo p' = rest" "P v"
  shows "parses g p rest P"
  using assms by (auto simp: parses_def)

lemma parse_simple:
  "ps_last_token p = T_literal_null \<Longrightarrow> parse_goal Value p = Some (Inr (Json_null, p))"
  "ps_last_token p = T_literal_true \<Longrightarrow> parse_goal Value p = Some (Inr (Json_boolean True, p))"
  "ps_last_token p = T_literal_false \<Longrightarrow> parse_goal Value p = Some (Inr (Json_boolean False, p))"
  "ps_last_token p = T_value_string \<Longrightarrow> parse_goal Value p = Some (Inr (Json_string (lx_yytext (ps_lexer p)), p))"
  "ps_last_token p = T_value_unsigned \<Longrightarrow> parse_goal Value p = Some (Inr (Json_unsigned (lx_value_unsigned (ps_lexer p)), p))"
  "ps_last_token p = T_value_integer \<Longrightarrow> parse_goal Value p = Some (Inr (Json_integer (lx_value_integer (ps_lexer p)), p))"
  "ps_last_token p = T_value_float \<Longrightarrow> isfinite (lx_value_float (ps_lexer p)) \<Longrightarrow>
    parse_goal Value p = Some (Inr (Json_float (lx_value_float (ps_lexer p)), p))"
  by (subst parse_goal.simps; simp add: parse_float_def)+

lemma token_number:
  assumes "todo p = w @ rest" "ends_value rest" "number_text w t"
  obtains l where "get_token p = (case scan_number_done t l of (t, lx) \<Rightarrow> \<lparr>ps_lexer = lx, ps_last_token = t\<rparr>)"
    "ahead (lx_unget l) = rest" "lx_yytext (lx_unget l) = w"
proof -
  have "lx_yytext (lx_unget l) = lx_yytext l" for l by (simp add: lx_unget_def Let_def)
  then show thesis using that scan_number_read[OF assms] by (auto simp: get_token_def)
qed

lemma reads_number:
  assumes "number_text w t"
    and "\<And>l p. lx_yytext (lx_unget l) = w \<Longrightarrow>
      p = (case scan_number_done t l of (t, lx) \<Rightarrow> \<lparr>ps_lexer = lx, ps_last_token = t\<rparr>) \<Longrightarrow>
      ps_last_token p \<noteq> T_end_array \<and> todo p = ahead (lx_unget l) \<and> (\<exists>v. parse_goal Value p = Some (Inr (v, p)) \<and> json_eq v j)"
  shows "reads_value j w"
proof (rule reads_valueI)
  have h: "hd w = CHR ''-'' \<or> is_digit (hd w)" using assms(1) by (simp add: number_text_def)
  then show "hd w \<noteq> CHR 0xEF" by (auto simp: is_digit_def)
  show "w \<noteq> []" using assms(1) by (simp add: number_text_def)
  fix p rest
  assume "todo p = w @ rest" "ends_value rest"
  from token_number[OF this assms(1)] obtain l where
    l: "get_token p = (case scan_number_done t l of (t, lx) \<Rightarrow> \<lparr>ps_lexer = lx, ps_last_token = t\<rparr>)"
    "ahead (lx_unget l) = rest" "lx_yytext (lx_unget l) = w" .
  from assms(2)[OF l(3) l(1)] l(2) show
    "ps_last_token (get_token p) \<noteq> T_end_array \<and> parses Value (get_token p) rest (\<lambda>v. json_eq v j)"
    by (auto simp: parses_def)
qed

lemma reads_unsigned:
  assumes "int n < 2 ^ 64" "\<And>u. u = of_int (int n) \<Longrightarrow> json_eq (Json_unsigned u) j"
  shows "reads_value j (show_nat n)"
  by (rule reads_number[OF number_text_nat(1)]) (use assms in \<open>simp add: scan_number_done_def Let_def parse_simple\<close>)

lemma reads_negative:
  assumes "0 < n" "int n \<le> 2 ^ 63" "\<And>i. i = of_int (- int n) \<Longrightarrow> json_eq (Json_integer i) j"
  shows "reads_value j (CHR ''-'' # show_nat n)"
  by (rule reads_number[OF number_text_nat(2)[OF assms(1)]])
    (use assms in \<open>simp add: scan_number_done_def Let_def parse_simple\<close>)

lemma reads_float:
  assumes "dump_float x = Some w" "float_reads_back x"
  shows "reads_value (Json_float x) w"
  using assms by (intro reads_number[of _ T_value_float])
    (simp_all add: float_reads_back_def scan_number_done_def Let_def parse_simple)

lemma reads_integer: "reads_value (Json_integer i) (dump_integer (sint i))"
proof -
  have r: "- (2 ^ 63) \<le> sint i" "sint i < 2 ^ 63" using sint_range_size[of i] by (simp_all add: word_size)
  show ?thesis
  proof (cases "sint i < 0")
    case True
    then show ?thesis using r reads_negative[of "nat (- sint i)"]
      by (simp add: dump_integer_show show_int_def)
  next
    case False
    then show ?thesis using r reads_unsigned[of "nat (sint i)"]
      by (simp add: dump_integer_show show_int_def)
  qed
qed

lemma reads_natural: "reads_value (Json_unsigned u) (dump_integer (uint u))"
  using reads_unsigned[of "nat (uint u)"] uint_range_size[of u]
  by (simp add: dump_integer_show show_int_def word_size)

lemma reads_token:
  assumes "\<And>p t. todo p = w @ t \<Longrightarrow> ps_last_token (get_token p) = tok \<and> todo (get_token p) = t"
    and "\<And>p. ps_last_token p = tok \<Longrightarrow> parse_goal Value p = Some (Inr (j, p))"
    and "tok \<noteq> T_end_array" "w \<noteq> []" "hd w \<noteq> CHR 0xEF" "json_eq j j"
  shows "reads_value j w"
proof (rule reads_valueI[OF assms(4,5)])
  fix p rest
  assume "todo p = w @ rest"
  from assms(1)[OF this] show "ps_last_token (get_token p) \<noteq> T_end_array \<and> parses Value (get_token p) rest (\<lambda>v. json_eq v j)"
    using assms(2)[of "get_token p"] assms(3,6) by (auto simp: parses_def)
qed

lemma reads_literals:
  "reads_value (Json_boolean True) ''true''" "reads_value (Json_boolean False) ''false''" "reads_value Json_null ''null''"
  by (rule reads_token, erule token_literal, erule parse_simple, simp_all)+

lemma reads_string:
  assumes "dump_string False s out = Some (Inr out')"
  shows "\<exists>w. out' = out @ w \<and> reads_value (Json_string s) w"
proof -
  obtain w where w: "out' = out @ CHR 0x22 # w" "\<And>p t. todo p = CHR 0x22 # w @ t \<Longrightarrow>
    ps_last_token (get_token p) = T_value_string \<and> lx_yytext (ps_lexer (get_token p)) = s \<and> todo (get_token p) = t"
    using dump_string_read[OF assms] by blast
  have "reads_value (Json_string s) (CHR 0x22 # w)"
    by (rule reads_valueI) (use w(2) parse_simple(4) in \<open>auto simp: parses_def\<close>)
  then show ?thesis using w(1) by blast
qed

section \<open>Objects and arrays\<close>

lemma parses_next_separator:
  assumes "todo p = CHR 0x2C # t" "parses g (get_token (get_token p)) rest P"
  shows "\<exists>v p'. next_turn g tok j p = Some (Inr (v, p')) \<and> P v \<and> todo p' = rest"
  using assms(2) token_char(6)[OF assms(1)] by (auto simp: next_turn_def parses_def)

lemma next_turn_end:
  assumes "ps_last_token (get_token p) = tok" "tok \<noteq> T_value_separator"
  shows "next_turn g tok j p = Some (Inr (j, get_token p))"
  using assms by (simp add: next_turn_def expect_def Let_def)

lemma reads_elements_last:
  assumes "reads_value j w"
  shows "reads_elements [j] w"
  unfolding reads_elements_def
proof (intro allI impI)
  fix p rest acc
  assume a: "todo p = w @ CHR 0x5D # rest"
  obtain v p' where v: "parse_goal Value (get_token p) = Some (Inr (v, p'))" "json_eq v j" "todo p' = CHR 0x5D # rest"
    and n: "ps_last_token (get_token p) \<noteq> T_end_array"
    using assms a unfolding reads_value_def parses_def by (force simp: ends_value_def)
  note e = token_char(2,7)[OF v(3), simplified]
  show "ps_last_token (get_token p) \<noteq> T_end_array \<and>
    parses (Elements acc) (get_token p) rest (\<lambda>v. \<exists>ys. v = Json_array (acc @ ys) \<and> json_list_eq ys [j])"
    using n v(1,2) e next_turn_end[OF e(1)]
    by (auto simp: parses_def parse_Elements intro!: exI[of _ "[v]"])
qed

lemma reads_elements_Cons:
  assumes "reads_value j w" "reads_elements xs w2"
  shows "reads_elements (j # xs) (w @ CHR 0x2C # w2)"
  unfolding reads_elements_def
proof (intro allI impI)
  fix p rest acc
  assume "todo p = (w @ CHR 0x2C # w2) @ CHR 0x5D # rest"
  then have a: "todo p = w @ CHR 0x2C # w2 @ CHR 0x5D # rest" by simp
  obtain v p' where v: "parse_goal Value (get_token p) = Some (Inr (v, p'))" "json_eq v j" "todo p' = CHR 0x2C # w2 @ CHR 0x5D # rest"
    and n: "ps_last_token (get_token p) \<noteq> T_end_array"
    using assms(1) a unfolding reads_value_def parses_def by (force simp: ends_value_def)
  have "todo (get_token p') = w2 @ CHR 0x5D # rest" using token_char(7)[OF v(3)] by simp
  with assms(2) have "parses (Elements (acc @ [v])) (get_token (get_token p')) rest
      (\<lambda>x. \<exists>ys. x = Json_array ((acc @ [v]) @ ys) \<and> json_list_eq ys xs)"
    unfolding reads_elements_def by blast
  from parses_next_separator[OF v(3) this, of T_end_array "Json_array (acc @ [v])"]
  obtain ys q where y: "next_turn (Elements (acc @ [v])) T_end_array (Json_array (acc @ [v])) p' =
      Some (Inr (Json_array ((acc @ [v]) @ ys), q))" "json_list_eq ys xs" "todo q = rest" by blast
  show "ps_last_token (get_token p) \<noteq> T_end_array \<and>
    parses (Elements acc) (get_token p) rest (\<lambda>v. \<exists>ys. v = Json_array (acc @ ys) \<and> json_list_eq ys (j # xs))"
    using n v(1,2) y by (auto simp: parses_def parse_Elements intro!: exI[of _ "v # ys"])
qed

lemma reads_array:
  assumes "reads_elements xs w"
  shows "reads_value (Json_array xs) (CHR 0x5B # w @ [CHR 0x5D])"
proof (rule reads_valueI)
  fix p rest
  assume "todo p = (CHR 0x5B # w @ [CHR 0x5D]) @ rest"
  then have a: "todo p = CHR 0x5B # w @ CHR 0x5D # rest" by simp
  note t = token_char(1,7)[OF a, simplified]
  have e: "ps_last_token (get_token (get_token p)) \<noteq> T_end_array"
    "parses (Elements []) (get_token (get_token p)) rest (\<lambda>v. \<exists>ys. v = Json_array ([] @ ys) \<and> json_list_eq ys xs)"
    using assms t(2) unfolding reads_elements_def by blast+
  have "parse_goal Value (get_token p) = parse_goal (Elements []) (get_token (get_token p))"
    using t(1) e(1) by (subst parse_goal.simps) (simp add: Let_def)
  then show "ps_last_token (get_token p) \<noteq> T_end_array \<and> parses Value (get_token p) rest (\<lambda>v. json_eq v (Json_array xs))"
    using t(1) e(2) by (auto simp: parses_def)
qed simp_all

lemma reads_empty: "reads_value (Json_array []) [CHR 0x5B, CHR 0x5D]" "reads_value (Json_object []) [CHR 0x7B, CHR 0x7D]"
proof -
  show "reads_value (Json_array []) [CHR 0x5B, CHR 0x5D]"
  proof (rule reads_valueI)
    fix p rest
    assume "todo p = [CHR 0x5B, CHR 0x5D] @ rest"
    then have a: "todo p = CHR 0x5B # CHR 0x5D # rest" by simp
    note t = token_char(1,7)[OF a, simplified]
    note u = token_char(2,7)[OF t(2), simplified]
    show "ps_last_token (get_token p) \<noteq> T_end_array \<and> parses Value (get_token p) rest (\<lambda>v. json_eq v (Json_array []))"
      unfolding parses_def by (subst parse_goal.simps) (simp add: Let_def t u)
  qed simp_all
  show "reads_value (Json_object []) [CHR 0x7B, CHR 0x7D]"
  proof (rule reads_valueI)
    fix p rest
    assume "todo p = [CHR 0x7B, CHR 0x7D] @ rest"
    then have a: "todo p = CHR 0x7B # CHR 0x7D # rest" by simp
    note t = token_char(3,7)[OF a, simplified]
    note u = token_char(4,7)[OF t(2), simplified]
    show "ps_last_token (get_token p) \<noteq> T_end_array \<and> parses Value (get_token p) rest (\<lambda>v. json_eq v (Json_object []))"
      unfolding parses_def by (subst parse_goal.simps) (simp add: Let_def t u)
  qed simp_all
qed

definition reads_key :: "string \<Rightarrow> string \<Rightarrow> bool" where
  "reads_key k w \<longleftrightarrow> (\<forall>p t. todo p = w @ t \<longrightarrow>
     ps_last_token (get_token p) = T_value_string \<and> lx_yytext (ps_lexer (get_token p)) = k \<and> todo (get_token p) = t)"

lemma reads_member:
  assumes "todo p = kw @ CHR 0x3A # w @ r" "reads_key k kw" "reads_value j w" "ends_value r"
    and "object_sorted (acc @ (k, j) # m)"
  obtains v p' where "parse_goal (Members acc) (get_token p) =
      next_turn (Members (acc @ [(k, v)])) T_end_object (Json_object (acc @ [(k, v)])) p'"
    "json_eq v j" "todo p' = r" "ps_last_token (get_token p) \<noteq> T_end_object" "object_sorted ((acc @ [(k, v)]) @ m)"
proof -
  have k: "ps_last_token (get_token p) = T_value_string" "lx_yytext (ps_lexer (get_token p)) = k"
    "todo (get_token p) = CHR 0x3A # w @ r"
    using assms(1,2) unfolding reads_key_def by blast+
  note c = token_char(5,7)[OF k(3), simplified]
  obtain v p' where v: "parse_goal Value (get_token (get_token (get_token p))) = Some (Inr (v, p'))" "json_eq v j" "todo p' = r"
    using assms(3,4) c(2) unfolding reads_value_def parses_def by blast
  have s: "object_sorted ((acc @ [(k, v)]) @ m)" "object_sorted (acc @ [(k, v)])"
    using assms(5) by (auto simp: object_sorted_def sorted_wrt_append)
  have "parse_goal (Members acc) (get_token p) =
      next_turn (Members (acc @ [(k, v)])) T_end_object (Json_object (acc @ [(k, v)])) p'"
    using k(1,2) c(1) v(1) object_emplace_end[OF s(2)] by (simp add: parse_Members Let_def)
  then show thesis using that v(2,3) s(1) k(1) by simp
qed

lemma reads_members_last:
  assumes "reads_key k kw" "reads_value j w"
  shows "reads_members [(k, j)] (kw @ CHR 0x3A # w)"
  unfolding reads_members_def
proof (intro allI impI, elim conjE)
  fix p rest acc
  assume "todo p = (kw @ CHR 0x3A # w) @ CHR 0x7D # rest" and s: "object_sorted (acc @ [(k, j)])"
  then have a: "todo p = kw @ CHR 0x3A # w @ CHR 0x7D # rest" by simp
  have "ends_value (CHR 0x7D # rest)" by (simp add: ends_value_def)
  from reads_member[OF a assms this s] obtain v p' where v: "parse_goal (Members acc) (get_token p) =
      next_turn (Members (acc @ [(k, v)])) T_end_object (Json_object (acc @ [(k, v)])) p'" "json_eq v j"
    "todo p' = CHR 0x7D # rest" "ps_last_token (get_token p) \<noteq> T_end_object" .
  note e = token_char(4,7)[OF v(3), simplified]
  show "ps_last_token (get_token p) \<noteq> T_end_object \<and>
    parses (Members acc) (get_token p) rest (\<lambda>v. \<exists>n. v = Json_object (acc @ n) \<and> json_object_eq n [(k, j)])"
    using v(1,2,4) e next_turn_end[OF e(1)] by (auto simp: parses_def intro!: exI[of _ "[(k, v)]"])
qed

lemma reads_members_Cons:
  assumes "reads_key k kw" "reads_value j w" "reads_members m w2"
  shows "reads_members ((k, j) # m) (kw @ CHR 0x3A # w @ CHR 0x2C # w2)"
  unfolding reads_members_def
proof (intro allI impI, elim conjE)
  fix p rest acc
  assume "todo p = (kw @ CHR 0x3A # w @ CHR 0x2C # w2) @ CHR 0x7D # rest" and s: "object_sorted (acc @ (k, j) # m)"
  then have a: "todo p = kw @ CHR 0x3A # w @ CHR 0x2C # w2 @ CHR 0x7D # rest" by simp
  have "ends_value (CHR 0x2C # w2 @ CHR 0x7D # rest)" by (simp add: ends_value_def)
  from reads_member[OF a assms(1,2) this s] obtain v p' where v: "parse_goal (Members acc) (get_token p) =
      next_turn (Members (acc @ [(k, v)])) T_end_object (Json_object (acc @ [(k, v)])) p'" "json_eq v j"
    "todo p' = CHR 0x2C # w2 @ CHR 0x7D # rest" "ps_last_token (get_token p) \<noteq> T_end_object"
    "object_sorted ((acc @ [(k, v)]) @ m)" .
  have "todo (get_token p') = w2 @ CHR 0x7D # rest" using token_char(7)[OF v(3)] by simp
  with assms(3) v(5) have "parses (Members (acc @ [(k, v)])) (get_token (get_token p')) rest
      (\<lambda>x. \<exists>n. x = Json_object ((acc @ [(k, v)]) @ n) \<and> json_object_eq n m)"
    unfolding reads_members_def by blast
  from parses_next_separator[OF v(3) this, of T_end_object "Json_object (acc @ [(k, v)])"]
  obtain n q where y: "next_turn (Members (acc @ [(k, v)])) T_end_object (Json_object (acc @ [(k, v)])) p' =
      Some (Inr (Json_object ((acc @ [(k, v)]) @ n), q))" "json_object_eq n m" "todo q = rest" by blast
  show "ps_last_token (get_token p) \<noteq> T_end_object \<and>
    parses (Members acc) (get_token p) rest (\<lambda>v. \<exists>n. v = Json_object (acc @ n) \<and> json_object_eq n ((k, j) # m))"
    using v(1,2,4) y by (auto simp: parses_def intro!: exI[of _ "(k, v) # n"])
qed

lemma reads_object:
  assumes "reads_members m w" "object_sorted m"
  shows "reads_value (Json_object m) (CHR 0x7B # w @ [CHR 0x7D])"
proof (rule reads_valueI)
  fix p rest
  assume "todo p = (CHR 0x7B # w @ [CHR 0x7D]) @ rest"
  then have a: "todo p = CHR 0x7B # w @ CHR 0x7D # rest" by simp
  note t = token_char(3,7)[OF a, simplified]
  have e: "ps_last_token (get_token (get_token p)) \<noteq> T_end_object"
    "parses (Members []) (get_token (get_token p)) rest (\<lambda>v. \<exists>n. v = Json_object ([] @ n) \<and> json_object_eq n m)"
    using assms(1)[unfolded reads_members_def, rule_format, of "get_token p" rest "[]"] t(2) assms(2) by simp_all
  have "parse_goal Value (get_token p) = parse_goal (Members []) (get_token (get_token p))"
    using t(1) e(1) by (subst parse_goal.simps) (simp add: Let_def)
  then show "ps_last_token (get_token p) \<noteq> T_end_array \<and> parses Value (get_token p) rest (\<lambda>v. json_eq v (Json_object m))"
    using t(1) e(2) by (auto simp: parses_def)
qed simp_all

lemma key_read:
  assumes "dump_string False k out = Some (Inr out')"
  shows "\<exists>w. out' = out @ w \<and> reads_key k w"
  using dump_string_read[OF assms] unfolding reads_key_def by (metis append_Cons)

text \<open>What is written for a value is the text of the value.\<close>

lemma dump_reads:
  "dump ascii j out = Some (Inr out') \<Longrightarrow> \<not> ascii \<Longrightarrow> json_ok j \<Longrightarrow> \<exists>w. out' = out @ w \<and> reads_value j w"
  "dump_members ascii m out = Some (Inr out') \<Longrightarrow> \<not> ascii \<Longrightarrow> list_all (\<lambda>(k, v). json_ok v) m \<Longrightarrow> m \<noteq> [] \<Longrightarrow>
    \<exists>w. out' = out @ w \<and> reads_members m w"
  "dump_elements ascii xs out = Some (Inr out') \<Longrightarrow> \<not> ascii \<Longrightarrow> list_all json_ok xs \<Longrightarrow> xs \<noteq> [] \<Longrightarrow>
    \<exists>w. out' = out @ w \<and> reads_elements xs w"
proof (induction ascii j and ascii m and ascii xs arbitrary: out out' and out out' and out out'
    rule: dump_dump_members_dump_elements.induct)
  case (1 ascii m)
  show ?case
  proof (cases "m = []")
    case True
    then show ?thesis using 1 reads_empty by (auto simp: write_characters_def)
  next
    case False
    then obtain o1 where o1: "dump_members ascii m (out @ [CHR 0x7B]) = Some (Inr o1)" "out' = o1 @ [CHR 0x7D]"
      using "1.prems"(1) by (auto simp: and_then_Inr write_characters_def)
    from "1.IH"[OF False o1(1)] "1.prems"(2,3) False
    obtain w where w: "o1 = (out @ [CHR 0x7B]) @ w" "reads_members m w" by auto
    from reads_object[OF w(2)] "1.prems"(3) w(1) o1(2) show ?thesis by auto
  qed
next
  case (2 ascii xs)
  show ?case
  proof (cases "xs = []")
    case True
    then show ?thesis using 2 reads_empty by (auto simp: write_characters_def)
  next
    case False
    then obtain o1 where o1: "dump_elements ascii xs (out @ [CHR 0x5B]) = Some (Inr o1)" "out' = o1 @ [CHR 0x5D]"
      using "2.prems"(1) by (auto simp: and_then_Inr write_characters_def)
    from "2.IH"[OF False o1(1)] "2.prems"(2,3) False
    obtain w where w: "o1 = (out @ [CHR 0x5B]) @ w" "reads_elements xs w" by auto
    from reads_array[OF w(2)] w(1) o1(2) show ?thesis by auto
  qed
next
  case (3 ascii s)
  then show ?case using reads_string by simp
next
  case (4 ascii b)
  then show ?case using reads_literals by (cases b) (auto simp: write_characters_def)
next
  case (5 ascii i)
  then show ?case using reads_integer by (auto simp: write_characters_def)
next
  case (6 ascii u)
  then show ?case using reads_natural by (auto simp: write_characters_def)
next
  case (7 ascii x)
  then show ?case using reads_float by (auto simp: write_characters_def split: Option.bind_splits)
next
  case (11 ascii k v m)
  then obtain o1 o2 where o1: "dump_string ascii k out = Some (Inr o1)" "dump ascii v (o1 @ [CHR 0x3A]) = Some (Inr o2)"
    "m = [] \<and> out' = o2 \<or> m \<noteq> [] \<and> dump_members ascii m (o2 @ [CHR 0x2C]) = Some (Inr out')"
    by (auto simp: and_then_Inr write_characters_def split: if_splits)
  obtain kw where k: "o1 = out @ kw" "reads_key k kw" using key_read[of k out o1] o1(1) "11.prems"(2) by auto
  obtain w where w: "o2 = (o1 @ [CHR 0x3A]) @ w" "reads_value v w" using "11.IH"(1)[OF o1(2)] "11.prems"(2,3) by auto
  show ?case
  proof (cases "m = []")
    case True
    then show ?thesis using o1(3) k w reads_members_last[OF k(2) w(2)] by auto
  next
    case False
    then obtain w2 where "out' = (o2 @ [CHR 0x2C]) @ w2" "reads_members m w2"
      using "11.IH"(2)[OF False, of "o2 @ [CHR 0x2C]" out'] False o1(3) "11.prems"(2,3) by auto
    then show ?thesis using k w reads_members_Cons[OF k(2) w(2)] by auto
  qed
next
  case (13 ascii x xs)
  then obtain o2 where o2: "dump ascii x out = Some (Inr o2)"
    "xs = [] \<and> out' = o2 \<or> xs \<noteq> [] \<and> dump_elements ascii xs (o2 @ [CHR 0x2C]) = Some (Inr out')"
    by (auto simp: and_then_Inr write_characters_def split: if_splits)
  obtain w where w: "o2 = out @ w" "reads_value x w" using "13.IH"(1)[OF o2(1)] "13.prems"(2,3) by auto
  show ?case
  proof (cases "xs = []")
    case True
    then show ?thesis using o2(2) w reads_elements_last[OF w(2)] by auto
  next
    case False
    then obtain w2 where "out' = (o2 @ [CHR 0x2C]) @ w2" "reads_elements xs w2"
      using "13.IH"(2)[OF False, of "o2 @ [CHR 0x2C]" out'] False o2(2) "13.prems"(2,3) by auto
    then show ?thesis using w reads_elements_Cons[OF w(2)] by auto
  qed
qed (auto simp: write_characters_def intro: reads_literals)

section \<open>An example\<close>

definition example_json :: json where
  "example_json = Json_object
     [(''amount'', Json_float (lit 3 / lit 2)),
      (''data'', Json_array [Json_boolean True, Json_null, Json_integer (- 3), Json_unsigned 7]),
      (''event'', Json_string [CHR ''a'', CHR 0x22, CHR 0x01, CHR 0xC3, CHR 0xA9])]"

lemma example_boundaries: "compute_boundaries (lit 3 / lit 2) =
    Some \<lparr>bd_w = mk_fp 13835058055282163712 (- 63), bd_minus = mk_fp 13835058055282162688 (- 63), bd_plus = mk_fp 13835058055282164736 (- 63)\<rparr>"
  by code_simp

lemma example_power: "cached_power_for (- 63) = Some (11258999068426240000, - 50, 4)"
  by code_simp

lemma example_products:
  "fp_mul (mk_fp 13835058055282163712 (- 63)) (mk_fp 11258999068426240000 (- 50)) = mk_fp 8444249301319680000 (- 49)"
  "fp_mul (mk_fp 13835058055282162688 (- 63)) (mk_fp 11258999068426240000 (- 50)) = mk_fp 8444249301319679375 (- 49)"
  "fp_mul (mk_fp 13835058055282164736 (- 63)) (mk_fp 11258999068426240000 (- 50)) = mk_fp 8444249301319680625 (- 49)"
  by code_simp+

lemma example_round: "grisu2_round ''15'' 624 1248 624 562949953421312000 = Some ''15''"
  by (subst grisu2_round.simps) simp

lemma example_integral: "integral_digits 5 [] 15000 10000 624 1248 49 = Inr (''15'', 3, 624, 562949953421312000)"
  by code_simp

lemma example_parts: "ucast (drop_bit 49 (8444249301319680624 :: 64 word)) = (15000 :: 32 word)"
  "(8444249301319680624 :: 64 word) AND (push_bit 49 1 - 1) = 624" "find_largest_pow10 15000 = (5, 10000)"
  by code_simp+

lemma example_digits: "grisu2_digit_gen (- 4) (mk_fp 8444249301319679376 (- 49)) (mk_fp 8444249301319680000 (- 49))
    (mk_fp 8444249301319680624 (- 49)) = Some (''15'', - 1)"
  by (simp add: grisu2_digit_gen_def fp_sub_def mk_fp_def example_parts example_integral example_round Let_def)

lemma fp_fields: "fp_f (mk_fp f e) = f" "fp_e (mk_fp f e) = e"
  by (simp_all add: mk_fp_def)

lemma example_float: "dump_float (lit 3 / lit 2) = Some ''1.5''"
proof -
  have g: "grisu2 (lit 3 / lit 2) = Some (''15'', - 1)"
    unfolding grisu2_def example_boundaries grisu2_scaled_def
    by (simp add: fp_fields example_power example_products Let_def example_digits)
  have f: "isfinite (lit 3 / lit 2)" "\<not> d_neg (lit 3 / lit 2)" "\<not> d_zero (lit 3 / lit 2)" by code_simp+
  have "format_buffer ''15'' (- 1) (- 4) 15 = ''1.5''" by (simp add: format_buffer_def Let_def)
  then show ?thesis using f g by (simp add: dump_float_def to_chars_def Let_def)
qed

lemma example_strtod: "number_text ''1.5'' T_value_float" "isfinite (strtod ''1.5'')" "d_eq (strtod ''1.5'') (lit 3 / lit 2)"
  by code_simp+

lemmas escape_eval = dump_escaped_def escape_byte_alt next_state_0 next_state_2 put_codepoint_def buffer_put_def buffer_printf_def
  inside_char_def after_char_def UTF8_ACCEPT_def UTF8_REJECT_def flush_def Let_def

lemma example_strings:
  "dump_escaped False ''amount'' out = Some (Inr (out @ ''amount''))"
  "dump_escaped False ''data'' out = Some (Inr (out @ ''data''))"
  "dump_escaped False ''event'' out = Some (Inr (out @ ''event''))"
  by (simp_all add: escape_eval first_byte_ascii)

lemma hex4_1: "hex4 (Suc 0) = ''0001''"
  by code_simp

lemma example_string:
  "dump_escaped False [CHR ''a'', CHR 0x22, CHR 0x01, CHR 0xC3, CHR 0xA9] out =
    Some (Inr (out @ ''a'' @ [CHR 0x5C, CHR 0x22, CHR 0x5C] @ ''u0001'' @ [CHR 0xC3, CHR 0xA9]))"
  by (simp add: escape_eval first_byte_ascii first_codepoint_range hex4_1)

lemma example_text: "\<exists>s. dump_text example_json = Some (Inr s)"
  by (simp add: example_json_def dump_text_def and_then_def write_characters_def dump_string_def example_strings example_string example_float)

lemma example_json_ok: "json_ok example_json"
  by (simp add: example_json_def float_reads_back_def example_float example_strtod object_sorted_def)

section \<open>The round trip\<close>

text \<open>
  C12: What \<open>dump\<close> writes for a value, \<open>parse\<close> reads as an equal value: the keys of the objects are in
  order, the value holds no discarded one, and every floating-point number is one whose text reads
  as an equal number.
\<close>

theorem json_roundtrip:
  assumes "json_ok j" "dump_text j = Some (Inr s)"
  shows "\<exists>v. parse_text s = Some (Inr v) \<and> json_eq v j"
proof -
  obtain w where w: "s = w" "reads_value j w"
    using dump_reads(1)[of False j "[]" s] assms by (auto simp: dump_text_def)
  have n: "s \<noteq> []" "hd s \<noteq> CHR 0xEF" using w by (auto simp: reads_value_def)
  then have "adapter_cursor s = 0" by (cases s) (auto simp: adapter_cursor_def)
  then have "todo (mk_parser s) = w @ []" using w(1) by (simp add: mk_parser_def mk_lexer_def ahead_def)
  then obtain v p where v: "parse_goal Value (get_token (mk_parser s)) = Some (Inr (v, p))" "json_eq v j" "todo p = []"
    using w(2) unfolding reads_value_def parses_def by (metis ends_value_def)
  then show ?thesis using token_end[OF v(3)]
    by (simp add: parse_text_def result_bind_def expect_def Let_def)
qed

theorem json_roundtrip_witness:
  "json_ok example_json \<and> (\<exists>s v. dump_text example_json = Some (Inr s) \<and> parse_text s = Some (Inr v) \<and> json_eq v example_json)"
proof -
  obtain s where "dump_text example_json = Some (Inr s)" using example_text by blast
  from json_roundtrip[OF example_json_ok this] this show ?thesis using example_json_ok by blast
qed

end
