(* ===== verification/Fourier.thy ===== *)
theory Fourier
  imports Ranges Plot_Buffer Model_Text
begin

text \<open>
  Trigonometry from a table (\<open>src/src/math/fast_trigo.hpp\<close>) and the Fourier analysis of the
  points of a range (\<open>src/src/math/Fourier.hpp\<close>). Sine and cosine are those of the mathematics
  library, the parameters of \<open>trig\<close>. \<open>None\<close> is a conversion to \<open>int\<close> out of range, a loop over
  the range or over the periods that does not end, or a read of the range without a value.
\<close>

section \<open>Tables\<close>

record trig =
  trig_cos :: "double \<Rightarrow> double"
  trig_sin :: "double \<Rightarrow> double"
  trig_sqrt :: "double \<Rightarrow> double"

definition M_PI :: double where
  "M_PI = dec 314159265358979323846 20"

definition resolution :: int where
  "resolution = 2 ^ 16"

text \<open>The abscissa of an entry of the tables.\<close>

definition table_angle :: "nat \<Rightarrow> double" where
  "table_angle i = lit 2 * M_PI * (lit (int i) - dec 5 1) / lit resolution"

definition cos_table :: "trig \<Rightarrow> double list" where
  "cos_table T = map (\<lambda>i. trig_cos T (table_angle i)) [0..<nat resolution]"

definition sin_table :: "trig \<Rightarrow> double list" where
  "sin_table T = map (\<lambda>i. trig_sin T (table_angle i)) [0..<nat resolution]"

definition fast_trigo_coefficient :: double where
  "fast_trigo_coefficient = dec 5 1 * lit resolution / M_PI"

definition fast_index :: "double \<Rightarrow> nat option" where
  "fast_index x = Option.bind (d_to_signed 32 (fast_trigo_coefficient * x)) (\<lambda>i. Some (nat (i AND (resolution - 1))))"

definition fast_cos :: "trig \<Rightarrow> double \<Rightarrow> double option" where
  "fast_cos T x = Option.bind (fast_index x) (\<lambda>i. Some (cos_table T ! i))"

definition fast_sin :: "trig \<Rightarrow> double \<Rightarrow> double option" where
  "fast_sin T x = Option.bind (fast_index x) (\<lambda>i. Some (sin_table T ! i))"

section \<open>Coefficients\<close>

record coefficient =
  fc_period :: double
  fc_a :: double
  fc_b :: double
  fc_modulus :: double
  fc_norm :: double

text \<open>The constructor sets the period only; \<open>junk\<close> is what the other members held.\<close>

definition mk_coefficient :: "coefficient \<Rightarrow> double \<Rightarrow> coefficient" where
  "mk_coefficient junk period = junk\<lparr>fc_period := period\<rparr>"

definition add_point :: "trig \<Rightarrow> double \<Rightarrow> double \<times> double \<Rightarrow> double \<times> double \<times> double \<Rightarrow> (double \<times> double \<times> double) option" where
  "add_point T omega point = (\<lambda>(a, b, n).
     let x = omega * fst point in
     Option.bind (fast_cos T x) (\<lambda>c. Option.bind (fast_sin T x) (\<lambda>s.
       Some (a + snd point * c, b + snd point * s, n + lit 1))))"

definition finish_coefficient :: "trig \<Rightarrow> coefficient \<Rightarrow> double \<times> double \<times> double \<Rightarrow> coefficient" where
  "finish_coefficient T fc = (\<lambda>(a, b, n).
     let a = a / n; b = b / n
     in fc\<lparr>fc_a := a, fc_b := b, fc_modulus := trig_sqrt T ((a * a + b * b) / fc_period fc)\<rparr>)"

definition points_coefficient :: "trig \<Rightarrow> coefficient \<Rightarrow> (double \<times> double) list \<Rightarrow> coefficient option" where
  "points_coefficient T fc points =
     map_option (finish_coefficient T fc) (each (add_point T (lit 2 * M_PI / fc_period fc)) points (0, 0, 0))"

definition coefficient_compute ::
    "trig \<Rightarrow> ('s, 'v) range \<Rightarrow> ('v \<Rightarrow> double \<times> double) \<Rightarrow> coefficient \<Rightarrow> 's \<Rightarrow> (coefficient \<times> 's) option" where
  "coefficient_compute T r translator fc s =
     Option.bind (range_items r s) (\<lambda>(items, s').
       map_option (\<lambda>fc'. (fc', s')) (points_coefficient T fc (map translator items)))"

section \<open>The analysis\<close>

record analysis =
  an_period_min :: double
  an_period_max :: double
  an_period_step :: double
  an_coefficients :: "coefficient list"

text \<open>\<open>std::min\<close> and \<open>std::max\<close> give their first argument unless the second is smaller, or greater.\<close>

definition mk_analysis :: "double \<Rightarrow> double \<Rightarrow> double \<Rightarrow> analysis" where
  "mk_analysis pmin pmax pstep =
     \<lparr>an_period_min = (if pmax < pmin then pmax else pmin), an_period_max = (if pmin < pmax then pmax else pmin),
      an_period_step = pstep, an_coefficients = []\<rparr>"

text \<open>The sum of the squares is not initialised either: it starts from \<open>junk_sum\<close>.\<close>

definition period_step ::
    "trig \<Rightarrow> ('s, 'v) range \<Rightarrow> ('v \<Rightarrow> double \<times> double) \<Rightarrow> coefficient \<Rightarrow> double \<Rightarrow>
      coefficient list \<times> double \<times> 's \<Rightarrow> (coefficient list \<times> double \<times> 's) option" where
  "period_step T r translator junk period = (\<lambda>(fcs, sum, s).
     Option.bind (coefficient_compute T r translator (mk_coefficient junk period) s) (\<lambda>(fc, s').
       Some (fcs @ [fc], sum + fc_modulus fc * fc_modulus fc, s')))"

definition analysis_compute ::
    "trig \<Rightarrow> ('s, 'v) range \<Rightarrow> ('v \<Rightarrow> double \<times> double) \<Rightarrow> coefficient \<Rightarrow> double \<Rightarrow> analysis \<Rightarrow> 's \<Rightarrow> (analysis \<times> 's) option" where
  "analysis_compute T r translator junk junk_sum an s =
     Option.bind (for_loop (\<lambda>p. p \<le> an_period_max an) (\<lambda>p. p + an_period_step an) (period_step T r translator junk)
         (an_period_min an) ([], junk_sum, s)) (\<lambda>(fcs, sum, s').
       let sqrt_sum = trig_sqrt T sum
       in Some (an\<lparr>an_coefficients := map (\<lambda>fc. fc\<lparr>fc_norm := fc_modulus fc / sqrt_sum\<rparr>) fcs\<rparr>, s'))"

definition best_coefficient :: "coefficient \<Rightarrow> analysis \<Rightarrow> coefficient" where
  "best_coefficient junk an =
     foldl (\<lambda>best fc. if fc_modulus best < fc_modulus fc then fc else best) (mk_coefficient junk 0) (an_coefficients an)"

section \<open>The tables are read inside\<close>

theorem table_index_inside:
  "fast_index x = Some i \<Longrightarrow> i < length (cos_table T) \<and> i < length (sin_table T)"
proof -
  assume "fast_index x = Some i"
  then obtain n where i: "i = nat (n AND 65535)" by (auto simp: fast_index_def bind_eq_Some_conv resolution_def)
  have "n AND 65535 = take_bit 16 n" by (simp add: take_bit_eq_mask mask_eq_exp_minus_1)
  moreover have "take_bit 16 n < 65536" using take_bit_int_less_exp[of 16 n] by simp
  ultimately have "i < 65536" unfolding i by linarith
  then show ?thesis by (simp add: cos_table_def sin_table_def resolution_def)
qed

section \<open>One coefficient for every period\<close>

lemma points_defined:
  "points_coefficient T fc points \<noteq> None \<longleftrightarrow> (\<forall>q \<in> set points. fast_index (lit 2 * M_PI / fc_period fc * fst q) \<noteq> None)"
proof -
  have "each (add_point T omega) points acc \<noteq> None \<longleftrightarrow> (\<forall>q \<in> set points. fast_index (omega * fst q) \<noteq> None)" for omega acc
  proof (induction points arbitrary: acc)
    case Nil
    then show ?case by simp
  next
    case (Cons q points)
    show ?case
    proof (cases "fast_index (omega * fst q)")
      case None
      then show ?thesis by (simp add: add_point_def fast_cos_def Let_def split: prod.split)
    next
      case (Some i)
      then obtain acc' where "add_point T omega q acc = Some acc'"
        by (cases acc) (simp add: add_point_def fast_cos_def fast_sin_def Let_def)
      then show ?thesis using Cons.IH[of acc'] Some by simp
    qed
  qed
  then show ?thesis by (simp add: points_coefficient_def)
qed

definition square_sum :: "double \<Rightarrow> coefficient list \<Rightarrow> double" where
  "square_sum start fcs = foldl (\<lambda>acc fc. acc + fc_modulus fc * fc_modulus fc) start fcs"

text \<open>What a number of loops over a range read, one after the other.\<close>

fun loops :: "('s, 'v) range \<Rightarrow> nat \<Rightarrow> 's \<Rightarrow> ('v list list \<times> 's) option" where
  "loops r 0 s = Some ([], s)"
| "loops r (Suc n) s = Option.bind (range_items r s) (\<lambda>(items, s').
     Option.bind (loops r n s') (\<lambda>(rest, s''). Some (items # rest, s'')))"

lemma loops_length: "loops r n s = Some (reads, s') \<Longrightarrow> length reads = n"
  by (induction n arbitrary: s reads) (auto simp: bind_eq_Some_conv)

text \<open>Over a container every loop reads everything.\<close>

lemma loops_container: "\<exists>s'. loops (Some forward_range_data) n s = Some (replicate n (fwd_container s), s')"
proof (induction n arbitrary: s)
  case 0
  show ?case by simp
next
  case (Suc n)
  obtain s1 where "range_items (Some forward_range_data) s = Some (fwd_container s, s1)" "fwd_container s1 = fwd_container s"
    using fwd.items[of s] by auto
  then show ?case using Suc.IH[of s1] by auto
qed

text \<open>Over a range that is not rewound, the first loop reads everything and the others nothing.\<close>

lemma loops_once:
  assumes "range_items r s = Some (items, s1)" "range_items r s1 = Some ([], s1)"
  shows "loops r (Suc n) s = Some (items # replicate n [], s1)"
proof -
  have "loops r n s1 = Some (replicate n [], s1)" by (induction n) (simp_all add: assms(2))
  then show ?thesis by (simp add: assms(1))
qed

abbreviation period_coefficients ::
    "trig \<Rightarrow> ('v \<Rightarrow> double \<times> double) \<Rightarrow> coefficient \<Rightarrow> double list \<Rightarrow> 'v list list \<Rightarrow> coefficient list option" where
  "period_coefficients T translator junk ps reads \<equiv>
     those (map2 (\<lambda>p items. points_coefficient T (mk_coefficient junk p) (map translator items)) ps reads)"

lemma each_period:
  "each (period_step T r translator junk) ps (fcs0, acc, s) =
     Option.bind (loops r (length ps) s) (\<lambda>(reads, s').
       map_option (\<lambda>fcs. (fcs0 @ fcs, square_sum acc fcs, s')) (period_coefficients T translator junk ps reads))"
proof (induction ps arbitrary: fcs0 acc s)
  case Nil
  then show ?case by (simp add: square_sum_def)
next
  case (Cons p ps)
  show ?case
  proof (cases "range_items r s")
    case None
    then have "period_step T r translator junk p (fcs0, acc, s) = None" by (simp add: period_step_def coefficient_compute_def)
    then show ?thesis using None by simp
  next
    case (Some a)
    obtain items s1 where r: "range_items r s = Some (items, s1)" using Some by (cases a) simp
    show ?thesis
    proof (cases "points_coefficient T (mk_coefficient junk p) (map translator items)")
      case None
      then have "period_step T r translator junk p (fcs0, acc, s) = None" by (simp add: period_step_def coefficient_compute_def r)
      then show ?thesis using None by (cases "loops r (length ps) s1") (auto simp: r)
    next
      case (Some fc)
      then have "period_step T r translator junk p (fcs0, acc, s) = Some (fcs0 @ [fc], acc + fc_modulus fc * fc_modulus fc, s1)"
        by (simp add: period_step_def coefficient_compute_def r)
      then show ?thesis
        using Some by (cases "loops r (length ps) s1") (auto simp: r Cons.IH square_sum_def option.map_comp comp_def)
    qed
  qed
qed

lemma those_defined: "those xs \<noteq> None \<longleftrightarrow> (\<forall>x \<in> set xs. x \<noteq> None)"
  by (induction xs) (auto split: option.split)

text \<open>
  C37: The analysis of a finite range of periods, with a step no smaller than the spacing of
  doubles there, always comes to an end: there is one period for every step from the least one
  up, and for each of them the range is looped over anew. The coefficient of a period is computed
  from what its own loop reads. For a container that is every point, but a range that can be read
  only once, such as a log, leaves the later periods without any. The result is a value
  exactly when every loop is, and every abscissa read times its frequency converts to an integer.
  All norms are relative to a sum that starts from memory that was never set.
\<close>

theorem fourier_periods:
  assumes "isfinite B" "isfinite (an_period_step an)" "ulp B \<le> d_val (an_period_step an)"
    and "an_period_max an \<le> B" "- B \<le> an_period_min an"
  shows "\<exists>ps. grid_steps (an_period_max an) (an_period_step an) (an_period_min an) ps \<and>
    analysis_compute T r translator junk junk_sum an s =
      Option.bind (loops r (length ps) s) (\<lambda>(reads, s').
        map_option (\<lambda>fcs. (an\<lparr>an_coefficients := map (\<lambda>fc. fc\<lparr>fc_norm := fc_modulus fc / trig_sqrt T (square_sum junk_sum fcs)\<rparr>) fcs\<rparr>, s'))
          (period_coefficients T translator junk ps reads)) \<and>
    (analysis_compute T r translator junk junk_sum an s \<noteq> None \<longleftrightarrow>
      (case loops r (length ps) s of None \<Rightarrow> False
       | Some (reads, s') \<Rightarrow> list_all2 (\<lambda>p items. \<forall>v \<in> set items. fast_index (lit 2 * M_PI / p * fst (translator v)) \<noteq> None) ps reads)) \<and>
    (\<forall>container. \<exists>s'. loops (Some forward_range_data) (length ps) container = Some (replicate (length ps) (fwd_container container), s')) \<and>
    (\<forall>items s1. range_items r s = Some (items, s1) \<and> range_items r s1 = Some ([], s1) \<and> ps \<noteq> [] \<longrightarrow>
      loops r (length ps) s = Some (items # replicate (length ps - 1) [], s1))"
proof -
  obtain ps where ps: "loop_points (\<lambda>p. p \<le> an_period_max an) (\<lambda>p. p + an_period_step an) (an_period_min an) = Some ps"
      "grid_steps (an_period_max an) (an_period_step an) (an_period_min an) ps"
    using loop_points_up[OF assms] by blast
  have a: "analysis_compute T r translator junk junk_sum an s =
      Option.bind (loops r (length ps) s) (\<lambda>(reads, s').
        map_option (\<lambda>fcs. (an\<lparr>an_coefficients := map (\<lambda>fc. fc\<lparr>fc_norm := fc_modulus fc / trig_sqrt T (square_sum junk_sum fcs)\<rparr>) fcs\<rparr>, s'))
          (period_coefficients T translator junk ps reads))"
    unfolding analysis_compute_def for_loop_each[OF ps(1)] each_period
    by (cases "loops r (length ps) s") (auto simp: Let_def option.map_comp comp_def map_option_case split: option.splits)
  have d: "period_coefficients T translator junk ps reads \<noteq> None \<longleftrightarrow>
      list_all2 (\<lambda>p items. \<forall>v \<in> set items. fast_index (lit 2 * M_PI / p * fst (translator v)) \<noteq> None) ps reads"
    if "loops r (length ps) s = Some (reads, s')" for reads s'
    unfolding those_defined list_all2_iff
    using loops_length[OF that] by (simp add: points_defined mk_coefficient_def split_beta del: not_None_eq)
  have "analysis_compute T r translator junk junk_sum an s \<noteq> None \<longleftrightarrow>
      (case loops r (length ps) s of None \<Rightarrow> False
       | Some (reads, s') \<Rightarrow> list_all2 (\<lambda>p items. \<forall>v \<in> set items. fast_index (lit 2 * M_PI / p * fst (translator v)) \<noteq> None) ps reads)"
    unfolding a using d by (auto split: option.split)
  moreover have "loops r (length ps) s = Some (items # replicate (length ps - 1) [], s1)"
    if "range_items r s = Some (items, s1) \<and> range_items r s1 = Some ([], s1) \<and> ps \<noteq> []" for items s1
    using loops_once[of r s items s1 "length ps - 1"] that by simp
  ultimately show ?thesis using ps(2) a loops_container by blast
qed

section \<open>One point, one period\<close>

lemma round_finite:
  assumes "signed_round v (d_key x)" "isfinite w" "0 \<le> v" "v \<le> d_val w"
  shows "isfinite x"
proof -
  have "d_key x \<le> d_key w" by (rule signed_round_mono[OF assms(1) d_key_value[OF assms(2)] assms(4)])
  moreover have "0 \<le> d_key x"
    using signed_round_mono[of 0 0 v "d_key x"] assms(1,3) by (simp add: signed_round_def)
  moreover have "\<bar>d_key y\<bar> = d_mag y" for y by (simp add: d_key_def)
  ultimately have "d_mag x \<le> d_mag w" by (metis abs_of_nonneg order.trans)
  then show ?thesis using assms(2) by (simp add: isfinite_def)
qed

lemma M_PI_facts: "isfinite M_PI" "0 < d_val M_PI" "d_val M_PI < 4"
proof -
  show f: "isfinite M_PI" unfolding M_PI_def by code_simp
  have "M_PI < lit 4" "0 < M_PI" unfolding M_PI_def by code_simp+
  then show "0 < d_val M_PI" "d_val M_PI < 4"
    using less_val[OF f lit_exact(2)[of 4]] less_val[OF isfinite_0 f] by (simp_all add: lit_exact)
qed

lemma index_0: "isfinite x \<Longrightarrow> fast_index (x * 0) \<noteq> None"
proof -
  assume x: "isfinite x"
  have zero: "represents (y * 0) 0" if "isfinite y" for y
    using represents_times[of y "d_val y" 0 0] representable_int[of 0] that by (simp add: represents_def)
  have c: "isfinite fast_trigo_coefficient" unfolding fast_trigo_coefficient_def M_PI_def resolution_def by code_simp
  have "represents (fast_trigo_coefficient * (x * 0)) 0"
    using represents_times[of fast_trigo_coefficient "d_val fast_trigo_coefficient" "x * 0" 0] zero[OF x] c representable_int[of 0]
    by (simp add: represents_def)
  then have "d_trunc (fast_trigo_coefficient * (x * 0)) = Some 0"
    using d_trunc_val[of _ 0] by (simp add: represents_def)
  then show ?thesis by (simp add: fast_index_def d_to_signed_def)
qed

definition demo_trig :: trig where
  "demo_trig = \<lparr>trig_cos = (\<lambda>x. x), trig_sin = (\<lambda>x. x), trig_sqrt = (\<lambda>x. x)\<rparr>"

definition demo_junk :: coefficient where
  "demo_junk = \<lparr>fc_period = 0, fc_a = 0, fc_b = 0, fc_modulus = 0, fc_norm = 0\<rparr>"

theorem fourier_periods_witness:
  "\<exists>an s. analysis_compute demo_trig (Some forward_range_data) (\<lambda>q. q) demo_junk 0 (mk_analysis (lit 1) (lit 1) (lit 1))
      \<lparr>fwd_container = [(0, lit 1)], fwd_iterator = 0\<rparr> = Some (an, s) \<and> an_coefficients an \<noteq> []"
proof -
  note one = represents_lit[of 1]
  have eight: "isfinite (lit 8)" "d_val (lit 8) = 8" using lit_exact[of 8] by simp_all
  have two: "isfinite (lit 2)" "d_val (lit 2) = 2" using lit_exact[of 2] by simp_all
  have m: "represents (- lit 1) (- 1)" using one by (simp add: represents_def)
  have le: "lit 1 \<le> lit 1" "- lit 1 \<le> lit 1" "\<not> lit 1 < lit 1"
    using represents_le[OF one one] represents_le[OF m one] by simp_all
  have e: "d_exp (lit 1) \<le> 0" by code_simp
  have ulp: "ulp (lit 1) \<le> d_val (lit 1)" using powi_le[OF e] one by (simp add: ulp_def represents_def)
  have tau: "isfinite (lit 2 * M_PI)"
    by (rule round_finite[OF times_value[OF two(1) M_PI_facts(1)] eight(1)]) (use M_PI_facts two eight in simp_all)
  have tau8: "0 \<le> d_val (lit 2 * M_PI)" "d_val (lit 2 * M_PI) \<le> 8"
  proof -
    have r: "signed_round (d_val (lit 2) * d_val M_PI) (d_key (lit 2 * M_PI))" by (rule times_value[OF two(1) M_PI_facts(1)])
    have "d_key 0 \<le> d_key (lit 2 * M_PI)" "d_key (lit 2 * M_PI) \<le> d_key (lit 8)"
      using signed_round_mono[OF d_key_value[OF isfinite_0] r] signed_round_mono[OF r d_key_value[OF eight(1)]] M_PI_facts two eight by simp_all
    then show "0 \<le> d_val (lit 2 * M_PI)" "d_val (lit 2 * M_PI) \<le> 8"
      using less_val[OF tau isfinite_0] less_val[OF eight(1) tau] eight(2) isfinite_not(1)[OF tau] isfinite_not(1)[OF eight(1)] isfinite_not(1)[OF isfinite_0]
      by (simp_all add: less_key not_less[symmetric])
  qed
  have fi: "fast_index (lit 2 * M_PI / p * 0) \<noteq> None" if "lit 1 \<le> p" "p \<le> lit 1" for p
  proof (rule index_0)
    have "- lit 1 \<le> p" using double_le_trans[OF le(2) that(1)] .
    then have p: "isfinite p" using within_bound(1)[OF _ _ that(2)] one by (simp add: represents_def)
    then have "represents p (d_val p)" by (simp add: represents_def)
    then have v: "d_val p = 1" using represents_le[OF one] represents_le[OF _ one] that by fastforce
    show "isfinite (lit 2 * M_PI / p)"
      by (rule round_finite[OF divide_value[OF tau p] eight(1)]) (use v tau8 eight in simp_all)
  qed
  let ?an = "mk_analysis (lit 1) (lit 1) (lit 1)"
  have an: "an_period_min ?an = lit 1" "an_period_max ?an = lit 1" "an_period_step ?an = lit 1" by (simp_all add: mk_analysis_def)
  have fin: "isfinite (lit 1)" using one by (simp add: represents_def)
  let ?s = "\<lparr>fwd_container = [(0 :: double, lit 1)], fwd_iterator = 0\<rparr>"
  obtain ps where r: "grid_steps (lit 1) (lit 1) (lit 1) ps"
      "analysis_compute demo_trig (Some forward_range_data) (\<lambda>q. q) demo_junk 0 ?an ?s =
        Option.bind (loops (Some forward_range_data) (length ps) ?s) (\<lambda>(reads, s').
          map_option (\<lambda>fcs. (?an\<lparr>an_coefficients := map (\<lambda>fc. fc\<lparr>fc_norm := fc_modulus fc / trig_sqrt demo_trig (square_sum 0 fcs)\<rparr>) fcs\<rparr>, s'))
            (period_coefficients demo_trig (\<lambda>q. q) demo_junk ps reads))"
      "analysis_compute demo_trig (Some forward_range_data) (\<lambda>q. q) demo_junk 0 ?an ?s \<noteq> None \<longleftrightarrow>
        (case loops (Some forward_range_data) (length ps) ?s of None \<Rightarrow> False
         | Some (reads, s') \<Rightarrow> list_all2 (\<lambda>p items. \<forall>v \<in> set items. fast_index (lit 2 * M_PI / p * fst v) \<noteq> None) ps reads)"
    using fourier_periods[of "lit 1" ?an demo_trig "Some forward_range_data" "\<lambda>q. q" demo_junk 0 ?s, unfolded an, OF fin fin ulp le(1,2)]
    by (elim exE conjE) (rule that)
  have "ps \<noteq> []" using r(1) le(1) unfolding grid_steps_def by auto
  have inside: "lit 1 \<le> p \<and> p \<le> lit 1" if "p \<in> set ps" for p
    using r(1) that unfolding grid_steps_def list_all_iff by blast
  obtain s' where l: "loops (Some forward_range_data) (length ps) ?s = Some (replicate (length ps) [(0 :: double, lit 1)], s')"
    using loops_container[of "length ps" ?s] by auto
  have "list_all2 (\<lambda>p items. \<forall>v \<in> set items. fast_index (lit 2 * M_PI / p * fst v) \<noteq> None) ps (replicate (length ps) [(0 :: double, lit 1)])"
    using fi inside by (auto simp: list_all2_conv_all_nth)
  then have "analysis_compute demo_trig (Some forward_range_data) (\<lambda>q. q) demo_junk 0 ?an ?s \<noteq> None"
    using r(3) l by simp
  then obtain fcs where "period_coefficients demo_trig (\<lambda>q. q) demo_junk ps (replicate (length ps) [(0, lit 1)]) = Some fcs"
      "analysis_compute demo_trig (Some forward_range_data) (\<lambda>q. q) demo_junk 0 ?an ?s =
        Some (?an\<lparr>an_coefficients := map (\<lambda>fc. fc\<lparr>fc_norm := fc_modulus fc / trig_sqrt demo_trig (square_sum 0 fcs)\<rparr>) fcs\<rparr>, s')"
    using r(2) l by auto
  moreover from this(1) \<open>ps \<noteq> []\<close> have "fcs \<noteq> []" by (cases ps) (auto split: option.splits)
  ultimately show ?thesis by simp
qed

end
