(* ===== verification/Spec2Isabelle.thy ===== *)
theory Spec2Isabelle
  imports Exceptions Bots Source WebSocket_Client DB_History Log_History History_Plot Sockets Pusher Bitstamp Json_Roundtrip Fourier
begin

text \<open>
  A verification development for cpptrading, a header-only C++ library for algorithmic trading
  (\<open>src/src\<close>). A source receives the trades and orders of a market and feeds them to histories;
  a bot looks at a history and decides; a broker validates and executes the decision and books
  the result in the histories it feeds; histories live in memory, in log files or in a database,
  are read through ranges, and can be synchronised, summarised and plotted. Around these are
  network clients, exceptions, and some mathematics.

  \<^bold>\<open>Theories and code.\<close>
  \<^item> \<open>Prelude\<close>: bytes, collections of facts, lemmas on lists, and the locales \<open>weak_order\<close> and
    \<open>total_order\<close>, what an ordered container asks of its comparison.
  \<^item> \<open>Double\<close>, \<open>Double_Int\<close>, \<open>Double_Spacing\<close>: the C++ type \<open>double\<close> as the 64 bits of IEEE 754
    binary64, with comparison and the four operations rounded to nearest even on integers, so
    they compute. Lemmas: rounding is exact on values of doubles and monotone, addition with it;
    integers below \<open>2 ^ 53\<close> and their halves are exact; adding the spacing makes progress.
  \<^item> \<open>Exceptions\<close>: \<open>exceptions/Exception.hpp\<close>, the classes and which handler catches which.
  \<^item> \<open>Models\<close>, \<open>Stdio\<close>, \<open>Model_Text\<close>, \<open>Records\<close>: \<open>models/*.hpp\<close>. The value types, their
    arithmetic, packed bytes, comparison by \<open>memcmp\<close> and hashes; the text output and the parsers
    over the formats of the C library; the decoding of the packed bytes, with the locale \<open>codec\<close>
    that every type written to a log satisfies.
  \<^item> \<open>Ranges\<close>, \<open>Containers\<close>: \<open>range/*.hpp\<close>, the interface with its iterator and the range-for
    loop, forward, filtered and sorted ranges, over lists that model vectors, multimaps and sets.
    The contract of a range is \<open>range_contract\<close>; \<open>filtered_range\<close> has it by a \<open>sublocale\<close>.
  \<^item> \<open>History\<close>, \<open>Memory_History\<close>, \<open>Log_History\<close>, \<open>DB_History\<close>: \<open>history/*.hpp\<close>. A virtual
    method is a field of \<open>history_ops\<close>, so the methods of the base class run over any history.
    The locales \<open>history_store\<close> and \<open>sync_pair\<close> say what synchronisation needs.
  \<^item> \<open>Broker\<close>, \<open>Bots\<close>, \<open>Source\<close>: \<open>brokers/*.hpp\<close>, \<open>bots/*.hpp\<close>, \<open>sources/Source.hpp\<close> and
    \<open>sources/CSVSource.hpp\<close>. Histories are addresses in a store, fed in the order of the set of
    pointers; the cleanup thread of a source is a step of the relation \<open>source_step\<close>, and its clock
    starts at the year 0 of the calendar, as the code has it.
  \<^item> \<open>Logs\<close>, \<open>Directories\<close>, \<open>Upscale\<close>: \<open>db/*.hpp\<close> and \<open>IO/directories.hpp\<close>. Files are bytes on a
    disk of paths; a write may fail after any number of bytes. The library upscaledb is
    the locale \<open>ups_store\<close>: every call may fail, or succeed and do what is documented. It has two
    instances in memory, one with bounded room, and \<open>yields\<close> and \<open>visits\<close> say what a program over
    it gives unless a call fails.
  \<^item> \<open>WebSocket\<close>, \<open>WebSocket_Client\<close>: \<open>network/easywsclient.cpp\<close> and \<open>WebSocketClient.hpp\<close>. Frames
    byte by byte with the wrap-around of 64-bit lengths, the exchange with the kernel, the URL,
    the request (whose lines \<open>send\<close> may take in part or not at all), the handshake, and the client as
    the relation \<open>wc_step\<close>.
  \<^item> \<open>Sockets\<close>, \<open>Pusher\<close>: \<open>network/TCPClient.hpp\<close>, \<open>TCPServer.hpp\<close>, \<open>RestClient.hpp\<close>, \<open>Pusher.hpp\<close>.
    The readers of client and server share the locale \<open>piecewise_reader\<close>. \<open>Bitstamp\<close>: the
    orders of \<open>sources/BitstampSource.hpp\<close>, a source that a Pusher client feeds.
  \<^item> \<open>Json\<close>, \<open>Json_Lexer\<close>, \<open>Json_Parser\<close>, \<open>Json_Float\<close>, \<open>Json_Serializer\<close>: what the program uses of
    \<open>json.hpp\<close>, a changed copy of nlohmann::json: values, access, the lexer and the parser, the
    text of floating-point numbers by Grisu2, and dumping. \<open>Json_Utf8\<close>, \<open>Json_Strings\<close>,
    \<open>Json_Read\<close>, \<open>Json_Roundtrip\<close>: lemmas from the table of the UTF-8 decoder up to the round trip.
  \<^item> \<open>Plot_Buffer\<close>, \<open>Plotter\<close>, \<open>Fourier\<close>: \<open>math/*.hpp\<close>. A plot is what is written to the screen in
    order, the cells and then the header over them. \<open>History_Plot\<close> is \<open>History::plot\<close>, the
    four curves over a history and their axes.

  \<^bold>\<open>Conventions.\<close> A function of the model has the name of the function of the code, with a prefix
  where methods of several classes share one. State is passed explicitly. \<open>None\<close>, where a theory
  says so in its first lines, stands for undefined behaviour (a null or stray pointer, an
  uninitialised read that matters, a conversion out of range) and for a loop that does not
  return; exceptions are values of a sum type. What an uninitialised variable holds is an argument.
  Loops that may not end are \<open>partial_function (option)\<close>; no fuel is used, and that such a loop
  returns is a statement of its own where it is claimed. That Grisu2 writes a number which reads as
  an equal one is not proved: the round trip asks it of the numbers in the value, by evaluation.
  The results of the operating system come in as lists, one entry for each call, whose length
  bounds nothing else.

  \<^bold>\<open>What is shown.\<close> A pretended broker that executes decisions in time order keeps a ledger that
  adds up and that look-ups agree with; refused decisions change nothing, but no purchase is refused
  for its price. Look-ups by time, intervals, spans and summaries are characterised on every branch
  (a look-up before the first change is undefined behaviour), and synchronisation makes two
  histories hold the same trades. Cleaning a source never changes a recent answer. What is inserted in the tree,
  appended to a log, or fed to a database history is read back, in order, as long as the library does not fail; a failed write is shown
  to leave log and tree apart, and records misaligned. Messages pass through the framing
  unchanged, however they are cut; polling loses no byte; the state of a socket only advances, and
  a closing one closes when it is not blocked. URLs are read back from their texts, and a timestamp
  built from a date counts its seconds twice; no buffer of the handshake overflows, and the
  request goes whole when every call of \<open>send\<close> takes its line. A JSON value that was written is parsed back as an equal one; parsing
  always returns, and the string buffer of the serializer is large enough. Subscriptions get exactly their events; an order that a message announces reaches
  the source, and data that lacks a member is dropped. A fresh plot is the lattice of its
  grids; curves only paint their pixels; the grid ends when its step is at least the spacing of
  doubles; the event loop ends on q; the Fourier analysis has one coefficient for every period, of what
  its own loop over the range reads.
  Where the code does otherwise than it means to, the theorem states what it does, and says so.

  \<^bold>\<open>Parameters.\<close> The calendar of the host, logarithm, power, root, sine and cosine, \<open>rand\<close>, the hash
  map of TBB, the libraries upscaledb, zlib, libcurl and ncurses, sockets, name resolution,
  the clock, and which texts \<open>strtod\<close> reports as out of range. What the code relies on is stated in locales with instances, and nowhere else.

  \<^bold>\<open>Not modelled.\<close> Of \<open>json.hpp\<close> the binary formats, pointers, patches, iterators, the
  order of values, parser callbacks and indented output, which the program does not use.
  Of \<open>sources/BitstampSource.hpp\<close> the trades: \<open>make_trade\<close> does not compile (it initialises a
  class that has a constructor as an aggregate), so there is no behaviour to model. \<open>tests\<close> and
  \<open>run\<close> are programs that exercise the library, and a script. Of the modelled files, the constant
  names and the output operators of brokers and responses, the messages on the error stream and
  the palette of the terminal are left out. Threads interleave at the granularity of calls: data
  races between them are not modelled.
\<close>

end
